(* ===== verification/Prelude.thy ===== *)
theory Prelude
  imports Main "HOL-Library.Word"
begin

unbundle bit_operations_syntax

text \<open>
  Shared vocabulary of the development: the C integer types as words, the outcome of a
  kernel function (a value with the new state, or the reason why it never gives one),
  byte-addressed memory with little-endian loads and stores of any width, and the
  generic lemmas on words and memory that the components use.
\<close>

section \<open>Types\<close>

type_synonym u8 = "8 word"
type_synonym u16 = "16 word"
type_synonym u32 = "32 word"
type_synonym u64 = "64 word"
type_synonym i32 = "32 word"

type_synonym memory = "u64 \<Rightarrow> u8"

named_theorems kernel_simps \<open>defining equations used to run a kernel function symbolically\<close>
named_theorems word_arith \<open>reading word arithmetic as arithmetic on natural numbers\<close>

section \<open>Outcomes\<close>

text \<open>
  \<open>Assert_failed\<close> is a failed \<open>ASSERT\<close>: \<open>error_check\<close> (utils/assert.c) prints and then
  spins in \<open>while (1)\<close>, so nothing after it runs. \<open>Spin\<close> is any other loop that the code
  enters and never leaves. \<open>Null_pointer\<close> and \<open>Out_of_bounds\<close> are accesses through a
  null pointer or outside a C array, \<open>Div_by_zero\<close> a division by zero: undefined
  behaviour in C, so the model stops there instead of inventing a value. \<open>Page_fault\<close> is an
  access of the kernel to a user address that the current tables do not map: the kernel's
  own exception handler prints the fault and spins.
\<close>

datatype halt = Assert_failed | Spin | Null_pointer | Out_of_bounds | Div_by_zero | Page_fault

type_synonym ('a, 's) outcome = "halt + 'a \<times> 's"

definition kbind :: "('a, 's) outcome \<Rightarrow> ('a \<Rightarrow> 's \<Rightarrow> ('b, 's) outcome) \<Rightarrow> ('b, 's) outcome" where
  "kbind r f = (case r of Inl h \<Rightarrow> Inl h | Inr (x, s) \<Rightarrow> f x s)"

definition kassert :: "bool \<Rightarrow> 's \<Rightarrow> (unit, 's) outcome" where
  "kassert b s = (if b then Inr ((), s) else Inl Assert_failed)"

lemma kbind_simps [simp]:
  "kbind (Inl h) f = Inl h"
  "kbind (Inr (x, s)) f = f x s"
  by (simp_all add: kbind_def)

lemma kbind_Inr_iff:
  "kbind r f = Inr z \<longleftrightarrow> (\<exists>x s. r = Inr (x, s) \<and> f x s = Inr z)"
  by (cases r) (auto simp: kbind_def)

lemma kassert_simps [simp]:
  "b \<Longrightarrow> kassert b s = Inr ((), s)"
  "\<not> b \<Longrightarrow> kassert b s = Inl Assert_failed"
  by (simp_all add: kassert_def)

lemma kassert_Inr_iff [simp]: "kassert b s = Inr z \<longleftrightarrow> b \<and> z = ((), s)"
  by (auto simp: kassert_def)

text \<open>A C \<open>for\<close> loop over an index list; it stops at the first body that does not return.\<close>

primrec for_each :: "'i list \<Rightarrow> ('i \<Rightarrow> 's \<Rightarrow> (unit, 's) outcome) \<Rightarrow> 's \<Rightarrow> (unit, 's) outcome" where
  "for_each [] f s = Inr ((), s)"
| "for_each (i # xs) f s = kbind (f i s) (\<lambda>_. for_each xs f)"

lemma for_each_prefix:
  assumes "I [] s"
    and "\<And>ds i is s. xs = ds @ i # is \<Longrightarrow> I ds s \<Longrightarrow> \<exists>s'. f i s = Inr ((), s') \<and> I (ds @ [i]) s'"
  shows "\<exists>s'. for_each xs f s = Inr ((), s') \<and> I xs s'"
proof -
  have "\<exists>s'. for_each js f s = Inr ((), s') \<and> I (ds @ js) s'" if "I ds s" "xs = ds @ js" for ds js s
    using that
  proof (induction js arbitrary: ds s)
    case Nil
    then show ?case by simp
  next
    case (Cons j js)
    with assms(2) obtain s1 where "f j s = Inr ((), s1)" "I (ds @ [j]) s1" by blast
    with Cons.IH [of "ds @ [j]" s1] Cons.prems show ?case by simp
  qed
  from this [of "[]" s "xs"] assms(1) show ?thesis by simp
qed

lemma for_each_invariant:
  assumes "I [] s"
    and "\<And>ds i s. I ds s \<Longrightarrow> i \<in> set xs \<Longrightarrow> \<exists>s'. f i s = Inr ((), s') \<and> I (ds @ [i]) s'"
  shows "\<exists>s'. for_each xs f s = Inr ((), s') \<and> I xs s'"
  using assms by (intro for_each_prefix) auto

text \<open>The C idiom \<open>for (i = ...; i < n; i++) if (P i) break;\<close> and its result.\<close>

function first_index :: "(nat \<Rightarrow> bool) \<Rightarrow> nat \<Rightarrow> nat \<Rightarrow> nat option" where
  "first_index P i n = (if n \<le> i then None else if P i then Some i else first_index P (Suc i) n)"
  by auto
termination by (relation "measure (\<lambda>(P, i, n). n - i)") auto

declare first_index.simps [simp del]

lemma first_index_Some:
  "first_index P i n = Some k \<longleftrightarrow> i \<le> k \<and> k < n \<and> P k \<and> (\<forall>j. i \<le> j \<and> j < k \<longrightarrow> \<not> P j)"
proof (induction P i n rule: first_index.induct)
  case (1 P i n)
  show ?case
  proof (cases "n \<le> i \<or> P i")
    case True
    then show ?thesis
      by (subst first_index.simps) (auto simp: not_less le_less)
  next
    case False
    then have "first_index P i n = first_index P (Suc i) n" by (subst first_index.simps) simp
    with 1 False have "first_index P i n = Some k \<longleftrightarrow>
        Suc i \<le> k \<and> k < n \<and> P k \<and> (\<forall>j. Suc i \<le> j \<and> j < k \<longrightarrow> \<not> P j)" by simp
    with False show ?thesis by (metis Suc_leI le_neq_implies_less Suc_leD)
  qed
qed

lemma first_index_None: "first_index P i n = None \<longleftrightarrow> (\<forall>j. i \<le> j \<and> j < n \<longrightarrow> \<not> P j)"
proof (induction P i n rule: first_index.induct)
  case (1 P i n)
  show ?case
  proof (cases "n \<le> i \<or> P i")
    case True
    then show ?thesis by (subst first_index.simps) auto
  next
    case False
    then have "first_index P i n = first_index P (Suc i) n" by (subst first_index.simps) simp
    with 1 False have "first_index P i n = None \<longleftrightarrow> (\<forall>j. Suc i \<le> j \<and> j < n \<longrightarrow> \<not> P j)" by simp
    with False show ?thesis by (metis Suc_leI le_neq_implies_less Suc_leD)
  qed
qed

lemma first_index_cong:
  assumes "\<And>j. i \<le> j \<Longrightarrow> j < n \<Longrightarrow> P j = Q j"
  shows "first_index P i n = first_index Q i n"
proof (cases "first_index Q i n")
  case None
  then have "first_index P i n = None" using assms by (simp add: first_index_None)
  with None show ?thesis by simp
next
  case (Some k)
  then have "first_index P i n = Some k" using assms by (simp add: first_index_Some)
  with Some show ?thesis by simp
qed

section \<open>Maps\<close>

lemma restrict_map_UNIV [simp]: "m |` UNIV = m"
  by (simp add: restrict_map_def)

lemma ran_remove:
  assumes "m x = Some q" "\<And>y. m y = Some q \<Longrightarrow> x = y"
  shows "ran (m(x := None)) = ran m - {q}"
proof
  show "ran (m(x := None)) \<subseteq> ran m - {q}"
  proof
    fix r assume "r \<in> ran (m(x := None))"
    then obtain y where y: "y \<noteq> x" "m y = Some r" by (auto simp: ran_def split: if_splits)
    then have "r \<noteq> q" using assms(2) by blast
    with y(2) show "r \<in> ran m - {q}" by (auto simp: ran_def)
  qed
  show "ran m - {q} \<subseteq> ran (m(x := None))"
  proof
    fix r assume r: "r \<in> ran m - {q}"
    then obtain y where y: "m y = Some r" by (auto simp: ran_def)
    with r assms(1) have "y \<noteq> x" by auto
    with y show "r \<in> ran (m(x := None))" by (auto simp: ran_def)
  qed
qed

section \<open>Word arithmetic\<close>

lemma unat_add_small [word_arith]:
  fixes a b :: "'a::len word"
  shows "unat a + unat b < 2 ^ LENGTH('a) \<Longrightarrow> unat (a + b) = unat a + unat b"
  by (simp add: unat_word_ariths)

lemma unat_of_nat_small [word_arith]:
  "n < 2 ^ LENGTH('a::len) \<Longrightarrow> unat (of_nat n :: 'a word) = n"
  by (simp add: unat_of_nat take_bit_nat_eq_self)

lemma unat_offset:
  assumes "unat (a::u64) + k < 2 ^ 64"
  shows "unat (a + of_nat k) = unat a + k"
proof -
  have "unat (of_nat k :: u64) = k" using assms by (intro unat_of_nat_small) simp
  with assms show ?thesis by (simp add: unat_add_small)
qed

lemma sint_add_small [word_arith]:
  fixes a b :: "32 word"
  shows "- (2 ^ 31) \<le> sint a + sint b \<Longrightarrow> sint a + sint b < 2 ^ 31 \<Longrightarrow> sint (a + b) = sint a + sint b"
  by (simp add: sint_word_ariths signed_take_bit_int_eq_self)

lemma sint_bounds: "- (2 ^ 31) \<le> sint (a :: 32 word)" "sint a < 2 ^ 31"
  using sint_range_size [of a] by (simp_all add: word_size)

lemma unat_u32_less: "unat (n::u32) < 4294967296"
  using unsigned_less [of n, where ?'a = nat] by simp

lemma unat_u32_u64 [simp]: "unat (ucast (n::u32) :: u64) = unat n"
  using unat_u32_less [of n] by (simp add: unsigned_ucast_eq take_bit_nat_eq_self)

lemma unat_u16_less: "unat (n::u16) < 65536"
  using unsigned_less [of n, where ?'a = nat] by simp

lemma unat_u8_less: "unat (n::u8) < 256"
  using unsigned_less [of n, where ?'a = nat] by simp

lemma unat_u64_less: "unat (n::u64) < 18446744073709551616"
  using unsigned_less [of n, where ?'a = nat] by simp

text \<open>The distance of an address from the start of a range decides membership.\<close>

definition in_range :: "u64 \<Rightarrow> nat \<Rightarrow> u64 \<Rightarrow> bool" where
  "in_range a n x \<longleftrightarrow> unat (x - a) < n"

lemma in_range_iff:
  assumes "unat a + n \<le> 2 ^ 64"
  shows "in_range a n x \<longleftrightarrow> unat a \<le> unat x \<and> unat x < unat a + n"
proof (cases "unat a \<le> unat x")
  case True
  then have "unat (x - a) = unat x - unat a"
    by (simp add: unat_sub word_le_nat_alt)
  with True show ?thesis by (auto simp: in_range_def)
next
  case False
  then have "unat (x - a) = 2 ^ 64 + unat x - unat a"
    by (simp add: unat_sub_if' word_le_nat_alt) 
  with False assms show ?thesis by (simp add: in_range_def)
qed

lemma in_range_add: "n \<le> 2 ^ 64 \<Longrightarrow> in_range a n x \<longleftrightarrow> (\<exists>i < n. x = a + of_nat i)"
proof
  assume n: "n \<le> 2 ^ 64" and "in_range a n x"
  then show "\<exists>i < n. x = a + of_nat i"
    by (intro exI [of _ "unat (x - a)"]) (simp add: in_range_def)
next
  assume n: "n \<le> 2 ^ 64" and "\<exists>i < n. x = a + of_nat i"
  then show "in_range a n x"
    by (auto simp: in_range_def unat_of_nat_small)
qed

section \<open>Little-endian memory access\<close>

text \<open>
  \<open>rd n m a\<close> loads the \<open>n\<close> bytes at address \<open>a\<close> and \<open>wr n m a v\<close> stores the low \<open>n\<close>
  bytes of \<open>v\<close> there. The machine is little-endian and addresses wrap at 64 bits.
\<close>

primrec rd :: "nat \<Rightarrow> memory \<Rightarrow> u64 \<Rightarrow> 'a::len word" where
  "rd 0 m a = 0"
| "rd (Suc n) m a = ucast (m a) OR push_bit 8 (rd n m (a + 1))"

primrec wr :: "nat \<Rightarrow> memory \<Rightarrow> u64 \<Rightarrow> 'a::len word \<Rightarrow> memory" where
  "wr 0 m a v = m"
| "wr (Suc n) m a v = (wr n m (a + 1) (drop_bit 8 v))(a := ucast v)"

abbreviation ld16 :: "memory \<Rightarrow> u64 \<Rightarrow> u16" where "ld16 \<equiv> rd 2"
abbreviation ld32 :: "memory \<Rightarrow> u64 \<Rightarrow> u32" where "ld32 \<equiv> rd 4"
abbreviation ld64 :: "memory \<Rightarrow> u64 \<Rightarrow> u64" where "ld64 \<equiv> rd 8"
abbreviation st32 :: "memory \<Rightarrow> u64 \<Rightarrow> u32 \<Rightarrow> memory" where "st32 \<equiv> wr 4"
abbreviation st64 :: "memory \<Rightarrow> u64 \<Rightarrow> u64 \<Rightarrow> memory" where "st64 \<equiv> wr 8"

lemma rd_cong:
  "(\<And>i. i < n \<Longrightarrow> m (a + of_nat i) = m' (a + of_nat i)) \<Longrightarrow> rd n m a = rd n m' a"
proof (induction n arbitrary: a)
  case 0
  show ?case by simp
next
  case (Suc n)
  have "rd n m (a + 1) = (rd n m' (a + 1) :: 'a word)"
  proof (rule Suc.IH)
    fix i assume "i < n"
    with Suc.prems [of "Suc i"] show "m (a + 1 + of_nat i) = m' (a + 1 + of_nat i)"
      by (simp add: add.assoc)
  qed
  with Suc.prems [of 0] show ?case by simp
qed

lemma wr_other: "(\<And>i. i < n \<Longrightarrow> x \<noteq> a + of_nat i) \<Longrightarrow> wr n m a v x = m x"
proof (induction n arbitrary: a v)
  case 0
  show ?case by simp
next
  case (Suc n)
  have "wr n m (a + 1) (drop_bit 8 v) x = m x"
  proof (rule Suc.IH)
    fix i assume "i < n"
    with Suc.prems [of "Suc i"] show "x \<noteq> a + 1 + of_nat i" by (simp add: add.assoc)
  qed
  with Suc.prems [of 0] show ?case by simp
qed

lemma rd_wr_other:
  assumes "\<And>i j. i < k \<Longrightarrow> j < n \<Longrightarrow> b + of_nat i \<noteq> a + of_nat j"
  shows "rd k (wr n m a v) b = rd k m b"
  using assms by (intro rd_cong wr_other) blast

lemma add_of_nat_neq:
  assumes "i < 2 ^ 64" "j < 2 ^ 64" "i \<noteq> j"
  shows "(a::u64) + of_nat i \<noteq> a + of_nat j"
  proof
  assume "a + of_nat i = a + of_nat j"
  then have "unat (of_nat i :: u64) = unat (of_nat j :: u64)" by simp
  with assms show False by (simp add: unat_of_nat_small)
qed

lemma rd_wr_same:
  "n \<le> 2 ^ 63 \<Longrightarrow> rd n (wr n m a v) a = take_bit (8 * n) v"
proof (induction n arbitrary: a v)
  case 0
  show ?case by simp
next
  case (Suc n)
  let ?w = "wr n m (a + 1) (drop_bit 8 v)"
  have "rd n (?w(a := ucast v)) (a + 1) = (rd n ?w (a + 1) :: 'a word)"
  proof (rule rd_cong)
    fix i assume "i < n"
    with Suc.prems add_of_nat_neq [of "Suc i" 0 a] have "a + 1 + of_nat i \<noteq> a"
      by (simp add: add.assoc)
    then show "(?w(a := ucast v)) (a + 1 + of_nat i) = ?w (a + 1 + of_nat i)" by simp
  qed
  also have "\<dots> = take_bit (8 * n) (drop_bit 8 v)"
    using Suc by simp
  finally have "rd (Suc n) (wr (Suc n) m a v) a
      = ucast (ucast v :: u8) OR push_bit 8 (take_bit (8 * n) (drop_bit 8 v))"
    by (simp only: rd.simps wr.simps fun_upd_same)
  then show ?case
    by (auto intro!: bit_word_eqI simp: bit_simps simp del: rd.simps wr.simps)
qed

lemma ld64_st64_same [simp]: "ld64 (st64 m a v) a = v"
  by (simp add: rd_wr_same take_bit_word_eq_self)

lemma ld32_st32_same [simp]: "ld32 (st32 m a v) a = v"
  by (simp add: rd_wr_same take_bit_word_eq_self)

lemma rd_zero: "(\<And>i. i < n \<Longrightarrow> m (a + of_nat i) = 0) \<Longrightarrow> rd n m a = 0"
proof (induction n arbitrary: a)
  case 0
  show ?case by simp
next
  case (Suc n)
  have "rd n m (a + 1) = (0 :: 'a word)"
  proof (rule Suc.IH)
    fix i assume "i < n"
    with Suc.prems [of "Suc i"] show "m (a + 1 + of_nat i) = 0" by (simp add: add.assoc)
  qed
  with Suc.prems [of 0] show ?case by simp
qed

lemma u8_bit_high: "8 \<le> k \<Longrightarrow> \<not> bit (b::u8) k"
  using bit_imp_le_length [of b k] by auto

text \<open>The single bytes of a load and of a store.\<close>

lemma wr_byte:
  "i < n \<Longrightarrow> n \<le> 2 ^ 63 \<Longrightarrow> wr n m a v (a + of_nat i) = ucast (drop_bit (8 * i) v)"
proof (induction n arbitrary: a v i)
  case 0
  then show ?case by simp
next
  case (Suc n)
  show ?case
  proof (cases i)
    case 0
    then show ?thesis by simp
  next
    case (Suc j)
    with Suc.prems add_of_nat_neq [of "Suc j" 0 a] have "a + 1 + of_nat j \<noteq> a"
      by (simp add: add.assoc)
    with Suc.prems Suc.IH [of j "a + 1" "drop_bit 8 v"] Suc show ?thesis
      by (simp add: add.assoc add.commute [of 8])
  qed
qed

lemma rd_byte:
  "i < n \<Longrightarrow> 8 * n \<le> LENGTH('a::len) \<Longrightarrow>
     ucast (drop_bit (8 * i) (rd n m a :: 'a word)) = m (a + of_nat i)"
proof (induction n arbitrary: a i)
  case 0
  then show ?case by simp
next
  case (Suc n)
  show ?case
  proof (cases i)
    case 0
    with Suc.prems show ?thesis by (auto intro!: bit_word_eqI simp: bit_simps)
  next
    case (Suc j)
    with Suc.prems have "ucast (drop_bit (8 * i) (rd (Suc n) m a :: 'a word))
        = (ucast (drop_bit (8 * j) (rd n m (a + 1) :: 'a word)) :: u8)"
      by (auto intro!: bit_word_eqI simp: bit_simps u8_bit_high)
    with Suc.prems Suc.IH [of j "a + 1"] Suc show ?thesis by (simp add: add.assoc)
  qed
qed

text \<open>
  A store changes nothing outside its bytes; two accesses whose byte ranges, read as
  intervals of natural numbers, do not meet are independent.
\<close>

definition apart :: "u64 \<Rightarrow> nat \<Rightarrow> u64 \<Rightarrow> nat \<Rightarrow> bool" where
  "apart a n b k \<longleftrightarrow> unat a + n \<le> 2 ^ 64 \<and> unat b + k \<le> 2 ^ 64
     \<and> (unat a + n \<le> unat b \<or> unat b + k \<le> unat a)"

lemma apart_sym: "apart a n b k \<Longrightarrow> apart b k a n"
  by (auto simp: apart_def)

lemma apart_neq:
  assumes "apart a n b k" "i < n" "j < k"
  shows "a + of_nat i \<noteq> b + of_nat j"
proof
  assume "a + of_nat i = b + of_nat j"
  then have "unat (a + of_nat i) = unat (b + of_nat j)" by simp
  moreover have "unat (a + of_nat i) = unat a + i" "unat (b + of_nat j) = unat b + j"
    using assms by (simp_all add: word_arith apart_def)
  ultimately show False using assms by (auto simp: apart_def)
qed

lemma rd_wr_apart: "apart b k a n \<Longrightarrow> rd k (wr n m a v) b = rd k m b"
  by (rule rd_wr_other) (rule apart_neq)

end
