(* ===== verification/MemOps.thy ===== *)
theory MemOps
  imports Prelude
begin

text \<open>
  The memory routines of utils/utils.s (user/lib/lib.s holds the same code for user
  programs): \<open>memset\<close>, \<open>memcmp\<close> and \<open>memcpy\<close>/\<open>memmove\<close>, which share one body. The
  definitions follow the assembly register by register; the lemmas give what a caller may
  rely on: \<open>memset\<close> fills exactly its range, \<open>memcmp\<close> decides equality of two ranges, and
  \<open>memcpy\<close> copies whenever it runs forwards. Its backward path, taken when the destination
  starts inside the source, does not copy: it misses three bytes and writes past the end.
\<close>

section \<open>memset\<close>

primrec memset_set :: "nat \<Rightarrow> memory \<Rightarrow> u64 \<Rightarrow> u8 \<Rightarrow> memory" where
  "memset_set 0 m x0 w1 = m"
| "memset_set (Suc x2) m x0 w1 = memset_set x2 (m(x0 := w1)) (x0 + 1) w1"

definition memset :: "memory \<Rightarrow> u64 \<Rightarrow> u32 \<Rightarrow> u32 \<Rightarrow> memory" where
  "memset m dst value n = (if n = 0 then m else memset_set (unat n) m dst (ucast value))"

section \<open>memcmp\<close>

primrec memcmp_compare :: "nat \<Rightarrow> memory \<Rightarrow> u64 \<Rightarrow> u64 \<Rightarrow> u32" where
  "memcmp_compare 0 m x3 x1 = 0"
| "memcmp_compare (Suc x2) m x3 x1 =
     (if m x3 = m x1 then memcmp_compare x2 m (x3 + 1) (x1 + 1) else 1)"

definition memcmp :: "memory \<Rightarrow> u64 \<Rightarrow> u64 \<Rightarrow> u32 \<Rightarrow> u32" where
  "memcmp m src1 src2 n = memcmp_compare (unat n) m src1 src2"

section \<open>memcpy and memmove\<close>

text \<open>
  The labels \<open>copy_1\<close> and \<open>copy\<close>/\<open>copy_4\<close>; \<open>x4\<close> and \<open>x5\<close> are the byte and word strides,
  \<open>1\<close> and \<open>4\<close> or their negations.
\<close>

primrec copy_1 :: "nat \<Rightarrow> memory \<Rightarrow> u64 \<Rightarrow> u64 \<Rightarrow> u64 \<Rightarrow> memory" where
  "copy_1 0 m x0 x1 x4 = m"
| "copy_1 (Suc x2) m x0 x1 x4 = copy_1 x2 (m(x0 := m x1)) (x0 + x4) (x1 + x4) x4"

fun copy :: "nat \<Rightarrow> memory \<Rightarrow> u64 \<Rightarrow> u64 \<Rightarrow> u64 \<Rightarrow> u64 \<Rightarrow> memory" where
  "copy x2 m x0 x1 x4 x5 =
     (if x2 < 4 then copy_1 x2 m x0 x1 x4
      else (let m' = st32 m x0 (ld32 m x1) in
            if x2 = 4 then m' else copy (x2 - 4) m' (x0 + x5) (x1 + x5) x4 x5))"

declare copy.simps [simp del]

definition memcpy :: "memory \<Rightarrow> u64 \<Rightarrow> u64 \<Rightarrow> u32 \<Rightarrow> memory" where
  "memcpy m dst src n =
     (if n = 0 then m
      else if dst \<le> src then copy (unat n) m dst src 1 4
      else if src + ucast n \<le> dst then copy (unat n) m dst src 1 4
      else (let x3 = ucast n - 1 in copy (unat n) m (dst + x3) (src + x3) (- 1) (- 4)))"

section \<open>memset fills exactly its range\<close>

lemma in_range_Suc:
  assumes "n < 2 ^ 64"
  shows "in_range a (Suc n) x \<longleftrightarrow> x = a \<or> in_range (a + 1) n x"
proof -
  have "in_range a (Suc n) x \<longleftrightarrow> (\<exists>i < Suc n. x = a + of_nat i)"
    using assms by (intro in_range_add) simp
  also have "\<dots> \<longleftrightarrow> x = a \<or> (\<exists>i < n. x = a + 1 + of_nat i)"
    by (auto simp: Ex_less_Suc2 add.assoc)
  also have "\<dots> \<longleftrightarrow> x = a \<or> in_range (a + 1) n x"
    using assms by (subst in_range_add) auto
  finally show ?thesis .
qed

lemma not_in_range_0 [simp]: "\<not> in_range a 0 x"
  by (simp add: in_range_def)

lemma memset_set_eq:
  "n \<le> 2 ^ 64 \<Longrightarrow> memset_set n m d w = (\<lambda>x. if in_range d n x then w else m x)"
proof (induction n arbitrary: m d)
  case 0
  show ?case by simp
next
  case (Suc n)
  then have "memset_set (Suc n) m d w
      = (\<lambda>x. if in_range (d + 1) n x then w else (m(d := w)) x)"
    by simp
  with Suc.prems show ?case
    by (auto simp: in_range_Suc fun_eq_iff)
qed

lemma memset_eq [code]:
  "memset m d v n = (\<lambda>x. if in_range d (unat n) x then ucast v else m x)"
  using unat_u32_less [of n] by (auto simp: memset_def memset_set_eq)

section \<open>memcmp decides equality\<close>

lemma memcmp_compare_eq:
  "memcmp_compare n m a b = (if \<forall>i < n. m (a + of_nat i) = m (b + of_nat i) then 0 else 1)"
proof (induction n arbitrary: a b)
  case 0
  show ?case by simp
next
  case (Suc n)
  then show ?case by (simp add: All_less_Suc2 add.assoc)
qed

lemma memcmp_eq_0:
  "memcmp m a b n = 0 \<longleftrightarrow> (\<forall>i < unat n. m (a + of_nat i) = m (b + of_nat i))"
  by (simp add: memcmp_def memcmp_compare_eq)

section \<open>Forward copies\<close>

text \<open>
  \<open>copied m d s n\<close> is the memory in which the \<open>n\<close> bytes at \<open>d\<close> hold what the \<open>n\<close> bytes
  at \<open>s\<close> held before. A forward copy reaches it when the ranges do not wrap and the
  destination is not inside the source.
\<close>

definition copied :: "memory \<Rightarrow> u64 \<Rightarrow> u64 \<Rightarrow> nat \<Rightarrow> memory" where
  "copied m d s n = (\<lambda>x. if in_range d n x then m (s + (x - d)) else m x)"

definition forward_ok :: "u64 \<Rightarrow> u64 \<Rightarrow> nat \<Rightarrow> bool" where
  "forward_ok d s n \<longleftrightarrow> unat d + n \<le> 2 ^ 64 \<and> unat s + n \<le> 2 ^ 64
     \<and> (unat d \<le> unat s \<or> unat s + n \<le> unat d)"

lemma copied_0 [simp]: "copied m d s 0 = m"
  by (simp add: copied_def)

lemma in_range_split:
  assumes "unat a + (k + n) \<le> 2 ^ 64" "0 < n"
  shows "in_range a (k + n) x \<longleftrightarrow> in_range a k x \<or> in_range (a + of_nat k) n x"
proof -
  have "unat (a + of_nat k) = unat a + k"
    using assms by (simp add: word_arith)
  with assms show ?thesis by (subst (1 2 3) in_range_iff) auto
qed

text \<open>One chunk: copying \<open>k\<close> bytes and then \<open>n\<close> more is copying \<open>k + n\<close>.\<close>

lemma copied_append:
  assumes "forward_ok d s (k + n)" "0 < n"
  shows "copied (copied m d s k) (d + of_nat k) (s + of_nat k) n = copied m d s (k + n)"
proof
  fix x
  have k: "unat (d + of_nat k) = unat d + k" "unat (s + of_nat k) = unat s + k"
    using assms by (simp_all add: forward_ok_def word_arith)
  have sp: "in_range d (k + n) x \<longleftrightarrow> in_range d k x \<or> in_range (d + of_nat k) n x"
    using assms by (intro in_range_split) (simp_all add: forward_ok_def)
  show "copied (copied m d s k) (d + of_nat k) (s + of_nat k) n x = copied m d s (k + n) x"
  proof (cases "in_range (d + of_nat k) n x")
    case False
    then show ?thesis by (simp add: copied_def sp)
  next
    case True
    let ?y = "s + of_nat k + (x - (d + of_nat k))"
    have y: "?y = s + (x - d)" by simp
    have "unat (x - (d + of_nat k)) < n" using True by (simp add: in_range_def)
    then have "unat ?y = unat s + k + unat (x - (d + of_nat k))"
      using assms k by (subst unat_add_small) (simp_all add: forward_ok_def)
    with assms True have "\<not> in_range d k ?y"
      by (subst in_range_iff)
        (auto simp: forward_ok_def in_range_def)
    with True show ?thesis by (simp add: copied_def sp y)
  qed
qed

lemma copied_1: "copied m d s 1 = m(d := m s)"
  using in_range_Suc [of 0 d] by (auto simp: copied_def fun_eq_iff)

lemma st32_ld32: "st32 m d (ld32 m s) = copied m d s 4"
proof
  fix x
  show "st32 m d (ld32 m s) x = copied m d s 4 x"
  proof (cases "in_range d 4 x")
    case True
    then obtain i where i: "i < 4" "x = d + of_nat i"
      by (auto simp: in_range_add)
    then show ?thesis
      using True wr_byte [of i 4 m d "ld32 m s"] rd_byte [of i 4, where ?'a = 32]
      by (simp add: copied_def)
  next
    case False
    then have "\<forall>i < 4. x \<noteq> d + of_nat i" by (simp add: in_range_add)
    with False show ?thesis by (simp add: copied_def wr_other)
  qed
qed

lemma copy_1_forward: "forward_ok d s n \<Longrightarrow> copy_1 n m d s 1 = copied m d s n"
proof (induction n arbitrary: m d s)
  case 0
  show ?case by simp
next
  case (Suc n)
  show ?case
  proof (cases "n = 0")
    case True
    then show ?thesis using copied_1 by simp
  next
    case False
    with Suc.prems have "forward_ok (d + 1) (s + 1) n"
      using unat_add_small [of d 1] unat_add_small [of s 1] by (auto simp: forward_ok_def)
    then have "copy_1 (Suc n) m d s 1 = copied (copied m d s 1) (d + 1) (s + 1) n"
      using Suc.IH by (simp add: copied_1 del: One_nat_def fun_upd_apply)
    also have "\<dots> = copied m d s (Suc n)"
      using copied_append [of d s 1 n m] Suc.prems False by simp
    finally show ?thesis .
  qed
qed

lemma copy_forward: "forward_ok d s n \<Longrightarrow> copy n m d s 1 4 = copied m d s n"
proof (induction n arbitrary: m d s rule: less_induct)
  case (less n)
  show ?case
  proof (cases "n < 5")
    case True
    with less.prems show ?thesis
      by (cases "n = 4") (auto simp: copy.simps [of 4] copy.simps [of n] copy_1_forward st32_ld32 Let_def)
  next
    case False
    with less.prems have f: "forward_ok (d + 4) (s + 4) (n - 4)"
      using unat_add_small [of d 4] unat_add_small [of s 4] by (auto simp: forward_ok_def)
    from False have "copy n m d s 1 4 = copy (n - 4) (copied m d s 4) (d + 4) (s + 4) 1 4"
      by (simp add: copy.simps [of n] st32_ld32 Let_def)
    also have "\<dots> = copied (copied m d s 4) (d + of_nat 4) (s + of_nat 4) (n - 4)"
      using False less.IH [OF _ f] by simp
    also have "\<dots> = copied m d s n"
      using copied_append [of d s 4 "n - 4" m] less.prems False by simp
    finally show ?thesis .
  qed
qed

lemma memcpy_forward:
  assumes "forward_ok d s (unat n)"
  shows "memcpy m d s n = copied m d s (unat n)"
proof (cases "n = 0 \<or> d \<le> s")
  case True
  with assms show ?thesis by (auto simp: memcpy_def copy_forward)
next
  case False
  with assms have "s + ucast n \<le> d"
    using unat_u32_less [of n]
    by (auto simp: word_le_nat_alt forward_ok_def unat_word_ariths)
  with False assms show ?thesis by (simp add: memcpy_def copy_forward)
qed

section \<open>The backward path\<close>

text \<open>
  With a destination inside the source the routine starts at the last byte, but moves a
  whole word from there upwards before stepping back by four. Of the destination, the
  three bytes from offset \<open>n mod 4\<close> are therefore never written.
\<close>

lemma copy_1_other:
  "(\<And>i. i < n \<Longrightarrow> x \<noteq> d + of_nat i * x4) \<Longrightarrow> copy_1 n m d s x4 x = m x"
proof (induction n arbitrary: m d s)
  case 0
  show ?case by simp
next
  case (Suc n)
  have "copy_1 n (m(d := m s)) (d + x4) (s + x4) x4 x = (m(d := m s)) x"
  proof (rule Suc.IH)
    fix i assume "i < n"
    with Suc.prems [of "Suc i"] show "x \<noteq> d + x4 + of_nat i * x4"
      by (simp add: algebra_simps)
  qed
  with Suc.prems [of 0] show ?case by simp
qed

lemma below_neq_above:
  assumes "0 < i" "i + j < 2 ^ 64"
  shows "(d::u64) - of_nat i \<noteq> d + of_nat j"
proof
  assume "d - of_nat i = d + of_nat j"
  then have "of_nat (i + j) = (0 :: u64)" by (simp add: algebra_simps)
  then have "unat (of_nat (i + j) :: u64) = 0" by simp
  with assms show False by (simp add: unat_of_nat_small del: of_nat_add)
qed

lemma copy_1_backward_other:
  assumes "n + j < 2 ^ 63"
  shows "copy_1 n m d s (- 1) (d + of_nat (Suc j)) = m (d + of_nat (Suc j))"
proof (rule copy_1_other)
  fix i assume "i < n"
  then show "d + of_nat (Suc j) \<noteq> d + of_nat i * - 1"
    using assms below_neq_above [of i "Suc j" d] by (cases "i = 0") (auto simp: add_of_nat_neq [of "Suc j" 0 d, simplified])
qed

lemma copy_backward_gap:
  assumes "n < 2 ^ 32" "j < 3"
  shows "copy n m d s (- 1) (- 4) (d + of_nat (Suc j) + of_nat (n mod 4) - of_nat n)
       = m (d + of_nat (Suc j) + of_nat (n mod 4) - of_nat n)"
  using assms(1)
proof (induction n arbitrary: m d s rule: less_induct)
  case (less n)
  show ?case
  proof (cases "n < 4")
    case True
    then show ?thesis
      using assms(2) copy_1_backward_other [of n j m d s] by (simp add: copy.simps [of n])
  next
    case False
    let ?x = "d + of_nat (Suc j) + of_nat (n mod 4) - of_nat n"
    have "n = 4 * (n div 4) + n mod 4" "0 < n div 4" using False by auto
    then have "n mod 4 + 4 \<le> n" by linarith
    with assms(2) obtain k where sum: "Suc j + n mod 4 + k = n" "0 < k"
      using that [of "n - n mod 4 - Suc j"] by linarith
    from sum(1) have "of_nat (Suc j + n mod 4 + k) = (of_nat n :: u64)" by (rule arg_cong)
    then have x: "?x = d - of_nat k"
      by (simp only: of_nat_add) (simp add: algebra_simps)
    have same: "st32 m d (ld32 m s) ?x = m ?x"
    proof (rule wr_other)
      fix i :: nat assume "i < 4"
      moreover have "k \<le> n" using sum(1) by linarith
      ultimately show "?x \<noteq> d + of_nat i"
        unfolding x using sum(2) less.prems by (intro below_neq_above) simp_all
    qed
    show ?thesis
    proof (cases "n = 4")
      case True
      with same show ?thesis by (simp add: copy.simps [of n] copy.simps [of 4])
    next
      case n4: False
      let ?y = "d + - 4 + of_nat (Suc j) + of_nat ((n - 4) mod 4) - of_nat (n - 4)"
      have y: "?y = ?x"
        using False by (simp add: of_nat_diff le_mod_geq)
      show ?thesis
        using False n4 less.prems same less.IH [of "n - 4" "st32 m d (ld32 m s)" "d + - 4" "s + - 4"]
        unfolding y by (simp add: copy.simps [of n] Let_def)
    qed
  qed
qed

section \<open>Properties\<close>

text \<open>
  \<open>memcpy\<close> copies. When neither range wraps and the destination does not start
  inside the source, the \<open>n\<close> bytes at the destination afterwards are the \<open>n\<close> bytes the
  source held before, whatever overlap there is the other way, and nothing else changed.
\<close>

theorem memcpy_copies:
  assumes "unat d + unat n \<le> 2 ^ 64" "unat s + unat n \<le> 2 ^ 64"
    "d \<le> s \<or> unat s + unat n \<le> unat d"
  shows "memcpy m d s n x = (if in_range d (unat n) x then m (s + (x - d)) else m x)"
  using memcpy_forward [of d s n m] assms
  by (auto simp: forward_ok_def copied_def word_le_nat_alt)

lemma memcpy_copies_witness:
  "memcpy (\<lambda>a. ucast a) 0x10 0x12 7 0x16 = 0x18 \<and> memcpy (\<lambda>a. ucast a) 0x10 0x12 7 0x17 = 0x17"
  by (subst (1 2) memcpy_copies) (simp_all add: in_range_def)



end
