(* ===== verification/Heap.thy ===== *)
theory Heap
  imports MemOps
begin

text \<open>
  The page allocator of utils/memory.c: \<open>kfree\<close>, \<open>kalloc\<close>, \<open>free_region\<close>, \<open>init_memory\<close>
  and \<open>checkmm\<close>. Free 2MB pages form a linked list threaded through their own first eight
  bytes; \<open>free_memory\<close> is the head. The invariant ties that list in memory to an abstract
  list of distinct, aligned pages between the kernel image and the end of the heap, and
  the locale \<open>page_allocator\<close> states what clients of the allocator rely on.
\<close>

section \<open>Address constants and macros (utils/memory.h)\<close>

definition KERNEL_BASE :: u64 where "KERNEL_BASE = 0xffff000000000000"

definition PAGE_SIZE :: u64 where "PAGE_SIZE = 2 * 1024 * 1024"

definition P2V :: "u64 \<Rightarrow> u64" where "P2V p = p + KERNEL_BASE"

definition V2P :: "u64 \<Rightarrow> u64" where "V2P v = v - KERNEL_BASE"

definition HEAP_MEMORY_END :: u64 where "HEAP_MEMORY_END = P2V 0x30000000"

definition PA_UP :: "u64 \<Rightarrow> u64" where
  "PA_UP v = push_bit 21 (drop_bit 21 (v + PAGE_SIZE - 1))"

definition PA_DOWN :: "u64 \<Rightarrow> u64" where
  "PA_DOWN v = push_bit 21 (drop_bit 21 v)"

section \<open>State and operations\<close>

text \<open>
  \<open>free_memory\<close> is the \<open>next\<close> field of the static list head, with 0 for \<open>NULL\<close>;
  \<open>kernel_end\<close> is the address of the linker symbol \<open>end\<close>, which no operation changes.
\<close>

record heap =
  mem :: memory
  free_memory :: u64
  kernel_end :: u64

definition kfree :: "u64 \<Rightarrow> 'a heap_scheme \<Rightarrow> (unit, 'a heap_scheme) outcome" where
  "kfree v s =
     (if v mod PAGE_SIZE \<noteq> 0 then Inl Assert_failed
      else if \<not> kernel_end s \<le> v then Inl Assert_failed
      else if \<not> v + PAGE_SIZE \<le> HEAP_MEMORY_END then Inl Assert_failed
      else Inr ((), s\<lparr>mem := st64 (mem s) v (free_memory s), free_memory := v\<rparr>))"

definition kalloc :: "'a heap_scheme \<Rightarrow> (u64, 'a heap_scheme) outcome" where
  "kalloc s =
     (let page_address = free_memory s in
      if page_address \<noteq> 0 then
        if page_address mod PAGE_SIZE \<noteq> 0 then Inl Assert_failed
        else if \<not> kernel_end s \<le> page_address then Inl Assert_failed
        else if \<not> page_address + PAGE_SIZE \<le> HEAP_MEMORY_END then Inl Assert_failed
        else Inr (page_address, s\<lparr>free_memory := ld64 (mem s) page_address\<rparr>)
      else Inr (page_address, s))"

text \<open>
  The loop of \<open>free_region\<close>: \<open>None\<close> would be a run that never leaves it. The address
  arithmetic wraps, so for a bound near \<open>2 ^ 64\<close> it need not stop.
\<close>

partial_function (option) free_region_loop ::
    "u64 \<Rightarrow> u64 \<Rightarrow> 'a heap_scheme \<Rightarrow> (unit, 'a heap_scheme) outcome option" where
  "free_region_loop start e s =
     (if start + PAGE_SIZE \<le> e then
        if start + PAGE_SIZE \<le> HEAP_MEMORY_END then
          (case kfree start s of
             Inl h \<Rightarrow> Some (Inl h)
           | Inr r \<Rightarrow> free_region_loop (start + PAGE_SIZE) e (snd r))
        else free_region_loop (start + PAGE_SIZE) e s
      else Some (Inr ((), s)))"

definition free_region :: "u64 \<Rightarrow> u64 \<Rightarrow> 'a heap_scheme \<Rightarrow> (unit, 'a heap_scheme) outcome" where
  "free_region v e s = (case free_region_loop (PA_UP v) e s of None \<Rightarrow> Inl Spin | Some r \<Rightarrow> r)"

definition init_memory :: "'a heap_scheme \<Rightarrow> (unit, 'a heap_scheme) outcome" where
  "init_memory s = free_region (kernel_end s) HEAP_MEMORY_END s"

text \<open>
  \<open>checkmm\<close> walks the list and prints the number and address of each page and the total
  in MB; its result here is what it prints. A cyclic list would keep it forever.
\<close>

partial_function (option) checkmm_loop ::
    "memory \<Rightarrow> u64 \<Rightarrow> u64 \<Rightarrow> u64 \<Rightarrow> (u64 \<times> u64) list \<Rightarrow> ((u64 \<times> u64) list \<times> u64) option" where
  "checkmm_loop m v n i out =
     (if v \<noteq> 0 then checkmm_loop m (ld64 m v) (n + PAGE_SIZE) (i + 1) (out @ [(i, v)])
      else Some (out, n))"

definition checkmm :: "'a heap_scheme \<Rightarrow> ((u64 \<times> u64) list \<times> u64) option" where
  "checkmm s = (case checkmm_loop (mem s) (free_memory s) 0 0 [] of
     None \<Rightarrow> None | Some (out, n) \<Rightarrow> Some (out, n div 1024 div 1024))"

section \<open>Pages\<close>

text \<open>
  A heap page: aligned, above the kernel image and wholly below the end of the heap. The
  bound is stated on natural numbers, so it excludes the wrap-around that the assertion
  of \<open>kfree\<close> lets through for the last page of the address space.
\<close>

definition page_ok :: "u64 \<Rightarrow> u64 \<Rightarrow> bool" where
  "page_ok e p \<longleftrightarrow> p mod PAGE_SIZE = 0 \<and> KERNEL_BASE \<le> e \<and> e \<le> p
     \<and> unat p + unat PAGE_SIZE \<le> unat HEAP_MEMORY_END"

lemmas addr_defs = KERNEL_BASE_def PAGE_SIZE_def P2V_def V2P_def HEAP_MEMORY_END_def
  PA_UP_def PA_DOWN_def

lemma unat_consts [simp]:
  "unat PAGE_SIZE = 2097152" "unat HEAP_MEMORY_END = 18446462599538147328"
  "unat KERNEL_BASE = 18446462598732840960"
  by (simp_all add: addr_defs)

lemma page_ok_bounds:
  assumes "page_ok e p"
  shows "18446462598732840960 \<le> unat p" "unat p + 2097152 \<le> 18446462599538147328"
    "2097152 dvd unat p" "p \<noteq> 0" "e \<le> p"
proof -
  from assms have *: "KERNEL_BASE \<le> p" by (auto simp: page_ok_def)
  from * show "18446462598732840960 \<le> unat p" by (simp add: word_le_nat_alt)
  then show "p \<noteq> 0" by auto
  from assms show "unat p + 2097152 \<le> 18446462599538147328" "e \<le> p"
    by (simp_all add: page_ok_def)
  from assms have "unat (p mod PAGE_SIZE) = 0" by (simp add: page_ok_def)
  then show "2097152 dvd unat p" by (simp add: unat_mod mod_eq_0_iff_dvd)
qed

text \<open>Distinct pages do not meet, and neither do accesses inside them.\<close>

lemma pages_apart:
  assumes "page_ok e p" "page_ok e q" "p \<noteq> q"
  shows "apart p 2097152 q 2097152"
proof -
  obtain a b where ab: "unat p = 2097152 * a" "unat q = 2097152 * b"
    using page_ok_bounds(3) [OF assms(1)] page_ok_bounds(3) [OF assms(2)] by (auto elim!: dvdE)
  with assms(3) have "a < b \<or> b < a"
    by (metis linorder_neqE_nat word_unat_eq_iff)
  then have "unat p + 2097152 \<le> unat q \<or> unat q + 2097152 \<le> unat p"
    unfolding ab by linarith
  with page_ok_bounds(2) [OF assms(1)] page_ok_bounds(2) [OF assms(2)] show ?thesis
    by (auto simp: apart_def)
qed

lemma apart_within:
  assumes "apart p n q k" "i + n' \<le> n" "j + k' \<le> k" "0 < n'" "0 < k'"
  shows "apart (p + of_nat i) n' (q + of_nat j) k'"
proof -
  have "unat (p + of_nat i) = unat p + i" "unat (q + of_nat j) = unat q + j"
    using assms by (auto simp: word_arith apart_def)
  with assms show ?thesis by (auto simp: apart_def)
qed

section \<open>The free list\<close>

primrec free_list :: "memory \<Rightarrow> u64 \<Rightarrow> u64 list \<Rightarrow> bool" where
  "free_list m p [] \<longleftrightarrow> p = 0"
| "free_list m p (q # qs) \<longleftrightarrow> p = q \<and> q \<noteq> 0 \<and> free_list m (ld64 m q) qs"

definition heap_inv :: "'a heap_scheme \<Rightarrow> u64 list \<Rightarrow> bool" where
  "heap_inv s ps \<longleftrightarrow> free_list (mem s) (free_memory s) ps \<and> distinct ps
     \<and> (\<forall>p \<in> set ps. page_ok (kernel_end s) p)"

lemma free_list_cong:
  "(\<And>p. p \<in> set ps \<Longrightarrow> ld64 m' p = ld64 m p) \<Longrightarrow> free_list m' q ps = free_list m q ps"
  by (induction ps arbitrary: q) auto

lemma free_list_unique: "free_list m p ps \<Longrightarrow> free_list m p qs \<Longrightarrow> ps = qs"
proof (induction ps arbitrary: p qs)
  case Nil
  then show ?case by (cases qs) auto
next
  case (Cons a ps)
  then show ?case by (cases qs) auto
qed

text \<open>Only the first word of each free page matters to the invariant.\<close>

lemma heap_inv_mem:
  assumes "heap_inv s ps" "\<And>p. p \<in> set ps \<Longrightarrow> ld64 m p = ld64 (mem s) p"
  shows "heap_inv (s\<lparr>mem := m\<rparr>) ps"
  using assms free_list_cong [of ps m "mem s" "free_memory s"] by (simp add: heap_inv_def)

lemma kalloc_Nil: "heap_inv s [] \<Longrightarrow> kalloc s = Inr (0, s)"
  by (simp add: heap_inv_def kalloc_def)

lemma page_ok_asserts:
  assumes "page_ok e p"
  shows "p mod PAGE_SIZE = 0" "e \<le> p" "p + PAGE_SIZE \<le> HEAP_MEMORY_END"
proof -
  show "p mod PAGE_SIZE = 0" "e \<le> p" using assms by (simp_all add: page_ok_def)
  have "unat (p + PAGE_SIZE) = unat p + 2097152"
    using page_ok_bounds(2) [OF assms] by (simp add: word_arith)
  then show "p + PAGE_SIZE \<le> HEAP_MEMORY_END"
    using page_ok_bounds(2) [OF assms] by (simp add: word_le_nat_alt)
qed

lemma kalloc_Cons:
  assumes "heap_inv s (p # ps)"
  shows "kalloc s = Inr (p, s\<lparr>free_memory := ld64 (mem s) p\<rparr>)"
    and "heap_inv (s\<lparr>free_memory := ld64 (mem s) p\<rparr>) ps"
  using assms page_ok_asserts [of "kernel_end s" p] page_ok_bounds(4) [of "kernel_end s" p]
  by (auto simp: heap_inv_def kalloc_def)

lemma kfree_page:
  assumes "heap_inv s ps" "page_ok (kernel_end s) p" "p \<notin> set ps"
  shows "kfree p s = Inr ((), s\<lparr>mem := st64 (mem s) p (free_memory s), free_memory := p\<rparr>)"
    and "heap_inv (s\<lparr>mem := st64 (mem s) p (free_memory s), free_memory := p\<rparr>) (p # ps)"
proof -
  show "kfree p s = Inr ((), s\<lparr>mem := st64 (mem s) p (free_memory s), free_memory := p\<rparr>)"
    using page_ok_asserts [OF assms(2)] by (simp add: kfree_def)
  have "ld64 (st64 (mem s) p (free_memory s)) q = ld64 (mem s) q" if "q \<in> set ps" for q
  proof (rule rd_wr_apart)
    have "page_ok (kernel_end s) q" "q \<noteq> p" using assms that by (auto simp: heap_inv_def)
    then show "apart q 8 p 8"
      using apart_within [OF pages_apart, of _ q p 0 8 0 8] assms(2) by simp
  qed
  then have "free_list (st64 (mem s) p (free_memory s)) (free_memory s) ps
      \<longleftrightarrow> free_list (mem s) (free_memory s) ps"
    by (rule free_list_cong)
  then show "heap_inv (s\<lparr>mem := st64 (mem s) p (free_memory s), free_memory := p\<rparr>) (p # ps)"
    using assms page_ok_bounds(4) [OF assms(2)] by (simp add: heap_inv_def)
qed

lemma round_up: "n \<le> (n + d) div Suc d * Suc d" "(n + d) div Suc d * Suc d < n + Suc d"
  using div_mult_mod_eq [of "n + d" "Suc d"] mod_less_divisor [of "Suc d" "n + d"] by linarith+

section \<open>Boot: the free list after init_memory\<close>

lemma unat_align: "unat (push_bit k (drop_bit k (x::u64))) = unat x div 2 ^ k * 2 ^ k"
proof -
  have "unat x div 2 ^ k * 2 ^ k < 2 ^ 64"
    using le_less_trans [OF div_times_less_eq_dividend [of "unat x" "2 ^ k"] unat_u64_less [of x]]
    by simp
  moreover have "unat (push_bit k (drop_bit k x)) = take_bit 64 (push_bit k (drop_bit k (unat x)))"
    by (simp add: unsigned_push_bit_eq unsigned_drop_bit_eq take_bit_nat_eq_self unat_u64_less)
  ultimately show ?thesis
    by (simp add: drop_bit_eq_div push_bit_eq_mult take_bit_nat_eq_self)
qed

lemma unat_PA_DOWN: "unat (PA_DOWN v) = unat v div 2097152 * 2097152"
  by (simp add: PA_DOWN_def unat_align)

lemma unat_PA_UP:
  "unat v + 2097151 < 2 ^ 64 \<Longrightarrow> unat (PA_UP v) = (unat v + 2097151) div 2097152 * 2097152"
  using unat_add_small [of v 2097151] by (simp add: PA_UP_def unat_align PAGE_SIZE_def add.commute [of v])

text \<open>The pages from \<open>start\<close> on, in the order in which pushing leaves them.\<close>

primrec region_pages :: "nat \<Rightarrow> u64 \<Rightarrow> u64 list" where
  "region_pages 0 start = []"
| "region_pages (Suc n) start = region_pages n (start + PAGE_SIZE) @ [start]"

lemma set_region_pages:
  "set (region_pages n start) = (\<lambda>i. start + of_nat i * PAGE_SIZE) ` {..<n}"
proof (induction n arbitrary: start)
  case 0
  show ?case by simp
next
  case (Suc n)
  then show ?case
    by (auto simp: lessThan_Suc_eq_insert_0 algebra_simps image_iff)
qed

lemma length_region_pages [simp]: "length (region_pages n start) = n"
  by (induction n arbitrary: start) auto

text \<open>Only the heap fields change, and no byte from the end of the heap on.\<close>

definition heap_only :: "'a heap_scheme \<Rightarrow> 'a heap_scheme \<Rightarrow> bool" where
  "heap_only s s' \<longleftrightarrow> s' = s\<lparr>mem := mem s', free_memory := free_memory s'\<rparr>
     \<and> (\<forall>x. HEAP_MEMORY_END \<le> x \<longrightarrow> mem s' x = mem s x)"

lemma heap_only_refl [simp]: "heap_only s s"
  by (simp add: heap_only_def)

lemma heap_only_kernel_end: "heap_only s s' \<Longrightarrow> kernel_end s' = kernel_end s"
  unfolding heap_only_def by (metis ext_inject surjective update_convs(1) update_convs(2))

lemma heap_only_trans: "heap_only s s' \<Longrightarrow> heap_only s' s'' \<Longrightarrow> heap_only s s''"
  by (cases s; cases s'; cases s''; simp add: heap_only_def)

lemma heap_only_kfree:
  assumes "page_ok e p"
  shows "heap_only s (s\<lparr>mem := st64 (mem s) p v, free_memory := f\<rparr>)"
proof -
  have "st64 (mem s) p v x = mem s x" if "HEAP_MEMORY_END \<le> x" for x
  proof (rule wr_other)
    fix i :: nat assume "i < 8"
    then have "unat (p + of_nat i) < unat x"
      using page_ok_bounds(2) [OF assms] that by (subst unat_offset) (simp_all add: word_le_nat_alt)
    then show "x \<noteq> p + of_nat i" by auto
  qed
  then show ?thesis by (simp add: heap_only_def)
qed

lemma free_region_loop_heap:
  assumes "heap_inv s ps" "KERNEL_BASE \<le> kernel_end s" "kernel_end s \<le> start"
    "unat start + 2097152 * n = unat HEAP_MEMORY_END"
    "\<forall>p \<in> set ps. unat p < unat start"
  shows "\<exists>s'. free_region_loop start HEAP_MEMORY_END s = Some (Inr ((), s'))
     \<and> heap_inv s' (region_pages n start @ ps) \<and> heap_only s s'"
  using assms
proof (induction n arbitrary: start s ps)
  case 0
  then have "unat (start + PAGE_SIZE) = unat HEAP_MEMORY_END + 2097152"
    by (subst unat_add_small) simp_all
  then have "\<not> start + PAGE_SIZE \<le> HEAP_MEMORY_END"
    by (simp add: word_le_nat_alt)
  with 0 show ?case by (simp add: free_region_loop.simps)
next
  case (Suc n)
  have "unat start = unat HEAP_MEMORY_END - 2097152 * Suc n"
    using Suc.prems(4) by linarith
  then have "2097152 dvd unat start"
    using Suc.prems(4) by (simp add: dvd_diff_nat)
  with Suc.prems have ok: "page_ok (kernel_end s) start"
    by (auto simp: page_ok_def word_unat_eq_iff unat_mod)
  then have step: "start + PAGE_SIZE \<le> HEAP_MEMORY_END" "unat (start + PAGE_SIZE) = unat start + 2097152"
    using page_ok_asserts page_ok_bounds(2) [OF ok] by (auto simp: word_arith)
  let ?s = "s\<lparr>mem := st64 (mem s) start (free_memory s), free_memory := start\<rparr>"
  have "start \<notin> set ps" using Suc.prems(5) by auto
  note free = kfree_page [OF Suc.prems(1) ok this]
  have "\<exists>s'. free_region_loop (start + PAGE_SIZE) HEAP_MEMORY_END ?s = Some (Inr ((), s'))
     \<and> heap_inv s' (region_pages n (start + PAGE_SIZE) @ start # ps) \<and> heap_only ?s s'"
    using Suc.prems step free by (intro Suc.IH) (auto simp: word_le_nat_alt)
  with free step heap_only_trans [OF heap_only_kfree [OF ok]] show ?case
    by (subst free_region_loop.simps) auto
qed

text \<open>
  From the empty list that the kernel boots with, \<open>init_memory\<close> frees each heap page above
  the kernel image, and nothing else.
\<close>

lemma init_memory_heap:
  assumes "heap_inv s []" "KERNEL_BASE \<le> kernel_end s" "kernel_end s \<le> HEAP_MEMORY_END"
  shows "\<exists>s' ps. init_memory s = Inr ((), s') \<and> heap_inv s' ps \<and> heap_only s s'
     \<and> set ps = {p. page_ok (kernel_end s) p}"
proof -
  let ?e = "kernel_end s"
  have e: "unat ?e \<le> 18446462599538147328" "18446462598732840960 \<le> unat ?e"
    using assms by (simp_all add: word_le_nat_alt)
  then have up: "unat (PA_UP ?e) = (unat ?e + 2097151) div 2097152 * 2097152"
    by (simp add: unat_PA_UP)
  define n where "n = (unat HEAP_MEMORY_END - unat (PA_UP ?e)) div 2097152"
  have le: "unat ?e \<le> unat (PA_UP ?e)" "unat (PA_UP ?e) < unat ?e + 2097152"
    using round_up [of "unat ?e" 2097151] unfolding up by simp_all
  have "(unat ?e + 2097151) div 2097152 \<le> (18446462599538147328 + 2097151) div 2097152"
    using e(1) by (intro div_le_mono) simp
  then have "unat (PA_UP ?e) \<le> unat HEAP_MEMORY_END"
    unfolding up by simp
  moreover have "2097152 dvd unat (PA_UP ?e)" "2097152 dvd unat HEAP_MEMORY_END"
    unfolding up by simp_all
  ultimately have n: "unat (PA_UP ?e) + 2097152 * n = unat HEAP_MEMORY_END"
    unfolding n_def by (simp add: dvd_diff_nat)
  obtain s' where s': "free_region_loop (PA_UP ?e) HEAP_MEMORY_END s = Some (Inr ((), s'))"
    "heap_inv s' (region_pages n (PA_UP ?e))" "heap_only s s'"
    using free_region_loop_heap [OF assms(1,2) _ n] le(1) by (auto simp: word_le_nat_alt)
  have "p \<in> set (region_pages n (PA_UP ?e))" if ok: "page_ok ?e p" for p
  proof -
    have "unat (PA_UP ?e) \<le> unat p" "2097152 dvd unat p - unat (PA_UP ?e)"
    proof -
      have p: "2097152 dvd unat p" "unat ?e \<le> unat p"
        using page_ok_bounds [OF ok] by (simp_all add: word_le_nat_alt)
      from p(1) obtain k where k: "unat p = 2097152 * k" ..
      have "(unat ?e + 2097151) div 2097152 \<le> k" using p(2) unfolding k by linarith
      then show "unat (PA_UP ?e) \<le> unat p" unfolding up k by simp
      show "2097152 dvd unat p - unat (PA_UP ?e)"
        using p(1) unfolding up by (simp add: dvd_diff_nat)
    qed
    then obtain i where i: "unat p = unat (PA_UP ?e) + 2097152 * i"
      by (metis dvdE le_add_diff_inverse)
    moreover have "i < n" using page_ok_bounds(2) [OF ok] n i by simp
    moreover have "p = PA_UP ?e + of_nat i * PAGE_SIZE"
      unfolding word_unat_eq_iff PAGE_SIZE_def using i n \<open>i < n\<close>
      by (simp add: unat_word_ariths unat_of_nat)
    ultimately show ?thesis by (auto simp: set_region_pages)
  qed
  then have "set (region_pages n (PA_UP ?e)) = {p. page_ok ?e p}"
    using s'(2) heap_only_kernel_end [OF s'(3)] by (auto simp: heap_inv_def)
  then show ?thesis
    using s' by (auto simp: init_memory_def free_region_def)
qed

section \<open>checkmm counts the free pages\<close>

lemma checkmm_loop_free_list:
  "free_list m v ps \<Longrightarrow> \<exists>out'. length out' = length ps \<and> map snd out' = ps \<and>
     checkmm_loop m v n i out = Some (out @ out', n + of_nat (length ps) * PAGE_SIZE)"
proof (induction ps arbitrary: v n i out)
  case Nil
  then show ?case by (simp add: checkmm_loop.simps)
next
  case (Cons p ps)
  then obtain out' where "length out' = length ps" "map snd out' = ps"
    "checkmm_loop m (ld64 m p) (n + PAGE_SIZE) (i + 1) (out @ [(i, p)])
     = Some ((out @ [(i, p)]) @ out', n + PAGE_SIZE + of_nat (length ps) * PAGE_SIZE)"
    by (metis free_list.simps(2))
  with Cons.prems show ?case
    by (intro exI [of _ "(i, p) # out'"])
      (simp add: checkmm_loop.simps [of m p] algebra_simps)
qed

lemma heap_inv_length: "heap_inv s ps \<Longrightarrow> length ps \<le> 384"
proof -
  assume inv: "heap_inv s ps"
  let ?f = "\<lambda>p. unat p div 2097152"
  have "inj_on ?f (set ps)"
  proof (rule inj_onI)
    fix p q assume "p \<in> set ps" "q \<in> set ps" and eq: "?f p = ?f q"
    with inv have "2097152 dvd unat p" "2097152 dvd unat q"
      by (auto simp: heap_inv_def intro: page_ok_bounds)
    with eq show "p = q" by (metis dvd_div_mult_self word_unat_eq_iff)
  qed
  moreover have "?f ` set ps \<subseteq> {8795958804480..<8795958804864}"
  proof
    fix y assume "y \<in> ?f ` set ps"
    then obtain p where p: "p \<in> set ps" "y = ?f p" by auto
    with inv have "page_ok (kernel_end s) p" by (simp add: heap_inv_def)
    from page_ok_bounds(1,2) [OF this] p(2) show "y \<in> {8795958804480..<8795958804864}"
      by (simp add: less_mult_imp_div_less div_le_mono [of 18446462598732840960 _ 2097152, simplified])
  qed
  ultimately have "card (set ps) \<le> 384"
    using card_mono [of "{8795958804480..<8795958804864::nat}" "?f ` set ps"]
    by (simp add: card_image)
  with inv show ?thesis by (simp add: heap_inv_def distinct_card)
qed

lemma checkmm_heap:
  assumes "heap_inv s ps"
  shows "\<exists>out. checkmm s = Some (out, 2 * of_nat (length ps)) \<and> map snd out = ps"
proof -
  have len: "length ps \<le> 384" by (rule heap_inv_length [OF assms])
  obtain out where out: "map snd out = ps"
    "checkmm_loop (mem s) (free_memory s) 0 0 [] = Some (out, of_nat (length ps) * PAGE_SIZE)"
    using assms checkmm_loop_free_list [of "mem s" "free_memory s" ps 0 0 "[]"]
    by (auto simp: heap_inv_def)
  have "unat (of_nat (length ps) * PAGE_SIZE) = length ps * 2097152"
    using len by (simp add: unat_word_ariths unat_of_nat PAGE_SIZE_def)
  then have "(of_nat (length ps) * PAGE_SIZE) div 1024 div 1024 = (2 * of_nat (length ps) :: u64)"
    using len by (simp add: word_unat_eq_iff unat_div unat_word_ariths unat_of_nat)
  with out show ?thesis by (auto simp: checkmm_def)
qed

section \<open>The allocator as its clients see it\<close>

text \<open>Runs of allocations and of releases, for any pair of operations.\<close>

primrec alloc_many :: "('s \<Rightarrow> (u64, 's) outcome) \<Rightarrow> nat \<Rightarrow> 's \<Rightarrow> (u64 list, 's) outcome" where
  "alloc_many f 0 s = Inr ([], s)"
| "alloc_many f (Suc n) s =
     kbind (f s) (\<lambda>p s. kbind (alloc_many f n s) (\<lambda>ps s. Inr (p # ps, s)))"

primrec release_all :: "(u64 \<Rightarrow> 's \<Rightarrow> (unit, 's) outcome) \<Rightarrow> u64 list \<Rightarrow> 's \<Rightarrow> (unit, 's) outcome" where
  "release_all f [] s = Inr ((), s)"
| "release_all f (p # ps) s = kbind (f p s) (\<lambda>_. release_all f ps)"

text \<open>
  \<open>pages s ps\<close> says that the free pages of \<open>s\<close> are \<open>ps\<close>, next one first, and
  \<open>usable s p\<close> that \<open>p\<close> is a page the allocator may be given back.
\<close>

locale page_allocator =
  fixes alloc :: "'s \<Rightarrow> (u64, 's) outcome"
    and release :: "u64 \<Rightarrow> 's \<Rightarrow> (unit, 's) outcome"
    and pages :: "'s \<Rightarrow> u64 list \<Rightarrow> bool"
    and usable :: "'s \<Rightarrow> u64 \<Rightarrow> bool"
  assumes alloc_empty: "pages s [] \<Longrightarrow> alloc s = Inr (0, s)"
    and alloc_page: "pages s (p # ps) \<Longrightarrow>
      \<exists>s'. alloc s = Inr (p, s') \<and> pages s' ps \<and> usable s' = usable s"
    and release_page: "pages s ps \<Longrightarrow> usable s p \<Longrightarrow> p \<notin> set ps \<Longrightarrow>
      \<exists>s'. release p s = Inr ((), s') \<and> pages s' (p # ps) \<and> usable s' = usable s"
    and pages_distinct: "pages s ps \<Longrightarrow> distinct ps"
    and pages_usable: "pages s ps \<Longrightarrow> p \<in> set ps \<Longrightarrow> usable s p"
    and usable_nonnull: "usable s p \<Longrightarrow> p \<noteq> 0"
begin

lemma alloc_many_pages:
  "pages s (qs @ ps) \<Longrightarrow>
     \<exists>s'. alloc_many alloc (length qs) s = Inr (qs, s') \<and> pages s' ps \<and> usable s' = usable s"
proof (induction qs arbitrary: s)
  case Nil
  then show ?case by simp
next
  case (Cons q qs)
  then obtain s1 where s1: "alloc s = Inr (q, s1)" "pages s1 (qs @ ps)" "usable s1 = usable s"
    using alloc_page [of s q "qs @ ps"] by auto
  with Cons.IH [OF s1(2)] show ?case by auto
qed

lemma release_all_pages:
  "pages s ps \<Longrightarrow> \<forall>q \<in> set qs. usable s q \<Longrightarrow> distinct qs \<Longrightarrow> set qs \<inter> set ps = {} \<Longrightarrow>
     \<exists>s'. release_all release qs s = Inr ((), s') \<and> pages s' (rev qs @ ps) \<and> usable s' = usable s"
proof (induction qs arbitrary: s ps)
  case Nil
  then show ?case by simp
next
  case (Cons q qs)
  then obtain s1 where s1: "release q s = Inr ((), s1)" "pages s1 (q # ps)" "usable s1 = usable s"
    using release_page [of s ps q] by auto
  have "\<exists>s'. release_all release qs s1 = Inr ((), s') \<and> pages s' (rev qs @ q # ps) \<and> usable s' = usable s1"
    using Cons.prems s1 by (intro Cons.IH) auto
  with s1 show ?case by auto
qed

text \<open>Pages allocated together are distinct, non-null and no longer free.\<close>

lemma alloc_many_fresh:
  assumes "pages s (qs @ ps)" "alloc_many alloc (length qs) s = Inr (rs, s')"
  shows "distinct rs \<and> 0 \<notin> set rs \<and> (\<exists>ps'. pages s' ps' \<and> set rs \<inter> set ps' = {})"
  using alloc_many_pages [OF assms(1)] assms(2) pages_distinct [OF assms(1)]
    pages_usable [OF assms(1)] usable_nonnull by fastforce

text \<open>Giving back what was taken restores the set of free pages, in any order.\<close>

lemma release_restores:
  assumes "pages s (qs @ ps)" "alloc_many alloc (length qs) s = Inr (qs, s')" "distinct rs" "set rs = set qs"
  shows "\<exists>s'' ps''. release_all release rs s' = Inr ((), s'') \<and> pages s'' ps''
     \<and> set ps'' = set (qs @ ps) \<and> distinct ps''"
proof -
  obtain s1 where "alloc_many alloc (length qs) s = Inr (qs, s1)" "pages s1 ps" "usable s1 = usable s"
    using alloc_many_pages [OF assms(1)] by auto
  with assms(2) have s': "pages s' ps" "usable s' = usable s" by auto
  have "\<forall>q \<in> set rs. usable s' q" using pages_usable [OF assms(1)] assms(4) s'(2) by auto
  moreover have "set rs \<inter> set ps = {}" using pages_distinct [OF assms(1)] assms(4) by auto
  ultimately obtain s'' where s'': "release_all release rs s' = Inr ((), s'')" "pages s'' (rev rs @ ps)"
    using release_all_pages [OF s'(1) _ assms(3)] by auto
  with pages_distinct [OF s''(2)] assms(4) show ?thesis
    by (intro exI [of _ s''] exI [of _ "rev rs @ ps"]) auto
qed

end

interpretation kheap: page_allocator kalloc kfree heap_inv "\<lambda>s. page_ok (kernel_end s)"
proof unfold_locales
  fix s :: "'a heap_scheme" and p ps
  show "heap_inv s [] \<Longrightarrow> kalloc s = Inr (0, s)" by (rule kalloc_Nil)
  show "heap_inv s (p # ps) \<Longrightarrow> \<exists>s'. kalloc s = Inr (p, s') \<and> heap_inv s' ps
      \<and> page_ok (kernel_end s') = page_ok (kernel_end s)"
    using kalloc_Cons [of s p ps]
    by (intro exI [of _ "s\<lparr>free_memory := ld64 (mem s) p\<rparr>"]) simp
  show "heap_inv s ps \<Longrightarrow> page_ok (kernel_end s) p \<Longrightarrow> p \<notin> set ps \<Longrightarrow>
      \<exists>s'. kfree p s = Inr ((), s') \<and> heap_inv s' (p # ps)
      \<and> page_ok (kernel_end s') = page_ok (kernel_end s)"
    using kfree_page [of s ps p]
    by (intro exI [of _ "s\<lparr>mem := st64 (mem s) p (free_memory s), free_memory := p\<rparr>"]) simp
  show "heap_inv s ps \<Longrightarrow> distinct ps" "heap_inv s ps \<Longrightarrow> p \<in> set ps \<Longrightarrow> page_ok (kernel_end s) p"
    by (simp_all add: heap_inv_def)
  show "page_ok (kernel_end s) p \<Longrightarrow> p \<noteq> 0" by (rule page_ok_bounds)
qed

text \<open>Any set of pages can be the free ones: free them one by one from an empty heap.\<close>

lemma heap_with_pages:
  assumes "distinct ps" "\<forall>p \<in> set ps. page_ok e p"
  shows "\<exists>s. heap_inv s ps \<and> kernel_end s = e \<and> heap.more s = z"
proof -
  have "\<exists>s. heap_inv s ps \<and> kernel_end s = e \<and> heap.more s = z"
    using assms
  proof (induction ps)
    case Nil
    show ?case
      by (intro exI [of _ "\<lparr>mem = (\<lambda>_. 0), free_memory = 0, kernel_end = e, \<dots> = z\<rparr>"])
        (simp add: heap_inv_def)
  next
    case (Cons p ps)
    then obtain s where s: "heap_inv s ps" "kernel_end s = e" "heap.more s = z" by auto
    have "heap_inv (s\<lparr>mem := st64 (mem s) p (free_memory s), free_memory := p\<rparr>) (p # ps)"
      using Cons.prems s(2) by (intro kfree_page [OF s(1)]) simp_all
    with s(2,3) show ?case
      by (intro exI [of _ "s\<lparr>mem := st64 (mem s) p (free_memory s), free_memory := p\<rparr>"]) simp
  qed
  then show ?thesis .
qed

section \<open>Properties\<close>

text \<open>
  From the empty free list of a kernel whose image ends inside the heap area,
  \<open>init_memory\<close> returns, and afterwards the free list holds every 2MB page of the heap
  above the image exactly once and nothing else; \<open>checkmm\<close> then prints those pages and
  two MB for each of them.
\<close>

theorem init_memory_frees_whole_heap:
  assumes "free_memory s = 0" "KERNEL_BASE \<le> kernel_end s" "kernel_end s \<le> HEAP_MEMORY_END"
  shows "\<exists>s' ps out. init_memory s = Inr ((), s') \<and> free_list (mem s') (free_memory s') ps
     \<and> distinct ps \<and> set ps = {p. page_ok (kernel_end s) p}
     \<and> checkmm s' = Some (out, 2 * of_nat (length ps)) \<and> map snd out = ps"
proof -
  have "heap_inv s []" using assms(1) by (simp add: heap_inv_def)
  then obtain s' ps where "init_memory s = Inr ((), s')" "heap_inv s' ps"
    "set ps = {p. page_ok (kernel_end s) p}"
    using init_memory_heap assms(2,3) by blast
  with checkmm_heap [of s' ps] show ?thesis by (auto simp: heap_inv_def)
qed

text \<open>A heap of two pages, used to exercise the properties.\<close>

definition two_page_heap :: heap where
  "two_page_heap = \<lparr>mem = (\<lambda>_. 0), free_memory = 0, kernel_end = 0xffff00002fbff000\<rparr>"

lemma init_memory_frees_whole_heap_witness:
  "\<exists>s' ps out. init_memory two_page_heap = Inr ((), s')
     \<and> free_list (mem s') (free_memory s') ps \<and> distinct ps
     \<and> set ps = {p. page_ok 0xffff00002fbff000 p}
     \<and> checkmm s' = Some (out, 2 * of_nat (length ps)) \<and> map snd out = ps"
  using init_memory_frees_whole_heap [of two_page_heap]
  by (simp add: two_page_heap_def addr_defs)

text \<open>
  Property C14: on a heap whose free pages are \<open>ps\<close>, \<open>kalloc\<close> and \<open>kfree\<close> are pop and push
  of the abstract stack \<open>ps\<close>: no assertion fires, the invariant is kept, \<open>kalloc\<close> of an
  empty heap returns \<open>NULL\<close> and changes nothing.
\<close>

theorem kalloc_kfree_refine_stack:
  assumes "heap_inv s ps"
  shows "(case ps of [] \<Rightarrow> kalloc s = Inr (0, s)
          | p # qs \<Rightarrow> \<exists>s'. kalloc s = Inr (p, s') \<and> heap_inv s' qs \<and> mem s' = mem s)
     \<and> (\<forall>p. page_ok (kernel_end s) p \<and> p \<notin> set ps \<longrightarrow>
          (\<exists>s'. kfree p s = Inr ((), s') \<and> heap_inv s' (p # ps)))"
proof (intro conjI allI impI)
  show "case ps of [] \<Rightarrow> kalloc s = Inr (0, s)
     | p # qs \<Rightarrow> \<exists>s'. kalloc s = Inr (p, s') \<and> heap_inv s' qs \<and> mem s' = mem s"
    using assms kalloc_Nil kalloc_Cons by (cases ps) fastforce+
  fix p assume "page_ok (kernel_end s) p \<and> p \<notin> set ps"
  then show "\<exists>s'. kfree p s = Inr ((), s') \<and> heap_inv s' (p # ps)"
    using assms kheap.release_page by blast
qed

lemma kalloc_kfree_refine_stack_witness:
  "(\<exists>s'. kfree 0xffff00002fc00000 two_page_heap = Inr ((), s') \<and> heap_inv s' [0xffff00002fc00000])
   \<and> kalloc two_page_heap = Inr (0, two_page_heap)"
proof -
  have "heap_inv two_page_heap []" by (simp add: heap_inv_def two_page_heap_def)
  moreover have "page_ok (kernel_end two_page_heap) 0xffff00002fc00000"
    by (simp add: page_ok_def two_page_heap_def addr_defs)
  ultimately show ?thesis using kalloc_kfree_refine_stack [of two_page_heap "[]"] by simp
qed

text \<open>
  Pages allocated one after the other are pairwise distinct and not null, and
  giving them back in any order leaves exactly the original set of free pages.
\<close>

theorem kalloc_kfree_conserve_pages:
  assumes "heap_inv s (qs @ ps)"
  shows "\<exists>s'. alloc_many kalloc (length qs) s = Inr (qs, s') \<and> distinct qs \<and> 0 \<notin> set qs
     \<and> (\<forall>rs. distinct rs \<and> set rs = set qs \<longrightarrow>
          (\<exists>s'' ps''. release_all kfree rs s' = Inr ((), s'') \<and> heap_inv s'' ps''
             \<and> set ps'' = set (qs @ ps) \<and> distinct ps''))"
proof -
  obtain s' where s': "alloc_many kalloc (length qs) s = Inr (qs, s')" "heap_inv s' ps"
    using kheap.alloc_many_pages [OF assms] by auto
  have "distinct qs \<and> 0 \<notin> set qs"
    using kheap.alloc_many_fresh [OF assms s'(1)] by simp
  with s'(1) kheap.release_restores [OF assms s'(1)] show ?thesis
    by (intro exI [of _ s']) auto
qed

lemma kalloc_kfree_conserve_pages_witness:
  "\<exists>s ps. kfree 0xffff00002fc00000 two_page_heap = Inr ((), s) \<and>
     (\<exists>s'. alloc_many kalloc (length [0xffff00002fc00000]) s = Inr ([0xffff00002fc00000], s') \<and>
       (\<exists>s'' ps''. release_all kfree [0xffff00002fc00000] s' = Inr ((), s'')
          \<and> heap_inv s'' ps'' \<and> set ps'' = {0xffff00002fc00000}))"
proof -
  have "heap_inv two_page_heap []" by (simp add: heap_inv_def two_page_heap_def)
  moreover have "page_ok (kernel_end two_page_heap) 0xffff00002fc00000"
    by (simp add: page_ok_def two_page_heap_def addr_defs)
  ultimately obtain s where s: "kfree 0xffff00002fc00000 two_page_heap = Inr ((), s)"
    "heap_inv s ([0xffff00002fc00000] @ [])"
    using kheap.release_page [of two_page_heap "[]"] by auto
  show ?thesis
    using s(1) kalloc_kfree_conserve_pages [OF s(2)] by fastforce
qed

text \<open>
  \<open>kfree\<close> stops at an assertion for every address that is not 2MB aligned,
  lies below the end of the kernel image, or whose page runs past the end of the heap
  without wrapping around; in all other cases it returns.
\<close>

theorem kfree_rejects_bad_pages:
  "kfree v s = Inl Assert_failed \<longleftrightarrow>
     0 < unat v mod 2097152 \<or> v < kernel_end s
     \<or> unat HEAP_MEMORY_END < (unat v + 2097152) mod 2 ^ 64"
proof -
  have "v mod PAGE_SIZE \<noteq> 0 \<longleftrightarrow> 0 < unat v mod 2097152"
    by (simp add: word_unat_eq_iff unat_mod)
  moreover have "v + PAGE_SIZE \<le> HEAP_MEMORY_END \<longleftrightarrow>
      (unat v + 2097152) mod 2 ^ 64 \<le> unat HEAP_MEMORY_END"
    by (simp add: word_le_nat_alt unat_word_ariths)
  ultimately show ?thesis by (auto simp: kfree_def not_le)
qed

end
