(* ===== verification/Paging.thy ===== *)
theory Paging
  imports Heap
begin

text \<open>
  The three-level translation tables of utils/memory.c: \<open>find_pgd_entry\<close>,
  \<open>find_pud_entry\<close>, \<open>map_page\<close>, \<open>free_page\<close>, \<open>free_pmd\<close>, \<open>free_pud\<close>, \<open>free_pgd\<close> and
  \<open>free_vm\<close>, on byte memory. An address space is described by the map from table
  positions (root, upper table \<open>i\<close>, middle table \<open>i j\<close>) to the pages that hold them;
  the invariant says that memory encodes exactly that tree, with no page used twice. The
  lemmas show what mapping adds, what stays, and that teardown returns every page.
\<close>

section \<open>Entries\<close>

definition PDE_ADDR :: "u64 \<Rightarrow> u64" where "PDE_ADDR p = p AND 0xfffffffff000"

definition PTE_ADDR :: "u64 \<Rightarrow> u64" where "PTE_ADDR p = p AND 0xffffffe00000"

definition ENTRY_V :: u64 where "ENTRY_V = push_bit 0 1"

definition TABLE_ENTRY :: u64 where "TABLE_ENTRY = push_bit 1 1"

definition BLOCK_ENTRY :: u64 where "BLOCK_ENTRY = push_bit 1 0"

definition ENTRY_ACCESSED :: u64 where "ENTRY_ACCESSED = push_bit 10 1"

definition NORMAL_MEMORY :: u64 where "NORMAL_MEMORY = push_bit 2 1"

definition USER :: u64 where "USER = push_bit 6 1"

lemmas entry_defs = PDE_ADDR_def PTE_ADDR_def ENTRY_V_def TABLE_ENTRY_def BLOCK_ENTRY_def
  ENTRY_ACCESSED_def NORMAL_MEMORY_def USER_def

text \<open>\<open>ptr[i]\<close> for a \<open>uint64_t *ptr\<close>, read and written.\<close>

definition entry :: "memory \<Rightarrow> u64 \<Rightarrow> nat \<Rightarrow> u64" where
  "entry m ptr i = ld64 m (ptr + of_nat (8 * i))"

definition set_entry :: "memory \<Rightarrow> u64 \<Rightarrow> nat \<Rightarrow> u64 \<Rightarrow> memory" where
  "set_entry m ptr i e = st64 m (ptr + of_nat (8 * i)) e"

definition pgd_index :: "u64 \<Rightarrow> nat" where "pgd_index v = unat (drop_bit 39 v AND 0x1ff)"

definition pud_index :: "u64 \<Rightarrow> nat" where "pud_index v = unat (drop_bit 30 v AND 0x1ff)"

definition pmd_index :: "u64 \<Rightarrow> nat" where "pmd_index v = unat (drop_bit 21 v AND 0x1ff)"

section \<open>Walking and extending the tables\<close>

text \<open>
  The code \<open>find_pgd_entry\<close> and \<open>find_pud_entry\<close> share: follow a valid entry, or, when
  asked to, allocate and clear a page and install it as the next table.
\<close>

definition next_table ::
    "u64 \<Rightarrow> nat \<Rightarrow> int \<Rightarrow> u64 \<Rightarrow> 'a heap_scheme \<Rightarrow> (u64, 'a heap_scheme) outcome" where
  "next_table ptr index alloc attribute s =
     (if entry (mem s) ptr index AND ENTRY_V \<noteq> 0 then
        Inr (P2V (PDE_ADDR (entry (mem s) ptr index)), s)
      else if alloc = 1 then
        kbind (kalloc s) (\<lambda>addr s.
          if addr \<noteq> 0 then
            (let s = s\<lparr>mem := memset (mem s) addr 0 (ucast PAGE_SIZE)\<rparr> in
             Inr (addr, s\<lparr>mem := set_entry (mem s) ptr index (V2P addr OR attribute OR TABLE_ENTRY)\<rparr>))
          else Inr (addr, s))
      else Inr (0, s))"

definition find_pgd_entry ::
    "u64 \<Rightarrow> u64 \<Rightarrow> int \<Rightarrow> u64 \<Rightarrow> 'a heap_scheme \<Rightarrow> (u64, 'a heap_scheme) outcome" where
  "find_pgd_entry pgd v alloc attribute s = next_table pgd (pgd_index v) alloc attribute s"

definition find_pud_entry ::
    "u64 \<Rightarrow> u64 \<Rightarrow> int \<Rightarrow> u64 \<Rightarrow> 'a heap_scheme \<Rightarrow> (u64, 'a heap_scheme) outcome" where
  "find_pud_entry pgd v alloc attribute s =
     kbind (find_pgd_entry pgd v alloc attribute s) (\<lambda>ptr s.
       if ptr = 0 then Inr (0, s) else next_table ptr (pud_index v) alloc attribute s)"

definition map_page ::
    "u64 \<Rightarrow> u64 \<Rightarrow> u64 \<Rightarrow> u64 \<Rightarrow> 'a heap_scheme \<Rightarrow> (bool, 'a heap_scheme) outcome" where
  "map_page pgd v pa attribute s =
     (let vstart = PA_DOWN v in
      if \<not> vstart + PAGE_SIZE < HEAP_MEMORY_END then Inl Assert_failed
      else if pa mod PAGE_SIZE \<noteq> 0 then Inl Assert_failed
      else if \<not> pa + PAGE_SIZE \<le> V2P HEAP_MEMORY_END then Inl Assert_failed
      else kbind (find_pud_entry pgd vstart 1 attribute s) (\<lambda>ptr s.
        if ptr = 0 then Inr (False, s)
        else let index = pmd_index vstart in
          if entry (mem s) ptr index AND ENTRY_V \<noteq> 0 then Inl Assert_failed
          else Inr (True, s\<lparr>mem := set_entry (mem s) ptr index (pa OR attribute OR BLOCK_ENTRY)\<rparr>)))"

section \<open>Teardown\<close>

definition free_page :: "u64 \<Rightarrow> u64 \<Rightarrow> 'a heap_scheme \<Rightarrow> (unit, 'a heap_scheme) outcome" where
  "free_page pgd vstart s =
     (if vstart mod PAGE_SIZE \<noteq> 0 then Inl Assert_failed
      else kbind (find_pud_entry pgd vstart 0 0 s) (\<lambda>ptr s.
        if ptr \<noteq> 0 then
          (let index = pmd_index vstart in
           if entry (mem s) ptr index AND ENTRY_V \<noteq> 0 then
             kbind (kfree (P2V (PTE_ADDR (entry (mem s) ptr index))) s) (\<lambda>_ s.
               Inr ((), s\<lparr>mem := set_entry (mem s) ptr index 0\<rparr>))
           else Inr ((), s))
        else Inr ((), s)))"

text \<open>
  Freeing the table that entry \<open>i\<close> of \<open>ptr\<close> points to and clearing the entry: the body
  of the loop of \<open>free_pud\<close> and of the inner loop of \<open>free_pmd\<close>.
\<close>

definition free_entry :: "u64 \<Rightarrow> nat \<Rightarrow> 'a heap_scheme \<Rightarrow> (unit, 'a heap_scheme) outcome" where
  "free_entry ptr i s =
     (if entry (mem s) ptr i AND ENTRY_V \<noteq> 0 then
        kbind (kfree (P2V (PDE_ADDR (entry (mem s) ptr i))) s) (\<lambda>_ s.
          Inr ((), s\<lparr>mem := set_entry (mem s) ptr i 0\<rparr>))
      else Inr ((), s))"

definition free_pmd :: "u64 \<Rightarrow> 'a heap_scheme \<Rightarrow> (unit, 'a heap_scheme) outcome" where
  "free_pmd pgd = for_each [0..<512] (\<lambda>i s.
     if entry (mem s) pgd i AND ENTRY_V \<noteq> 0 then
       (let pud = P2V (PDE_ADDR (entry (mem s) pgd i)) in
        for_each [0..<512] (\<lambda>j. free_entry pud j) s)
     else Inr ((), s))"

definition free_pud :: "u64 \<Rightarrow> 'a heap_scheme \<Rightarrow> (unit, 'a heap_scheme) outcome" where
  "free_pud pgd = for_each [0..<512] (\<lambda>i. free_entry pgd i)"

definition free_pgd :: "u64 \<Rightarrow> 'a heap_scheme \<Rightarrow> (unit, 'a heap_scheme) outcome" where
  "free_pgd pgd = kfree pgd"

definition free_vm :: "u64 \<Rightarrow> 'a heap_scheme \<Rightarrow> (unit, 'a heap_scheme) outcome" where
  "free_vm pgd s =
     kbind (free_page pgd 0x400000 s) (\<lambda>_ s.
     kbind (free_pmd pgd s) (\<lambda>_ s.
     kbind (free_pud pgd s) (\<lambda>_ s.
     free_pgd pgd s)))"

section \<open>Accesses to entries of heap pages\<close>

lemma entry_apart:
  assumes "page_ok e p" "page_ok e q" "i < 512" "j < 512" "p \<noteq> q \<or> i \<noteq> j"
  shows "apart (p + of_nat (8 * i)) 8 (q + of_nat (8 * j)) 8"
proof (cases "p = q")
  case False
  with assms show ?thesis by (intro apart_within [OF pages_apart]) auto
next
  case True
  have "unat (p + of_nat (8 * i)) = unat p + 8 * i" "unat (p + of_nat (8 * j)) = unat p + 8 * j"
    using assms page_ok_bounds(2) [OF assms(1)] by (auto simp: word_arith simp del: of_nat_mult)
  with assms True page_ok_bounds(2) [OF assms(1)] show ?thesis
    by (auto simp: apart_def simp del: of_nat_mult)
qed

lemma entry_set_entry:
  assumes "page_ok e p" "page_ok e q" "i < 512" "j < 512"
  shows "entry (set_entry m q j v) p i = (if p = q \<and> i = j then v else entry m p i)"
  using assms entry_apart [OF assms]
  by (auto simp: entry_def set_entry_def rd_wr_apart simp del: of_nat_mult)

text \<open>Any array of words, of less than 32GB.\<close>

lemma entry_st64:
  assumes "i < 2 ^ 32" "j < 2 ^ 32"
  shows "entry (st64 m (base + of_nat (8 * j)) v) base i = (if i = j then v else entry m base i)"
proof (cases "i = j")
  case False
  have "base + of_nat (8 * i) + of_nat k \<noteq> base + of_nat (8 * j) + of_nat l" if "k < 8" "l < 8" for k l
    using add_of_nat_neq [of "8 * i + k" "8 * j + l" base] that assms False by (auto simp: add.assoc)
  then show ?thesis using False by (simp add: entry_def rd_wr_other del: rd.simps wr.simps)
qed (simp add: entry_def del: rd.simps wr.simps)

lemma st64_set_entry: "st64 m p v = set_entry m p 0 v"
  by (simp add: set_entry_def)

lemma ld64_entry: "ld64 m p = entry m p 0"
  by (simp add: entry_def)

lemma entry_memset:
  assumes "page_ok e p" "page_ok e q" "i < 512"
  shows "entry (memset m q 0 (ucast PAGE_SIZE)) p i = (if p = q then 0 else entry m p i)"
proof (cases "p = q")
  case True
  have "in_range q 2097152 (q + of_nat (8 * i) + of_nat k)" if "k < 8" for k
  proof -
    have "q + of_nat (8 * i) + of_nat k = q + of_nat (8 * i + k)" by simp
    then show ?thesis
      using that assms(3)
      by (subst in_range_add) (auto intro!: exI [of _ "8 * i + k"] simp del: of_nat_add of_nat_mult)
  qed
  with True show ?thesis
    by (auto simp: entry_def memset_eq PAGE_SIZE_def intro!: rd_zero simp del: of_nat_mult)
next
  case False
  have "\<not> in_range q 2097152 (p + of_nat (8 * i) + of_nat k)" if "k < 8" for k
  proof
    assume "in_range q 2097152 (p + of_nat (8 * i) + of_nat k)"
    then obtain l where "l < 2097152" "p + of_nat (8 * i + k) = q + of_nat l"
      by (auto simp: in_range_add add.assoc)
    with apart_neq [OF pages_apart [OF assms(1,2) False], of "8 * i + k" l] that assms(3)
    show False by auto
  qed
  with False show ?thesis
    by (auto simp: entry_def memset_eq PAGE_SIZE_def intro!: rd_cong simp del: of_nat_mult)
qed

lemma heap_inv_set_entry:
  assumes "heap_inv s ps" "page_ok (kernel_end s) q" "q \<notin> set ps" "j < 512"
  shows "heap_inv (s\<lparr>mem := set_entry (mem s) q j v\<rparr>) ps"
  using assms
  by (intro heap_inv_mem) (auto simp: ld64_entry entry_set_entry heap_inv_def)

lemma heap_inv_memset:
  assumes "heap_inv s ps" "page_ok (kernel_end s) q" "q \<notin> set ps"
  shows "heap_inv (s\<lparr>mem := memset (mem s) q 0 (ucast PAGE_SIZE)\<rparr>) ps"
  using assms
  by (intro heap_inv_mem) (auto simp: ld64_entry entry_memset heap_inv_def)

section \<open>Physical addresses in entries\<close>

lemma P2V_V2P [simp]: "P2V (V2P p) = p"
  by (simp add: P2V_def V2P_def)

lemma V2P_P2V [simp]: "V2P (P2V p) = p"
  by (simp add: P2V_def V2P_def)

lemma V2P_bits:
  assumes "page_ok e p" "bit (V2P p) n"
  shows "21 \<le> n" "n < 48"
proof -
  have "KERNEL_BASE \<le> p"
    using page_ok_bounds(1) [OF assms(1)] by (simp add: word_le_nat_alt)
  then have u: "unat (V2P p) = unat p - 18446462598732840960"
    by (simp add: V2P_def unat_sub)
  have "2097152 dvd unat p" by (rule page_ok_bounds(3) [OF assms(1)])
  then have "2097152 dvd unat (V2P p)" unfolding u by (rule dvd_diff_nat) simp
  then have "unat (push_bit 21 (drop_bit 21 (V2P p))) = unat (V2P p)"
    by (simp add: unat_align)
  then have "push_bit 21 (drop_bit 21 (V2P p)) = V2P p" by (simp only: word_unat_eq_iff)
  then have "bit (push_bit 21 (drop_bit 21 (V2P p))) n" using assms(2) by simp
  then show "21 \<le> n" by (simp add: bit_simps)
  have "unat (V2P p) < 2 ^ 48"
    using page_ok_bounds(2) [OF assms(1)] unfolding u by simp
  then have "take_bit 48 (V2P p) = V2P p"
    by (simp add: word_unat_eq_iff unsigned_take_bit_eq take_bit_nat_eq_self)
  then have "bit (take_bit 48 (V2P p)) n" using assms(2) by simp
  then show "n < 48" by (simp add: bit_simps)
qed

lemma PDE_ADDR_bit: "bit (PDE_ADDR x) n \<longleftrightarrow> 12 \<le> n \<and> n < 48 \<and> bit x n"
proof -
  have "PDE_ADDR x = x AND push_bit 12 (mask 36)"
    by (simp add: PDE_ADDR_def mask_eq_exp_minus_1)
  then show ?thesis
    by (simp only: bit_and_iff bit_push_bit_iff bit_mask_iff) (auto dest: bit_imp_le_length)
qed

lemma PTE_ADDR_bit: "bit (PTE_ADDR x) n \<longleftrightarrow> 21 \<le> n \<and> n < 48 \<and> bit x n"
proof -
  have "PTE_ADDR x = x AND push_bit 21 (mask 27)"
    by (simp add: PTE_ADDR_def mask_eq_exp_minus_1)
  then show ?thesis
    by (simp only: bit_and_iff bit_push_bit_iff bit_mask_iff) (auto dest: bit_imp_le_length)
qed

lemma valid_bit: "x AND ENTRY_V \<noteq> 0 \<longleftrightarrow> bit x 0"
  by (simp add: ENTRY_V_def and_one_eq bit_0 odd_iff_mod_2_eq_one)

text \<open>Attribute words live below bit 12 and mark the entry valid.\<close>

definition attribute_ok :: "u64 \<Rightarrow> bool" where
  "attribute_ok a \<longleftrightarrow> PDE_ADDR a = 0 \<and> a AND ENTRY_V \<noteq> 0"

lemma PDE_ADDR_table:
  assumes "page_ok e p" "attribute_ok a"
  shows "PDE_ADDR (V2P p OR a OR TABLE_ENTRY) = V2P p"
proof (rule bit_word_eqI)
  fix n assume "n < LENGTH(64)"
  have a: "\<not> (12 \<le> n \<and> n < 48 \<and> bit a n)"
    using assms(2) PDE_ADDR_bit [of a n] by (simp add: attribute_ok_def)
  then show "bit (PDE_ADDR (V2P p OR a OR TABLE_ENTRY)) n \<longleftrightarrow> bit (V2P p) n"
    using V2P_bits [OF assms(1), of n] by (auto simp: PDE_ADDR_bit bit_simps TABLE_ENTRY_def)
qed

lemma PTE_ADDR_block:
  assumes "page_ok e p" "attribute_ok a" "PTE_ADDR a = 0"
  shows "PTE_ADDR (V2P p OR a OR BLOCK_ENTRY) = V2P p"
proof (rule bit_word_eqI)
  fix n assume "n < LENGTH(64)"
  have a: "\<not> (21 \<le> n \<and> n < 48 \<and> bit a n)"
    using assms(3) PTE_ADDR_bit [of a n] by simp
  then show "bit (PTE_ADDR (V2P p OR a OR BLOCK_ENTRY)) n \<longleftrightarrow> bit (V2P p) n"
    using V2P_bits [OF assms(1), of n] by (auto simp: PTE_ADDR_bit bit_simps BLOCK_ENTRY_def)
qed

lemma attribute_valid [simp]:
  assumes "attribute_ok a"
  shows "(x OR a OR y) AND ENTRY_V \<noteq> 0"
  using assms by (simp add: attribute_ok_def valid_bit bit_or_iff)

section \<open>Table trees\<close>

text \<open>
  A position of the tree: the root table, the upper table behind root entry \<open>i\<close>, the
  middle table behind entry \<open>j\<close> of that one. Entries of middle tables are blocks.
\<close>

datatype table_pos = Pgd | Pud nat | Pmd nat nat

fun child :: "table_pos \<Rightarrow> nat \<Rightarrow> table_pos" where
  "child Pgd i = Pud i"
| "child (Pud i) j = Pmd i j"
| "child (Pmd i j) k = Pmd i j"

fun parent :: "table_pos \<Rightarrow> table_pos" where
  "parent Pgd = Pgd"
| "parent (Pud i) = Pgd"
| "parent (Pmd i j) = Pud i"

fun slot :: "table_pos \<Rightarrow> nat" where
  "slot Pgd = 0"
| "slot (Pud i) = i"
| "slot (Pmd i j) = j"

fun inner :: "table_pos \<Rightarrow> bool" where
  "inner (Pmd i j) \<longleftrightarrow> False"
| "inner t \<longleftrightarrow> True"

lemma inner_child [simp]:
  "inner t \<Longrightarrow> parent (child t i) = t" "inner t \<Longrightarrow> slot (child t i) = i"
  "inner t \<Longrightarrow> child t i \<noteq> t" "inner t \<Longrightarrow> child t i \<noteq> Pgd"
  by (cases t; simp)+

lemma child_parent [simp]: "t \<noteq> Pgd \<Longrightarrow> child (parent t) (slot t) = t"
  by (cases t) auto

lemma inner_parent [simp]: "inner (parent t)"
  by (cases t) auto

type_synonym table_map = "table_pos \<rightharpoonup> u64"

definition points_to :: "memory \<Rightarrow> u64 \<Rightarrow> nat \<Rightarrow> u64 option \<Rightarrow> bool" where
  "points_to m p i t \<longleftrightarrow> (case t of
     None \<Rightarrow> entry m p i AND ENTRY_V = 0
   | Some q \<Rightarrow> entry m p i AND ENTRY_V \<noteq> 0 \<and> bit (entry m p i) 1 \<and> P2V (PDE_ADDR (entry m p i)) = q)"

definition tables :: "memory \<Rightarrow> u64 \<Rightarrow> table_map \<Rightarrow> bool" where
  "tables m e T \<longleftrightarrow>
     (\<forall>t t' p. T t = Some p \<and> T t' = Some p \<longrightarrow> t = t') \<and>
     (\<forall>t p. T t = Some p \<longrightarrow> page_ok e p) \<and>
     (\<forall>t p i. T t = Some p \<and> inner t \<and> i < 512 \<longrightarrow> points_to m p i (T (child t i))) \<and>
     (\<forall>t. T t \<noteq> None \<and> t \<noteq> Pgd \<longrightarrow> T (parent t) \<noteq> None \<and> slot t < 512)"

lemma points_to_cong: "entry m' p i = entry m p i \<Longrightarrow> points_to m' p i t = points_to m p i t"
  by (simp add: points_to_def split: option.splits)

lemma tablesD:
  assumes "tables m e T"
  shows "T t = Some p \<Longrightarrow> T t' = Some p \<Longrightarrow> t = t'"
    and "T t = Some p \<Longrightarrow> page_ok e p"
    and "T t = Some p \<Longrightarrow> inner t \<Longrightarrow> i < 512 \<Longrightarrow> points_to m p i (T (child t i))"
    and "T t = Some q \<Longrightarrow> t \<noteq> Pgd \<Longrightarrow> \<exists>p. T (parent t) = Some p"
    and "T t = Some q \<Longrightarrow> t \<noteq> Pgd \<Longrightarrow> slot t < 512"
  using assms unfolding tables_def by blast+

text \<open>
  An address space next to the heap: well-formed tables, an intact free list, and no page
  in both.
\<close>

definition vm_inv :: "'a heap_scheme \<Rightarrow> table_map \<Rightarrow> u64 list \<Rightarrow> bool" where
  "vm_inv s T ps \<longleftrightarrow> heap_inv s ps \<and> tables (mem s) (kernel_end s) T \<and> ran T \<inter> set ps = {}"

lemma vm_invD:
  assumes "vm_inv s T ps"
  shows "heap_inv s ps" "tables (mem s) (kernel_end s) T" "T t = Some p \<Longrightarrow> p \<notin> set ps"
  using assms by (auto simp: vm_inv_def ran_def)

text \<open>Memory changes outside the entries of the tables do not matter.\<close>

lemma tables_cong:
  assumes "tables m e T"
    "\<And>t p i. T t = Some p \<Longrightarrow> inner t \<Longrightarrow> i < 512 \<Longrightarrow> entry m' p i = entry m p i"
  shows "tables m' e T"
proof -
  have "points_to m' p i (T (child t i))" if "T t = Some p" "inner t" "i < 512" for t p i
    using tablesD(3) [OF assms(1) that] points_to_cong [OF assms(2) [OF that]] by simp
  with assms(1) show ?thesis unfolding tables_def by blast
qed

text \<open>
  A step that only touches memory and the free list leaves the rest of the state, which
  larger records extend, as it was.
\<close>

definition heap_step :: "'a heap_scheme \<Rightarrow> 'a heap_scheme \<Rightarrow> bool" where
  "heap_step s s' \<longleftrightarrow> s' = s\<lparr>mem := mem s', free_memory := free_memory s'\<rparr>"

lemma heap_stepE:
  assumes "heap_step s s'"
  obtains m f where "s' = s\<lparr>mem := m, free_memory := f\<rparr>"
  using assms unfolding heap_step_def by blast

lemma heap_step_refl [simp]: "heap_step s s"
  by (simp add: heap_step_def)

lemma heap_step_trans: "heap_step s s' \<Longrightarrow> heap_step s' s'' \<Longrightarrow> heap_step s s''"
  by (cases s; cases s'; cases s''; simp add: heap_step_def)

lemma heap_step_update [simp]:
  "heap_step s (s'\<lparr>mem := m\<rparr>) \<longleftrightarrow> heap_step s s'"
  "heap_step s (s'\<lparr>free_memory := f\<rparr>) \<longleftrightarrow> heap_step s s'"
  by (cases s; cases s'; simp add: heap_step_def)+

lemma heap_step_kernel_end: "heap_step s s' \<Longrightarrow> kernel_end s' = kernel_end s"
  by (elim heap_stepE) simp

text \<open>\<open>heap_within U s s'\<close>: such a step whose writes are all to pages of \<open>U\<close>.\<close>

definition heap_within :: "u64 set \<Rightarrow> 'a heap_scheme \<Rightarrow> 'a heap_scheme \<Rightarrow> bool" where
  "heap_within U s s' \<longleftrightarrow> heap_step s s'
     \<and> (\<forall>x. (\<forall>p \<in> U. \<not> in_range p 2097152 x) \<longrightarrow> mem s' x = mem s x)"

lemma heap_withinD:
  assumes "heap_within U s s'"
  shows "heap_step s s'" "(\<And>p. p \<in> U \<Longrightarrow> \<not> in_range p 2097152 x) \<Longrightarrow> mem s' x = mem s x"
  using assms by (auto simp: heap_within_def)

lemma heap_within_refl [simp]: "heap_within U s s"
  by (simp add: heap_within_def)

lemma heap_within_trans: "heap_within U s s' \<Longrightarrow> heap_within V s' s'' \<Longrightarrow> heap_within (U \<union> V) s s''"
  by (auto simp: heap_within_def elim: heap_step_trans)

lemma heap_within_mono: "heap_within U s s' \<Longrightarrow> U \<subseteq> V \<Longrightarrow> heap_within V s s'"
  unfolding heap_within_def by blast

lemma heap_within_join:
  assumes "heap_within U s s'" "heap_within V s' s''" "U \<union> V \<subseteq> A"
  shows "heap_within A s s''"
  by (rule heap_within_mono [OF heap_within_trans [OF assms(1,2)] assms(3)])

lemma heap_within_same: "heap_within U s s' \<Longrightarrow> heap_within U s' s'' \<Longrightarrow> heap_within U s s''"
  using heap_within_trans [of U s s' U s''] by simp

lemma heap_within_free_memory [simp]: "heap_within U s (s'\<lparr>free_memory := f\<rparr>) \<longleftrightarrow> heap_within U s s'"
  by (simp add: heap_within_def)

lemma in_page_entry:
  assumes "i < 512" "k < 8"
  shows "in_range p 2097152 (p + of_nat (8 * i) + of_nat k)"
proof -
  have "p + of_nat (8 * i) + of_nat k = p + of_nat (8 * i + k)" by simp
  then show ?thesis
    using assms by (subst in_range_add) (auto intro!: exI [of _ "8 * i + k"] simp del: of_nat_add of_nat_mult)
qed

lemma set_entry_outside:
  assumes "\<not> in_range p 2097152 x" "i < 512"
  shows "set_entry m p i v x = m x"
  unfolding set_entry_def using assms in_page_entry by (intro wr_other) blast

lemma memset_outside: "\<not> in_range p 2097152 x \<Longrightarrow> memset m p 0 (ucast PAGE_SIZE) x = m x"
  by (simp add: memset_eq PAGE_SIZE_def)

lemma heap_within_set_entry:
  assumes "heap_within U s s'" "p \<in> U" "i < 512"
  shows "heap_within U s (s'\<lparr>mem := set_entry (mem s') p i v\<rparr>)"
  using assms by (auto simp: heap_within_def set_entry_outside)

lemma heap_within_memset:
  assumes "heap_within U s s'" "p \<in> U"
  shows "heap_within U s (s'\<lparr>mem := memset (mem s') p 0 (ucast PAGE_SIZE)\<rparr>)"
  using assms by (auto simp: heap_within_def memset_outside)

section \<open>One step of the walk\<close>

lemma next_table_hit:
  assumes "vm_inv s T ps" "T t = Some p" "inner t" "i < 512" "T (child t i) = Some q"
  shows "next_table p i alloc a s = Inr (q, s)"
  using tablesD(3) [OF vm_invD(2) [OF assms(1)] assms(2-4)] assms(5)
  by (simp add: next_table_def points_to_def)

lemma next_table_miss:
  assumes "vm_inv s T ps" "T t = Some p" "inner t" "i < 512" "T (child t i) = None"
    "alloc \<noteq> 1 \<or> ps = []"
  shows "next_table p i alloc a s = Inr (0, s)"
  using tablesD(3) [OF vm_invD(2) [OF assms(1)] assms(2-4)] assms(5,6) vm_invD(1) [OF assms(1)]
  by (auto simp: next_table_def points_to_def kalloc_Nil)

text \<open>Allocating the missing table: position \<open>child t i\<close> becomes the page \<open>q\<close>, empty.\<close>

lemma tables_insert:
  assumes T: "tables m e T" and t: "T t = Some p" "inner t" "i < 512" "T (child t i) = None"
    and q: "page_ok e q" "q \<notin> ran T"
    and m': "\<And>k. k < 512 \<Longrightarrow> entry m' q k AND ENTRY_V = 0"
      "entry m' p i AND ENTRY_V \<noteq> 0 \<and> bit (entry m' p i) 1" "P2V (PDE_ADDR (entry m' p i)) = q"
      "\<And>r k. page_ok e r \<Longrightarrow> r \<noteq> q \<Longrightarrow> k < 512 \<Longrightarrow> (r, k) \<noteq> (p, i) \<Longrightarrow> entry m' r k = entry m r k"
  shows "tables m' e (T(child t i \<mapsto> q))"
proof -
  let ?T = "T(child t i \<mapsto> q)"
  have fresh: "T t' \<noteq> Some q" for t' using q(2) by (auto simp: ran_def)
  have pts: "points_to m' p' k (?T (child t' k))"
    if "?T t' = Some p'" "inner t'" "k < 512" for t' p' k
  proof (cases "t' = child t i")
    case True
    with that t have "p' = q" "child t' k \<noteq> child t i" by auto
    moreover have "T (child t' k) = None"
      using tablesD(4) [OF T, of "child t' k"] t(4) True that(2) by (cases "T (child t' k)") auto
    ultimately show ?thesis using m'(1) that(3) by (simp add: points_to_def)
  next
    case False
    with that have T': "T t' = Some p'" by simp
    have old: "points_to m p' k (T (child t' k))" by (rule tablesD(3) [OF T T' that(2,3)])
    have ne: "p' \<noteq> q" using fresh T' by auto
    show ?thesis
    proof (cases "t' = t \<and> k = i")
      case True
      with T' t m' show ?thesis by (simp add: points_to_def)
    next
      case False
      have "child t' k \<noteq> child t i"
        using False that(2) t(2) by (metis inner_child(1,2))
      moreover have "(p', k) \<noteq> (p, i)"
        using False tablesD(1) [OF T T'] t(1) by auto
      then have "entry m' p' k = entry m p' k"
        using m'(4) tablesD(2) [OF T T'] ne that(3) by blast
      ultimately show ?thesis using old points_to_cong [of m' p' k m] by simp
    qed
  qed
  have "t1 = t2" if "?T t1 = Some r" "?T t2 = Some r" for t1 t2 r
    using that tablesD(1) [OF T] fresh by (auto split: if_splits)
  moreover have "page_ok e r" if "?T t1 = Some r" for t1 r
    using that tablesD(2) [OF T] q(1) by (auto split: if_splits)
  moreover have "?T (parent t1) \<noteq> None \<and> slot t1 < 512" if "?T t1 \<noteq> None" "t1 \<noteq> Pgd" for t1
    using that tablesD(4,5) [OF T, of t1] t by (auto split: if_splits)
  ultimately show ?thesis using pts unfolding tables_def by blast
qed

lemma next_table_alloc:
  assumes "vm_inv s T (q # ps)" "T t = Some p" "inner t" "i < 512" "T (child t i) = None"
    "attribute_ok a"
  shows "\<exists>s'. next_table p i 1 a s = Inr (q, s') \<and> vm_inv s' (T(child t i \<mapsto> q)) ps
     \<and> heap_within {p, q} s s' \<and> (\<forall>r k. page_ok (kernel_end s) r \<and> k < 512 \<longrightarrow> entry (mem s') r k =
       (if r = q then 0 else if r = p \<and> k = i then V2P q OR a OR TABLE_ENTRY
        else entry (mem s) r k))"
proof -
  let ?e = "kernel_end s" and ?E = "V2P q OR a OR TABLE_ENTRY"
  note inv = vm_invD [OF assms(1)]
  have ok: "page_ok ?e p" "page_ok ?e q" and q: "q \<notin> ran T" "q \<noteq> p" "q \<notin> set ps" "p \<notin> set ps"
    using inv assms(2) tablesD(2) [OF inv(2) assms(2)] by (auto simp: heap_inv_def ran_def)
  let ?s1 = "s\<lparr>free_memory := ld64 (mem s) q\<rparr>"
  let ?m1 = "memset (mem s) q 0 (ucast PAGE_SIZE)"
  let ?m2 = "set_entry ?m1 p i ?E"
  let ?s2 = "?s1\<lparr>mem := ?m2\<rparr>"
  have ent: "entry ?m2 r k = (if r = q then 0 else if r = p \<and> k = i then ?E else entry (mem s) r k)"
    if "page_ok ?e r" "k < 512" for r k
    using that ok q assms(4) by (auto simp: entry_set_entry entry_memset)
  have run: "next_table p i 1 a s = Inr (q, ?s2)"
    using tablesD(3) [OF inv(2) assms(2-4)] assms(5) kalloc_Cons(1) [OF inv(1)]
      page_ok_bounds(4) [OF ok(2)]
    by (simp add: next_table_def points_to_def)
  have "heap_inv (?s1\<lparr>mem := ?m1\<rparr>) ps"
    using heap_inv_memset [OF kalloc_Cons(2) [OF inv(1)], of q] ok q by simp
  from heap_inv_set_entry [OF this, of p i ?E] have "heap_inv ?s2 ps"
    using ok q assms(4) by simp
  moreover have "bit ?E 1" by (simp add: bit_or_iff TABLE_ENTRY_def bit_push_bit_iff)
  then have "tables ?m2 ?e (T(child t i \<mapsto> q))"
    using ent ok q assms(4,6) PDE_ADDR_table [OF ok(2) assms(6)]
    by (intro tables_insert [OF inv(2) assms(2-5)]) auto
  ultimately have "vm_inv ?s2 (T(child t i \<mapsto> q)) ps"
    using inv(3) q(3) assms(1) by (auto simp: vm_inv_def ran_def)
  moreover have "heap_within {p, q} s ?s2"
    using heap_within_set_entry [OF heap_within_memset [of "{p, q}" s ?s1 q], of p i ?E] assms(4) by simp
  ultimately show ?thesis using run ent by (intro exI [of _ ?s2]) simp
qed

section \<open>Growing an address space\<close>

text \<open>
  From one state to a later one the tables only gain positions, the pages they gain come
  off the front of the free list, and the blocks mapped by existing middle tables stay.
\<close>

definition grows :: "'a heap_scheme \<Rightarrow> table_map \<Rightarrow> u64 list \<Rightarrow>
    'a heap_scheme \<Rightarrow> table_map \<Rightarrow> u64 list \<Rightarrow> bool" where
  "grows s T ps s' T' ps' \<longleftrightarrow> heap_within (set ps \<union> ran T) s s' \<and> vm_inv s' T' ps' \<and> T \<subseteq>\<^sub>m T'
     \<and> (\<exists>us. ps = us @ ps' \<and> ran T' = ran T \<union> set us)
     \<and> (\<forall>i j r k. T (Pmd i j) = Some r \<and> k < 512 \<longrightarrow> entry (mem s') r k = entry (mem s) r k)"

lemma growsD:
  assumes "grows s T ps s' T' ps'"
  shows "heap_within (set ps \<union> ran T) s s'" "vm_inv s' T' ps'" "T t = Some p \<Longrightarrow> T' t = Some p"
    "\<exists>us. ps = us @ ps' \<and> ran T' = ran T \<union> set us"
    "T (Pmd i j) = Some r \<Longrightarrow> k < 512 \<Longrightarrow> entry (mem s') r k = entry (mem s) r k"
  using assms by (auto simp: grows_def map_le_def dom_def)

lemma grows_refl: "vm_inv s T ps \<Longrightarrow> grows s T ps s T ps"
  by (simp add: grows_def)

lemma grows_trans:
  assumes "grows s T ps s1 T1 ps1" "grows s1 T1 ps1 s2 T2 ps2"
  shows "grows s T ps s2 T2 ps2"
proof -
  note a = growsD [OF assms(1)] and b = growsD [OF assms(2)]
  have "heap_within (set ps \<union> ran T) s s2" using a(4) by (intro heap_within_join [OF a(1) b(1)]) auto
  moreover have "T \<subseteq>\<^sub>m T2" using assms by (auto simp: grows_def intro: map_le_trans)
  moreover have "\<exists>us. ps = us @ ps2 \<and> ran T2 = ran T \<union> set us"
  proof -
    obtain us vs where "ps = us @ ps1" "ran T1 = ran T \<union> set us"
      "ps1 = vs @ ps2" "ran T2 = ran T1 \<union> set vs"
      using a(4) b(4) by auto
    then show ?thesis by (intro exI [of _ "us @ vs"]) auto
  qed
  moreover have "entry (mem s2) r k = entry (mem s) r k" if "T (Pmd i j) = Some r" "k < 512" for i j r k
    using a(5) [OF that] b(5) [OF a(3) [OF that(1)] that(2)] by simp
  ultimately show ?thesis using b(2) unfolding grows_def by blast
qed

lemma next_table_grows:
  assumes "vm_inv s T (q # ps)" "T t = Some p" "inner t" "i < 512" "T (child t i) = None"
    "attribute_ok a"
  shows "\<exists>s'. next_table p i 1 a s = Inr (q, s')
     \<and> grows s T (q # ps) s' (T(child t i \<mapsto> q)) ps \<and> (\<forall>k < 512. entry (mem s') q k = 0)"
proof -
  obtain s' where s': "next_table p i 1 a s = Inr (q, s')" "vm_inv s' (T(child t i \<mapsto> q)) ps"
    "heap_within {p, q} s s'" and ent: "\<And>r k. page_ok (kernel_end s) r \<Longrightarrow> k < 512 \<Longrightarrow> entry (mem s') r k =
       (if r = q then 0 else if r = p \<and> k = i then V2P q OR a OR TABLE_ENTRY
        else entry (mem s) r k)"
    using next_table_alloc [OF assms] by blast
  note inv = vm_invD [OF assms(1)]
  have q: "page_ok (kernel_end s) q" "q \<notin> ran T"
    using inv by (auto simp: heap_inv_def ran_def)
  have "entry (mem s') r k = entry (mem s) r k" if "T (Pmd i' j') = Some r" "k < 512" for i' j' r k
  proof -
    have "r \<noteq> q" using that(1) q(2) by (auto simp: ran_def)
    moreover have "r \<noteq> p" using tablesD(1) [OF inv(2) that(1)] assms(2,3) by fastforce
    ultimately show ?thesis using ent [OF tablesD(2) [OF inv(2) that(1)] that(2)] by simp
  qed
  moreover have "T \<subseteq>\<^sub>m T(child t i \<mapsto> q)" using assms(5) by (auto simp: map_le_def)
  moreover have "ran (T(child t i \<mapsto> q)) = ran T \<union> set [q]" using assms(5) by auto
  moreover have "heap_within (set (q # ps) \<union> ran T) s s'"
    using assms(2) by (intro heap_within_mono [OF s'(3)]) (auto intro: ranI)
  ultimately have "grows s T (q # ps) s' (T(child t i \<mapsto> q)) ps"
    unfolding grows_def using s' by (intro conjI exI [of _ "[q]"]) auto
  with s'(1) ent q(1) show ?thesis by auto
qed

lemma index_less [simp]: "pgd_index v < 512" "pud_index v < 512" "pmd_index v < 512"
proof -
  have "unat (x AND 0x1ff :: u64) < 512" for x
    using word_and_le1 [of x "0x1ff"] by (simp add: word_le_nat_alt)
  then show "pgd_index v < 512" "pud_index v < 512" "pmd_index v < 512"
    by (simp_all add: pgd_index_def pud_index_def pmd_index_def)
qed

abbreviation pmd_of :: "u64 \<Rightarrow> table_pos" where
  "pmd_of v \<equiv> Pmd (pgd_index v) (pud_index v)"

lemma find_pud_entry_hit:
  assumes "vm_inv s T ps" "T Pgd = Some pgd" "T (pmd_of v) = Some q"
  shows "find_pud_entry pgd v alloc a s = Inr (q, s)"
proof -
  obtain p where p: "T (Pud (pgd_index v)) = Some p"
    using tablesD(4) [OF vm_invD(2) [OF assms(1)] assms(3)] by auto
  then have "p \<noteq> 0" using tablesD(2) [OF vm_invD(2) [OF assms(1)]] page_ok_bounds(4) by blast
  with p assms show ?thesis
    by (simp add: find_pud_entry_def find_pgd_entry_def next_table_hit [of s T ps Pgd pgd]
        next_table_hit [of s T ps "Pud (pgd_index v)" p])
qed

lemma find_pud_entry_none:
  assumes "vm_inv s T ps" "T Pgd = Some pgd" "T (pmd_of v) = None" "alloc \<noteq> 1"
  shows "find_pud_entry pgd v alloc a s = Inr (0, s)"
proof (cases "T (Pud (pgd_index v))")
  case None
  with assms show ?thesis
    by (simp add: find_pud_entry_def find_pgd_entry_def next_table_miss [of s T ps Pgd pgd])
next
  case (Some p)
  with assms show ?thesis
    by (simp add: find_pud_entry_def find_pgd_entry_def next_table_hit [of s T ps Pgd pgd]
        next_table_miss [of s T ps "Pud (pgd_index v)" p])
qed

text \<open>
  Walking to the middle table of \<open>v\<close>, allocating: the table found or made is the one at the
  position of \<open>v\<close>; no other middle table appears. Two free pages are always enough.
\<close>

definition table_path :: "u64 \<Rightarrow> table_pos set" where
  "table_path v = {Pgd, Pud (pgd_index v), pmd_of v}"

definition reaches_pmd :: "'a heap_scheme \<Rightarrow> table_map \<Rightarrow> table_map \<Rightarrow> u64 \<Rightarrow> u64 \<Rightarrow> bool" where
  "reaches_pmd s' T T' v q \<longleftrightarrow>
     (if q = 0 then T' (pmd_of v) = None else T' (pmd_of v) = Some q)
     \<and> (\<forall>i j. Pmd i j \<noteq> pmd_of v \<longrightarrow> T' (Pmd i j) = T (Pmd i j))
     \<and> (T (pmd_of v) = None \<and> q \<noteq> 0 \<longrightarrow> (\<forall>k < 512. entry (mem s') q k = 0))
     \<and> dom T' \<subseteq> dom T \<union> table_path v"

lemma next_table_pmd:
  assumes "vm_inv s T ps" "T (Pud (pgd_index v)) = Some p" "T (pmd_of v) = None" "attribute_ok a"
  shows "\<exists>q s' T' ps'. next_table p (pud_index v) 1 a s = Inr (q, s')
     \<and> grows s T ps s' T' ps' \<and> reaches_pmd s' T T' v q \<and> (ps \<noteq> [] \<longrightarrow> q \<noteq> 0)"
proof (cases ps)
  case Nil
  with assms next_table_miss [of s T ps "Pud (pgd_index v)" p "pud_index v" 1 a] show ?thesis
    by (intro exI [of _ 0] exI [of _ s] exI [of _ T] exI [of _ ps])
      (auto simp: grows_refl reaches_pmd_def table_path_def)
next
  case (Cons q qs)
  have "page_ok (kernel_end s) q"
    using vm_invD(1) [OF assms(1)] Cons by (simp add: heap_inv_def)
  then have "q \<noteq> 0" by (rule page_ok_bounds)
  moreover obtain s' where "next_table p (pud_index v) 1 a s = Inr (q, s')"
    "grows s T ps s' (T(pmd_of v \<mapsto> q)) qs" "\<forall>k < 512. entry (mem s') q k = 0"
    using next_table_grows [of s T q qs "Pud (pgd_index v)" p "pud_index v" a] assms Cons by auto
  ultimately show ?thesis
    by (intro exI [of _ q] exI [of _ s'] exI [of _ "T(pmd_of v \<mapsto> q)"] exI [of _ qs])
      (auto simp: reaches_pmd_def table_path_def)
qed

lemma find_pud_entry_alloc:
  assumes "vm_inv s T ps" "T Pgd = Some pgd" "attribute_ok a"
  shows "\<exists>q s' T' ps'. find_pud_entry pgd v 1 a s = Inr (q, s')
     \<and> grows s T ps s' T' ps' \<and> reaches_pmd s' T T' v q \<and> (2 \<le> length ps \<longrightarrow> q \<noteq> 0)"
proof (cases "T (pmd_of v)")
  case (Some q)
  then have "q \<noteq> 0"
    using tablesD(2) [OF vm_invD(2) [OF assms(1)]] page_ok_bounds(4) by blast
  with Some find_pud_entry_hit [OF assms(1,2) Some] show ?thesis
    by (intro exI [of _ q] exI [of _ s] exI [of _ T] exI [of _ ps])
      (simp add: grows_refl [OF assms(1)] reaches_pmd_def)
next
  case none: None
  show ?thesis
  proof (cases "T (Pud (pgd_index v))")
    case (Some p)
    then have "p \<noteq> 0"
      using tablesD(2) [OF vm_invD(2) [OF assms(1)]] page_ok_bounds(4) by blast
    moreover have "next_table pgd (pgd_index v) 1 a s = Inr (p, s)"
      using next_table_hit [OF assms(1,2)] Some by simp
    moreover obtain q s' T' ps' where "next_table p (pud_index v) 1 a s = Inr (q, s')"
      "grows s T ps s' T' ps'" "reaches_pmd s' T T' v q" "ps \<noteq> [] \<longrightarrow> q \<noteq> 0"
      using next_table_pmd [OF assms(1) Some none assms(3)] by blast
    ultimately show ?thesis
      by (intro exI [of _ q] exI [of _ s'] exI [of _ T'] exI [of _ ps'])
        (auto simp: find_pud_entry_def find_pgd_entry_def)
  next
    case None
    show ?thesis
    proof (cases ps)
      case Nil
      with assms None none next_table_miss [of s T ps Pgd pgd "pgd_index v" 1 a] show ?thesis
        by (intro exI [of _ 0] exI [of _ s] exI [of _ T] exI [of _ ps])
          (auto simp: find_pud_entry_def find_pgd_entry_def grows_refl reaches_pmd_def)
    next
      case (Cons p qs)
      let ?T = "T(Pud (pgd_index v) \<mapsto> p)"
      have "page_ok (kernel_end s) p"
        using vm_invD(1) [OF assms(1)] Cons by (simp add: heap_inv_def)
      then have "p \<noteq> 0" by (rule page_ok_bounds)
      obtain s1 where s1: "next_table pgd (pgd_index v) 1 a s = Inr (p, s1)" "grows s T ps s1 ?T qs"
        using next_table_grows [of s T p qs Pgd pgd "pgd_index v" a] assms Cons None by auto
      obtain q s' T' ps' where s': "next_table p (pud_index v) 1 a s1 = Inr (q, s')"
        "grows s1 ?T qs s' T' ps'" "reaches_pmd s' ?T T' v q" "qs \<noteq> [] \<longrightarrow> q \<noteq> 0"
        using next_table_pmd [OF growsD(2) [OF s1(2)], of v p a] none assms(3) by auto
      have "grows s T ps s' T' ps'" using s1(2) s'(2) by (rule grows_trans)
      moreover have "reaches_pmd s' T T' v q" using s'(3) by (auto simp: reaches_pmd_def table_path_def)
      moreover have "2 \<le> length ps \<longrightarrow> q \<noteq> 0" using s'(4) Cons by auto
      ultimately show ?thesis
        using s1(1) s'(1) \<open>p \<noteq> 0\<close>
        by (intro exI [of _ q] exI [of _ s'] exI [of _ T'] exI [of _ ps'])
          (simp add: find_pud_entry_def find_pgd_entry_def)
    qed
  qed
qed

section \<open>What an address space maps\<close>

text \<open>
  The block entry the tables hold for an address; 0 where the walk ends early. It is what
  the code itself finds with \<open>find_pud_entry\<close> and no allocation.
\<close>

definition leaf :: "memory \<Rightarrow> table_map \<Rightarrow> u64 \<Rightarrow> u64" where
  "leaf m T v = (case T (pmd_of v) of None \<Rightarrow> 0 | Some p \<Rightarrow> entry m p (pmd_index v))"

definition same_slot :: "u64 \<Rightarrow> u64 \<Rightarrow> bool" where
  "same_slot v w \<longleftrightarrow> pgd_index v = pgd_index w \<and> pud_index v = pud_index w \<and> pmd_index v = pmd_index w"

lemma PA_DOWN_slot: "pgd_index (PA_DOWN v) = pgd_index v" "pud_index (PA_DOWN v) = pud_index v"
  "pmd_index (PA_DOWN v) = pmd_index v"
proof -
  have "drop_bit k (PA_DOWN v) = drop_bit k v" if "21 \<le> k" for k
  proof (rule bit_word_eqI)
    fix n assume "n < LENGTH(64)"
    show "bit (drop_bit k (PA_DOWN v)) n \<longleftrightarrow> bit (drop_bit k v) n"
      using that bit_imp_le_length [of v "k + n"] by (auto simp: PA_DOWN_def bit_simps)
  qed
  then show "pgd_index (PA_DOWN v) = pgd_index v" "pud_index (PA_DOWN v) = pud_index v"
    "pmd_index (PA_DOWN v) = pmd_index v"
    by (simp_all add: pgd_index_def pud_index_def pmd_index_def)
qed

lemma leaf_PA_DOWN [simp]: "leaf m T (PA_DOWN v) = leaf m T v"
  by (simp add: leaf_def PA_DOWN_slot split: option.split)

lemma reaches_leaf:
  assumes "grows s T ps s' T' ps'" "reaches_pmd s' T T' v q"
  shows "leaf (mem s') T' w = leaf (mem s) T w"
proof (cases "T (pmd_of w)")
  case (Some r)
  then show ?thesis
    using growsD(3,5) [OF assms(1)] by (simp add: leaf_def)
next
  case None
  show ?thesis
  proof (cases "pmd_of w = pmd_of v \<and> q \<noteq> 0")
    case True
    with assms(2) None show ?thesis by (simp add: leaf_def reaches_pmd_def)
  next
    case False
    with assms(2) None have "T' (pmd_of w) = None"
      by (cases "pmd_of w = pmd_of v") (auto simp: reaches_pmd_def split: if_splits)
    with None show ?thesis by (simp add: leaf_def)
  qed
qed

text \<open>Writing a block entry: no table moves, one mapping changes.\<close>

lemma set_leaf:
  fixes s :: "'a heap_scheme" and e :: u64
  assumes "vm_inv s T ps" "T (pmd_of v) = Some q"
  defines "s' \<equiv> s\<lparr>mem := set_entry (mem s) q (pmd_index v) e\<rparr>"
  shows "vm_inv s' T ps" "leaf (mem s') T w = (if same_slot v w then e else leaf (mem s) T w)"
proof -
  note inv = vm_invD [OF assms(1)]
  have ok: "page_ok (kernel_end s) q" "q \<notin> set ps"
    using tablesD(2) [OF inv(2) assms(2)] inv(3) [OF assms(2)] by auto
  have "tables (mem s') (kernel_end s) T"
  proof (rule tables_cong [OF inv(2)])
    fix t p and i :: nat assume t: "T t = Some p" "inner t" "i < 512"
    have "p \<noteq> q" using tablesD(1) [OF inv(2) t(1)] assms(2) t(2) by fastforce
    then show "entry (mem s') p i = entry (mem s) p i"
      using tablesD(2) [OF inv(2) t(1)] t(3) ok by (simp add: s'_def entry_set_entry)
  qed
  then show "vm_inv s' T ps"
    using heap_inv_set_entry [OF inv(1) ok] assms(1) by (simp add: s'_def vm_inv_def)
  show "leaf (mem s') T w = (if same_slot v w then e else leaf (mem s) T w)"
  proof (cases "T (pmd_of w)")
    case None
    with assms(2) have "pmd_of w \<noteq> pmd_of v" by auto
    with None show ?thesis by (auto simp: leaf_def same_slot_def)
  next
    case (Some p)
    have "p = q \<longleftrightarrow> pmd_of w = pmd_of v"
    proof
      assume "p = q"
      with assms(2) have "T (pmd_of v) = Some p" by (simp only:)
      then show "pmd_of w = pmd_of v" by (rule tablesD(1) [OF inv(2) Some])
    next
      assume "pmd_of w = pmd_of v"
      with Some assms(2) have "Some p = Some q" by (simp only:)
      then show "p = q" by simp
    qed
    then have "p = q \<and> pmd_index w = pmd_index v \<longleftrightarrow> same_slot v w"
      by (auto simp: same_slot_def)
    with Some show ?thesis
      using entry_set_entry [OF tablesD(2) [OF inv(2) Some] ok(1), of "pmd_index w" "pmd_index v"]
      by (simp add: leaf_def s'_def)
  qed
qed

text \<open>
  \<open>map_page\<close> under its assertions, on an address that is not mapped: it returns, and when
  it reports success exactly the mapping of \<open>v\<close> has changed. It fails only when the heap
  runs out, which two free pages rule out, and then it has mapped nothing.
\<close>

definition map_page_pre :: "u64 \<Rightarrow> u64 \<Rightarrow> u64 \<Rightarrow> bool" where
  "map_page_pre v pa a \<longleftrightarrow> PA_DOWN v + PAGE_SIZE < HEAP_MEMORY_END \<and> pa mod PAGE_SIZE = 0
     \<and> pa + PAGE_SIZE \<le> V2P HEAP_MEMORY_END \<and> attribute_ok a"

lemma map_page_maps:
  assumes "vm_inv s T ps" "T Pgd = Some pgd" "map_page_pre v pa a" "\<not> bit (leaf (mem s) T v) 0"
  shows "\<exists>r s' T' us ps'. map_page pgd v pa a s = Inr (r, s') \<and> heap_within (set ps \<union> ran T) s s' \<and> vm_inv s' T' ps'
     \<and> T \<subseteq>\<^sub>m T' \<and> ps = us @ ps' \<and> ran T' = ran T \<union> set us
     \<and> (\<forall>w. leaf (mem s') T' w = (if r \<and> same_slot v w then pa OR a OR BLOCK_ENTRY else leaf (mem s) T w))
     \<and> (r \<longrightarrow> T' (pmd_of v) \<noteq> None) \<and> (2 \<le> length ps \<longrightarrow> r) \<and> dom T' \<subseteq> dom T \<union> table_path v"
proof -
  let ?v = "PA_DOWN v" and ?E = "pa OR a OR BLOCK_ENTRY"
  obtain q s1 T' ps' where w: "find_pud_entry pgd ?v 1 a s = Inr (q, s1)" "grows s T ps s1 T' ps'"
    "reaches_pmd s1 T T' ?v q" "2 \<le> length ps \<longrightarrow> q \<noteq> 0"
    using find_pud_entry_alloc [OF assms(1,2), of a ?v] assms(3) by (auto simp: map_page_pre_def)
  note g = growsD [OF w(2)]
  obtain us where us: "ps = us @ ps'" "ran T' = ran T \<union> set us" using g(4) by auto
  have sub: "T \<subseteq>\<^sub>m T'" using w(2) by (simp add: grows_def)
  have lf: "leaf (mem s1) T' w = leaf (mem s) T w" for w by (rule reaches_leaf [OF w(2,3)])
  have dom: "dom T' \<subseteq> dom T \<union> table_path v"
    using w(3) by (simp add: reaches_pmd_def table_path_def PA_DOWN_slot)
  show ?thesis
  proof (cases "q = 0")
    case True
    then have "map_page pgd v pa a s = Inr (False, s1)"
      using w(1) assms(3) by (simp add: map_page_def map_page_pre_def Let_def)
    then show ?thesis
      using w(4) True g(1,2) us sub lf dom
      by (intro exI [of _ False] exI [of _ s1] exI [of _ T'] exI [of _ us] exI [of _ ps']) auto
  next
    case False
    then have pmd: "T' (pmd_of v) = Some q"
      using w(3) by (simp add: reaches_pmd_def PA_DOWN_slot)
    let ?s2 = "s1\<lparr>mem := set_entry (mem s1) q (pmd_index v) ?E\<rparr>"
    have "entry (mem s1) q (pmd_index v) AND ENTRY_V = 0"
      using lf [of v] pmd assms(4) valid_bit [of "leaf (mem s) T v"] by (simp add: leaf_def [of "mem s1"])
    then have "map_page pgd v pa a s = Inr (True, ?s2)"
      using w(1) assms(3) False by (simp add: map_page_def map_page_pre_def Let_def PA_DOWN_slot)
    moreover have "q \<in> set ps \<union> ran T" using ranI [of T' "pmd_of v"] pmd us by auto
    then have "heap_within (set ps \<union> ran T) s ?s2" by (intro heap_within_set_entry [OF g(1)]) simp_all
    ultimately show ?thesis
      using set_leaf [OF g(2) pmd, of ?E] lf us sub pmd dom
      by (intro exI [of _ True] exI [of _ ?s2] exI [of _ T'] exI [of _ us] exI [of _ ps']) auto
  qed
qed

section \<open>Unmapping and teardown\<close>

lemma kfree_beside_tables:
  assumes "vm_inv s T ps" "page_ok (kernel_end s) q" "q \<notin> set ps" "q \<notin> ran T"
  shows "\<exists>s'. kfree q s = Inr ((), s') \<and> heap_within {q} s s' \<and> vm_inv s' T (q # ps)
     \<and> (\<forall>t p i. T t = Some p \<and> i < 512 \<longrightarrow> entry (mem s') p i = entry (mem s) p i)"
proof -
  note inv = vm_invD [OF assms(1)]
  let ?s = "s\<lparr>mem := st64 (mem s) q (free_memory s), free_memory := q\<rparr>"
  have ent: "entry (mem ?s) p i = entry (mem s) p i" if "T t = Some p" "i < 512" for t p i
  proof -
    have "p \<noteq> q" using assms(4) that(1) by (auto simp: ran_def)
    then show ?thesis
      using entry_set_entry [OF tablesD(2) [OF inv(2) that(1)] assms(2) that(2), of 0]
      by (simp add: st64_set_entry)
  qed
  have "tables (mem ?s) (kernel_end s) T" using ent by (intro tables_cong [OF inv(2)])
  then have "vm_inv ?s T (q # ps)"
    using kfree_page(2) [OF inv(1) assms(2,3)] assms(1,4) by (simp add: vm_inv_def)
  moreover have "\<forall>t p i. T t = Some p \<and> i < 512 \<longrightarrow> entry (mem ?s) p i = entry (mem s) p i"
    using ent by blast
  moreover have "heap_within {q} s ?s"
    using heap_within_set_entry [of "{q}" s s q 0 "free_memory s"] by (simp add: st64_set_entry)
  ultimately show ?thesis
    using kfree_page(1) [OF inv(1) assms(2,3)] by (intro exI [of _ ?s]) simp
qed

lemma tables_remove:
  assumes T: "tables m e T" and t: "T t = Some p" "inner t" "i < 512" "T (child t i) = Some q"
    and leafless: "\<And>t1. t1 \<noteq> Pgd \<Longrightarrow> parent t1 = child t i \<Longrightarrow> T t1 = None"
    and m': "entry m' p i AND ENTRY_V = 0"
      "\<And>r k. page_ok e r \<Longrightarrow> r \<noteq> q \<Longrightarrow> k < 512 \<Longrightarrow> (r, k) \<noteq> (p, i) \<Longrightarrow> entry m' r k = entry m r k"
  shows "tables m' e (T(child t i := None))"
proof -
  let ?T = "T(child t i := None)"
  have pts: "points_to m' p' k (?T (child t' k))"
    if "?T t' = Some p'" "inner t'" "k < 512" for t' p' k
  proof -
    have T': "T t' = Some p'" "t' \<noteq> child t i" using that(1) by (auto split: if_splits)
    have old: "points_to m p' k (T (child t' k))" by (rule tablesD(3) [OF T T'(1) that(2,3)])
    have ne: "p' \<noteq> q" using tablesD(1) [OF T T'(1)] t(4) T'(2) by blast
    show ?thesis
    proof (cases "t' = t \<and> k = i")
      case True
      with T' t m' show ?thesis by (simp add: points_to_def)
    next
      case False
      have "child t' k \<noteq> child t i"
        using False that(2) t(2) by (metis inner_child(1,2))
      moreover have "(p', k) \<noteq> (p, i)"
        using False tablesD(1) [OF T T'(1)] t(1) by auto
      then have "entry m' p' k = entry m p' k"
        using m'(2) tablesD(2) [OF T T'(1)] ne that(3) by blast
      ultimately show ?thesis using old points_to_cong [of m' p' k m] by simp
    qed
  qed
  have "t1 = t2" if "?T t1 = Some r" "?T t2 = Some r" for t1 t2 r
    using that tablesD(1) [OF T] by (auto split: if_splits)
  moreover have "page_ok e r" if "?T t1 = Some r" for t1 r
    using that tablesD(2) [OF T] by (auto split: if_splits)
  moreover have "?T (parent t1) \<noteq> None \<and> slot t1 < 512" if "?T t1 \<noteq> None" "t1 \<noteq> Pgd" for t1
    using that tablesD(4,5) [OF T, of t1] leafless [of t1] by (auto split: if_splits)
  ultimately show ?thesis using pts unfolding tables_def by blast
qed

text \<open>The pages of a state: the free ones and those that hold tables.\<close>

definition holds :: "'a heap_scheme \<Rightarrow> table_map \<Rightarrow> u64 set \<Rightarrow> bool" where
  "holds s T U \<longleftrightarrow> (\<exists>ps. vm_inv s T ps \<and> set ps \<union> ran T = U)"

lemma free_entry_holds:
  assumes "holds s T U" "T t = Some p" "inner t" "i < 512"
    "\<And>t1. t1 \<noteq> Pgd \<Longrightarrow> parent t1 = child t i \<Longrightarrow> T t1 = None"
  shows "\<exists>s'. free_entry p i s = Inr ((), s') \<and> heap_within U s s' \<and> holds s' (T(child t i := None)) U"
proof -
  obtain ps where ps: "vm_inv s T ps" "set ps \<union> ran T = U" using assms(1) by (auto simp: holds_def)
  note inv = vm_invD [OF ps(1)]
  have pts: "points_to (mem s) p i (T (child t i))" by (rule tablesD(3) [OF inv(2) assms(2-4)])
  show ?thesis
  proof (cases "T (child t i)")
    case None
    then have "T(child t i := None) = T" by auto
    with pts None assms(1) show ?thesis
      by (intro exI [of _ s]) (simp add: free_entry_def points_to_def)
  next
    case (Some q)
    have ok: "page_ok (kernel_end s) q" "page_ok (kernel_end s) p" "q \<notin> set ps" "p \<notin> set ps" "p \<noteq> q"
      using tablesD(2) [OF inv(2)] inv(3) assms(2) Some tablesD(1) [OF inv(2) assms(2), of "child t i"]
        inner_child(3) [OF assms(3), of i] by auto
    note free = kfree_page [OF inv(1) ok(1,3)]
    let ?s1 = "s\<lparr>mem := st64 (mem s) q (free_memory s), free_memory := q\<rparr>"
    let ?s2 = "?s1\<lparr>mem := set_entry (mem ?s1) p i 0\<rparr>"
    have run: "free_entry p i s = Inr ((), ?s2)"
      using pts Some free(1) by (simp add: free_entry_def points_to_def)
    have "heap_inv ?s2 (q # ps)"
      using heap_inv_set_entry [OF free(2), of p i 0] ok assms(4) by simp
    moreover have ent: "entry (mem ?s2) r k = (if r = p \<and> k = i then 0 else entry (mem s) r k)"
      if "page_ok (kernel_end s) r" "r \<noteq> q" "k < 512" for r k
      using that ok assms(4) entry_set_entry [of "kernel_end s" r p k i]
        entry_set_entry [of "kernel_end s" r q k 0]
      by (simp add: st64_set_entry)
    have "tables (mem ?s2) (kernel_end s) (T(child t i := None))"
    proof (rule tables_remove [OF inv(2) assms(2-4) Some assms(5)])
      show "entry (mem ?s2) p i AND ENTRY_V = 0" using ent [OF ok(2,5) assms(4)] by simp
      show "entry (mem ?s2) r k = entry (mem s) r k"
        if "page_ok (kernel_end s) r" "r \<noteq> q" "k < 512" "(r, k) \<noteq> (p, i)" for r k
        using ent [OF that(1-3)] that(4) by auto
    qed
    moreover have ran: "ran (T(child t i := None)) = ran T - {q}"
      using Some tablesD(1) [OF inv(2) Some] by (rule ran_remove)
    ultimately have "vm_inv ?s2 (T(child t i := None)) (q # ps)"
      using ps(1) by (auto simp: vm_inv_def)
    moreover have "q \<in> ran T" using Some by (rule ranI)
    then have "set (q # ps) \<union> ran (T(child t i := None)) = U"
      using ps(2) unfolding ran by auto
    ultimately have "holds ?s2 (T(child t i := None)) U" by (auto simp: holds_def)
    moreover have "p \<in> U" using ranI [of T t] assms(2) ps(2) by auto
    then have "heap_within U s ?s2"
      using heap_within_set_entry [of U s s q 0 "free_memory s"] \<open>q \<in> ran T\<close> ps(2) assms(4)
      by (intro heap_within_set_entry) (auto simp: st64_set_entry)
    ultimately show ?thesis using run by (intro exI [of _ ?s2]) simp
  qed
qed

text \<open>Clearing a run of entries removes the positions behind them, one after the other.\<close>

lemma free_entries_hold:
  assumes "holds s T U" "T t = Some p" "inner t"
    "\<And>i t1. t1 \<noteq> Pgd \<Longrightarrow> parent t1 = child t i \<Longrightarrow> T t1 = None"
  shows "\<exists>s'. for_each [0..<512] (\<lambda>i. free_entry p i) s = Inr ((), s') \<and> heap_within U s s'
     \<and> holds s' (T |` (- child t ` {..<512})) U"
proof -
  let ?I = "\<lambda>is s'. heap_within U s s' \<and> holds s' (T |` (- child t ` set is)) U"
  have not_self: "t \<notin> child t ` A" for A
    using inner_child(3) [OF assms(3)] by (metis imageE)
  have "\<exists>s'. for_each [0..<512] (\<lambda>i. free_entry p i) s = Inr ((), s') \<and> ?I [0..<512] s'"
  proof (rule for_each_invariant)
    show "?I [] s" using assms(1) by simp
    fix ds i s' assume I: "?I ds s'" and "i \<in> set [0..<512]"
    then have "\<exists>s''. free_entry p i s' = Inr ((), s'') \<and> heap_within U s' s''
        \<and> holds s'' ((T |` (- child t ` set ds))(child t i := None)) U"
      using assms(2-4) not_self by (intro free_entry_holds) (auto simp: restrict_map_def)
    moreover have "(T |` (- child t ` set ds))(child t i := None) = T |` (- child t ` set (ds @ [i]))"
      by (auto simp: restrict_map_def)
    ultimately show "\<exists>s''. free_entry p i s' = Inr ((), s'') \<and> ?I (ds @ [i]) s''"
      using I heap_within_same by metis
  qed
  then show ?thesis by (simp add: atLeast0LessThan)
qed

lemma free_pmd_holds:
  assumes "holds s T U" "T Pgd = Some pgd"
  shows "\<exists>s'. free_pmd pgd s = Inr ((), s') \<and> heap_within U s s' \<and> holds s' (T |` {t. inner t}) U"
proof -
  let ?R = "\<lambda>is. {Pmd i j | i j. i \<in> set is}"
  let ?I = "\<lambda>is s'. heap_within U s s' \<and> holds s' (T |` (- ?R is)) U"
  let ?body = "\<lambda>i s. if entry (mem s) pgd i AND ENTRY_V \<noteq> 0 then
       (let pud = P2V (PDE_ADDR (entry (mem s) pgd i)) in
        for_each [0..<512] (\<lambda>j. free_entry pud j) s) else Inr ((), s)"
  have Tbl: "tables (mem s) (kernel_end s) T" using assms(1) by (auto simp: holds_def vm_inv_def)
  have "\<exists>s'. for_each [0..<512] ?body s = Inr ((), s') \<and> ?I [0..<512] s'"
  proof (rule for_each_invariant)
    show "?I [] s" using assms(1) by simp
    fix ds i s' assume I: "?I ds s'" and "i \<in> set [0..<512]"
    then have i: "i < 512" by simp
    let ?T = "T |` (- ?R ds)"
    have "tables (mem s') (kernel_end s') ?T" using I by (auto simp: holds_def vm_inv_def)
    then have pts: "points_to (mem s') pgd i (T (Pud i))"
      using tablesD(3) [of "mem s'" "kernel_end s'" ?T Pgd pgd i] assms(2) i by (simp add: restrict_map_def)
    show "\<exists>s''. ?body i s' = Inr ((), s'') \<and> ?I (ds @ [i]) s''"
    proof (cases "T (Pud i)")
      case None
      have "T (Pmd i j) = None" for j
        using tablesD(4) [OF Tbl, of "Pmd i j"] None by (cases "T (Pmd i j)") auto
      then have "(T |` (- ?R (ds @ [i]))) t = ?T t" for t
        by (cases t) (auto simp: restrict_map_def)
      then have "T |` (- ?R (ds @ [i])) = ?T" by (rule ext)
      with I None pts show ?thesis by (intro exI [of _ s']) (simp add: points_to_def)
    next
      case (Some q)
      have "\<exists>s''. for_each [0..<512] (\<lambda>j. free_entry q j) s' = Inr ((), s'') \<and> heap_within U s' s''
          \<and> holds s'' (?T |` (- child (Pud i) ` {..<512})) U"
      proof (rule free_entries_hold)
        show "holds s' ?T U" using I by simp
        show "?T (Pud i) = Some q" using Some by (simp add: restrict_map_def)
        fix j t1 assume "t1 \<noteq> Pgd" "parent t1 = child (Pud i) j"
        then show "?T t1 = None" by (cases t1) auto
      qed simp
      then obtain s'' where s'': "for_each [0..<512] (\<lambda>j. free_entry q j) s' = Inr ((), s'')"
        "heap_within U s' s''" "holds s'' (?T |` (- child (Pud i) ` {..<512})) U" by blast
      have "heap_within U s s''" using I s''(2) heap_within_same by blast
      moreover have "?T |` (- child (Pud i) ` {..<512}) = T |` (- ?R (ds @ [i]))"
      proof
        fix t
        show "(?T |` (- child (Pud i) ` {..<512})) t = (T |` (- ?R (ds @ [i]))) t"
          using tablesD(5) [OF Tbl, of t] by (cases t; cases "T t") (auto simp: restrict_map_def)
      qed
      then have "holds s'' (T |` (- ?R (ds @ [i]))) U" using s''(3) by (simp only:)
      moreover have "?body i s' = Inr ((), s'')"
        using pts Some s''(1) by (simp add: points_to_def Let_def)
      ultimately show ?thesis by blast
    qed
  qed
  moreover have "T |` (- ?R [0..<512]) = T |` {t. inner t}"
  proof
    fix t
    show "(T |` (- ?R [0..<512])) t = (T |` {t. inner t}) t"
    proof (cases t)
      case (Pmd i j)
      show ?thesis
      proof (cases "T t")
        case (Some q)
        then obtain p where "T (Pud i) = Some p" using tablesD(4) [OF Tbl] Pmd by fastforce
        then have "i < 512" using tablesD(5) [OF Tbl, of "Pud i"] by simp
        with Pmd show ?thesis by (simp add: restrict_map_def)
      qed (auto simp: restrict_map_def)
    qed (auto simp: restrict_map_def)
  qed
  ultimately show ?thesis unfolding free_pmd_def by simp
qed

lemma free_pud_holds:
  assumes "holds s T U" "T Pgd = Some pgd" "\<And>i j. T (Pmd i j) = None"
  shows "\<exists>s'. free_pud pgd s = Inr ((), s') \<and> heap_within U s s' \<and> holds s' [Pgd \<mapsto> pgd] U"
proof -
  have T: "tables (mem s) (kernel_end s) T" using assms(1) by (auto simp: holds_def vm_inv_def)
  have "\<exists>s'. for_each [0..<512] (\<lambda>i. free_entry pgd i) s = Inr ((), s') \<and> heap_within U s s'
     \<and> holds s' (T |` (- child Pgd ` {..<512})) U"
  proof (rule free_entries_hold [OF assms(1,2)])
    fix i t1 assume "t1 \<noteq> Pgd" "parent t1 = child Pgd i"
    then show "T t1 = None" using assms(3) by (cases t1) auto
  qed simp
  moreover have "T |` (- child Pgd ` {..<512}) = [Pgd \<mapsto> pgd]"
  proof
    fix t
    show "(T |` (- child Pgd ` {..<512})) t = [Pgd \<mapsto> pgd] t"
      using assms(2,3) tablesD(5) [OF T, of t] by (cases t; cases "T t") (auto simp: restrict_map_def)
  qed
  ultimately show ?thesis by (simp add: free_pud_def)
qed

text \<open>The page that a block entry maps.\<close>

definition mapped_page :: "u64 \<Rightarrow> u64" where
  "mapped_page e = P2V (PTE_ADDR e)"

text \<open>The page mapped at \<open>v\<close>, if any, is an allocated heap page outside the tables.\<close>

definition leaf_owned :: "'a heap_scheme \<Rightarrow> table_map \<Rightarrow> u64 list \<Rightarrow> u64 \<Rightarrow> bool" where
  "leaf_owned s T ps v \<longleftrightarrow> (bit (leaf (mem s) T v) 0 \<longrightarrow>
     page_ok (kernel_end s) (mapped_page (leaf (mem s) T v))
     \<and> mapped_page (leaf (mem s) T v) \<notin> ran T \<union> set ps)"

definition leaf_pages :: "memory \<Rightarrow> table_map \<Rightarrow> u64 \<Rightarrow> u64 list" where
  "leaf_pages m T v = (if bit (leaf m T v) 0 then [mapped_page (leaf m T v)] else [])"

lemma free_page_unmaps:
  assumes "vm_inv s T ps" "T Pgd = Some pgd" "v mod PAGE_SIZE = 0" "leaf_owned s T ps v"
  shows "\<exists>s'. free_page pgd v s = Inr ((), s') \<and> heap_within (ran T \<union> set (leaf_pages (mem s) T v)) s s'
     \<and> vm_inv s' T (leaf_pages (mem s) T v @ ps)
     \<and> (\<forall>w. leaf (mem s') T w = (if same_slot v w \<and> bit (leaf (mem s) T v) 0 then 0 else leaf (mem s) T w))"
proof (cases "T (pmd_of v)")
  case None
  then have "leaf (mem s) T v = 0" by (simp add: leaf_def)
  moreover have "free_page pgd v s = Inr ((), s)"
    using find_pud_entry_none [OF assms(1,2) None, of 0 0] assms(3) by (simp add: free_page_def)
  ultimately show ?thesis using assms(1) by (intro exI [of _ s]) (simp add: leaf_pages_def)
next
  case (Some q)
  have "q \<noteq> 0" using tablesD(2) [OF vm_invD(2) [OF assms(1)] Some] page_ok_bounds(4) by blast
  have lf: "leaf (mem s) T v = entry (mem s) q (pmd_index v)" using Some by (simp add: leaf_def)
  note walk = find_pud_entry_hit [OF assms(1,2) Some, of 0 0]
  show ?thesis
  proof (cases "bit (leaf (mem s) T v) 0")
    case False
    then have "free_page pgd v s = Inr ((), s)"
      using walk assms(3) \<open>q \<noteq> 0\<close> valid_bit [of "leaf (mem s) T v"]
      by (simp add: free_page_def lf Let_def)
    with False assms(1) show ?thesis by (intro exI [of _ s]) (simp add: leaf_pages_def)
  next
    case True
    let ?p = "mapped_page (leaf (mem s) T v)"
    from True assms(4) have p: "page_ok (kernel_end s) ?p" "?p \<notin> set ps" "?p \<notin> ran T"
      by (simp_all add: leaf_owned_def)
    obtain s1 where s1: "kfree ?p s = Inr ((), s1)" "heap_within {?p} s s1" "vm_inv s1 T (?p # ps)"
      and ent: "\<And>t r i. T t = Some r \<Longrightarrow> i < 512 \<Longrightarrow> entry (mem s1) r i = entry (mem s) r i"
      using kfree_beside_tables [OF assms(1) p] by blast
    have lf1: "leaf (mem s1) T w = leaf (mem s) T w" for w
      using ent by (simp add: leaf_def split: option.split)
    let ?s2 = "s1\<lparr>mem := set_entry (mem s1) q (pmd_index v) 0\<rparr>"
    have "free_page pgd v s = Inr ((), ?s2)"
      using walk assms(3) \<open>q \<noteq> 0\<close> True valid_bit [of "leaf (mem s) T v"] s1(1)
      by (simp add: free_page_def lf Let_def mapped_page_def)
    moreover have "heap_within (ran T \<union> set (leaf_pages (mem s) T v)) s ?s2"
      using ranI [of T "pmd_of v"] Some True
      by (intro heap_within_set_entry heap_within_mono [OF s1(2)]) (simp_all add: leaf_pages_def)
    ultimately show ?thesis
      using set_leaf [OF s1(3) Some, of 0] True lf1
      by (intro exI [of _ ?s2]) (simp add: leaf_pages_def)
  qed
qed

text \<open>
  Teardown of an address space gives every page back: the mapped page at 0x400000, all
  tables of both levels and the root.
\<close>

lemma free_vm_returns_pages:
  assumes "vm_inv s T ps" "T Pgd = Some pgd" "leaf_owned s T ps 0x400000"
  shows "\<exists>s' ps'. free_vm pgd s = Inr ((), s') \<and> heap_within (set ps \<union> ran T \<union> set (leaf_pages (mem s) T 0x400000)) s s' \<and> heap_inv s' ps'
     \<and> set ps' = set ps \<union> ran T \<union> set (leaf_pages (mem s) T 0x400000)"
proof -
  have "(0x400000 :: u64) mod PAGE_SIZE = 0" by (simp add: PAGE_SIZE_def)
  then obtain s1 where s1: "free_page pgd 0x400000 s = Inr ((), s1)"
    "heap_within (ran T \<union> set (leaf_pages (mem s) T 0x400000)) s s1"
    "vm_inv s1 T (leaf_pages (mem s) T 0x400000 @ ps)"
    using free_page_unmaps [OF assms(1,2) _ assms(3)] by auto
  define U where "U = set ps \<union> ran T \<union> set (leaf_pages (mem s) T 0x400000)"
  have "holds s1 T U" using s1(3) by (auto simp: holds_def U_def)
  then obtain s2 where s2: "free_pmd pgd s1 = Inr ((), s2)" "heap_within U s1 s2" "holds s2 (T |` {t. inner t}) U"
    using free_pmd_holds assms(2) by blast
  obtain s3 where s3: "free_pud pgd s2 = Inr ((), s3)" "heap_within U s2 s3" "holds s3 [Pgd \<mapsto> pgd] U"
    using free_pud_holds [OF s2(3)] assms(2) by (auto simp: restrict_map_def)
  then obtain qs where qs: "vm_inv s3 [Pgd \<mapsto> pgd] qs" "insert pgd (set qs) = U"
    by (auto simp: holds_def)
  have pgd: "page_ok (kernel_end s3) pgd" "pgd \<notin> set qs"
    using tablesD(2) [OF vm_invD(2) [OF qs(1)], of Pgd] vm_invD(3) [OF qs(1), of Pgd] by simp_all
  let ?s4 = "s3\<lparr>mem := st64 (mem s3) pgd (free_memory s3), free_memory := pgd\<rparr>"
  note free = kfree_page [OF vm_invD(1) [OF qs(1)] pgd]
  have "free_vm pgd s = Inr ((), ?s4)"
    using s1(1) s2(1) s3(1) free(1) by (simp add: free_vm_def free_pgd_def)
  moreover have "heap_within U s s3"
    by (rule heap_within_join [OF s1(2) heap_within_trans [OF s2(2) s3(2)]]) (auto simp: U_def)
  then have "heap_within U s ?s4"
    using heap_within_set_entry [of U s s3 pgd 0 "free_memory s3"] qs(2) by (auto simp: st64_set_entry)
  moreover have "set (pgd # qs) = U" using qs(2) by simp
  ultimately show ?thesis using free(2) unfolding U_def by blast
qed

section \<open>A new root table\<close>

text \<open>
  How \<open>alloc_new_process\<close> makes a \<open>page_map\<close>: a page off the free list, cleared. It is an
  address space that maps nothing.
\<close>

lemma new_page_map:
  assumes "heap_inv s (p # ps)"
  defines "s' \<equiv> s\<lparr>free_memory := ld64 (mem s) p, mem := memset (mem s) p 0 (ucast PAGE_SIZE)\<rparr>"
  shows "vm_inv s' [Pgd \<mapsto> p] ps" "leaf (mem s') [Pgd \<mapsto> p] v = 0"
proof -
  have p: "page_ok (kernel_end s) p" "p \<notin> set ps" using assms(1) by (auto simp: heap_inv_def)
  have "heap_inv s' ps"
    using heap_inv_memset [OF kalloc_Cons(2) [OF assms(1)], of p] p by (simp add: s'_def)
  moreover have "tables (mem s') (kernel_end s) [Pgd \<mapsto> p]"
    unfolding tables_def points_to_def using p
    by (auto simp: s'_def entry_memset split: if_splits)
  ultimately show "vm_inv s' [Pgd \<mapsto> p] ps" using p by (simp add: vm_inv_def s'_def)
  show "leaf (mem s') [Pgd \<mapsto> p] v = 0" by (simp add: leaf_def)
qed

section \<open>Giving an address space its user page\<close>

text \<open>A page taken off the free list and cleared while an address space exists.\<close>

lemma alloc_beside_tables:
  assumes "vm_inv s T (q # ps)"
  defines "s' \<equiv> s\<lparr>free_memory := ld64 (mem s) q, mem := memset (mem s) q 0 (ucast PAGE_SIZE)\<rparr>"
  shows "kalloc s = Inr (q, s\<lparr>free_memory := ld64 (mem s) q\<rparr>)" "vm_inv s' T ps"
    "leaf (mem s') T v = leaf (mem s) T v" "page_ok (kernel_end s) q" "q \<notin> ran T" "q \<notin> set ps"
proof -
  note inv = vm_invD [OF assms(1)]
  show "kalloc s = Inr (q, s\<lparr>free_memory := ld64 (mem s) q\<rparr>)" by (rule kalloc_Cons [OF inv(1)])
  show q: "page_ok (kernel_end s) q" "q \<notin> ran T" "q \<notin> set ps"
    using assms(1) by (auto simp: vm_inv_def heap_inv_def)
  have ent: "entry (mem s') p i = entry (mem s) p i" if "T t = Some p" "i < 512" for t p i
  proof -
    have "p \<noteq> q" using q(2) that(1) by (auto simp: ran_def)
    then show ?thesis
      using entry_memset [OF tablesD(2) [OF inv(2) that(1)] q(1) that(2)] by (simp add: s'_def)
  qed
  have "heap_inv s' ps"
    using heap_inv_memset [OF kalloc_Cons(2) [OF inv(1)], of q] q by (simp add: s'_def)
  moreover have "tables (mem s') (kernel_end s) T"
    by (intro tables_cong [OF inv(2)] ent)
  moreover have "kernel_end s' = kernel_end s" by (simp add: s'_def)
  ultimately show "vm_inv s' T ps" using assms(1) by (auto simp: vm_inv_def)
  show "leaf (mem s') T v = leaf (mem s) T v"
    using ent by (simp add: leaf_def split: option.split)
qed

text \<open>The attributes \<open>setup_uvm\<close> and \<open>copy_uvm\<close> map the user page with.\<close>

definition user_attributes :: u64 where
  "user_attributes = ENTRY_V OR USER OR NORMAL_MEMORY OR ENTRY_ACCESSED"

lemma user_attributes_ok: "attribute_ok user_attributes" "PTE_ADDR user_attributes = 0"
  by (simp_all add: attribute_ok_def user_attributes_def entry_defs)

lemma map_page_pre_user:
  assumes "page_ok e q"
  shows "map_page_pre 0x400000 (V2P q) user_attributes"
proof -
  note b = page_ok_bounds [OF assms]
  have "KERNEL_BASE \<le> q" using b(1) by (simp add: word_le_nat_alt)
  then have u: "unat (V2P q) = unat q - 18446462598732840960"
    by (simp add: V2P_def unat_sub)
  have "2097152 dvd unat (V2P q)" unfolding u using b(3) by (rule dvd_diff_nat) simp
  then have "V2P q mod PAGE_SIZE = 0"
    by (simp add: word_unat_eq_iff unat_mod mod_eq_0_iff_dvd)
  moreover have "unat (V2P q + PAGE_SIZE) = unat (V2P q) + 2097152"
    using b(2) unfolding u by (subst unat_add_small) (simp_all add: u)
  then have "V2P q + PAGE_SIZE \<le> V2P HEAP_MEMORY_END"
    using b(2) by (simp add: word_le_nat_alt u HEAP_MEMORY_END_def)
  moreover have "PA_DOWN 0x400000 + PAGE_SIZE < HEAP_MEMORY_END"
    by (simp add: addr_defs)
  ultimately show ?thesis by (simp add: map_page_pre_def user_attributes_ok)
qed

lemma mapped_page_user:
  "page_ok e q \<Longrightarrow> mapped_page (V2P q OR user_attributes OR BLOCK_ENTRY) = q"
  by (simp add: mapped_page_def PTE_ADDR_block user_attributes_ok)

lemma user_block_valid: "bit (V2P q OR user_attributes OR BLOCK_ENTRY) 0"
  using attribute_valid [OF user_attributes_ok(1)] by (simp only: valid_bit)

text \<open>Mapping that page at 0x400000: on success the space owns it, on failure nothing is mapped.\<close>

lemma map_user_page:
  assumes "vm_inv s T ps" "T Pgd = Some pgd" "\<not> bit (leaf (mem s) T 0x400000) 0"
    "page_ok (kernel_end s) q" "q \<notin> ran T" "q \<notin> set ps"
  shows "\<exists>r s' T' ps'. map_page pgd 0x400000 (V2P q) user_attributes s = Inr (r, s')
     \<and> heap_within (set ps \<union> ran T) s s' \<and> vm_inv s' T' ps' \<and> T \<subseteq>\<^sub>m T' \<and> set ps' \<union> ran T' = set ps \<union> ran T
     \<and> (2 \<le> length ps \<longrightarrow> r) \<and> leaf_owned s' T' ps' 0x400000 \<and> dom T' \<subseteq> dom T \<union> table_path 0x400000
     \<and> leaf_pages (mem s') T' 0x400000 = (if r then [q] else [])
     \<and> (r \<longrightarrow> T' (pmd_of 0x400000) \<noteq> None
           \<and> leaf (mem s') T' 0x400000 = V2P q OR user_attributes OR BLOCK_ENTRY)
     \<and> (\<forall>w. \<not> same_slot 0x400000 w \<longrightarrow> leaf (mem s') T' w = leaf (mem s) T w)"
proof -
  obtain r s' T' us ps' where m: "map_page pgd 0x400000 (V2P q) user_attributes s = Inr (r, s')"
    "heap_within (set ps \<union> ran T) s s'" "vm_inv s' T' ps'" "T \<subseteq>\<^sub>m T'" "ps = us @ ps'" "ran T' = ran T \<union> set us"
    "r \<longrightarrow> T' (pmd_of 0x400000) \<noteq> None" "2 \<le> length ps \<longrightarrow> r" "dom T' \<subseteq> dom T \<union> table_path 0x400000"
    and lf: "\<And>w. leaf (mem s') T' w = (if r \<and> same_slot 0x400000 w
        then V2P q OR user_attributes OR BLOCK_ENTRY else leaf (mem s) T w)"
    using map_page_maps [OF assms(1,2) map_page_pre_user [OF assms(4)] assms(3)] by auto
  have l: "leaf (mem s') T' 0x400000 =
      (if r then V2P q OR user_attributes OR BLOCK_ENTRY else leaf (mem s) T 0x400000)"
    using lf [of "0x400000"] by (simp add: same_slot_def)
  have pages: "leaf_pages (mem s') T' 0x400000 = (if r then [q] else [])"
    using assms(3) mapped_page_user [OF assms(4)] user_block_valid [of q]
    by (simp add: leaf_pages_def l)
  have "q \<notin> ran T' \<union> set ps'" using assms(5,6) m(5,6) by auto
  then have "leaf_owned s' T' ps' 0x400000"
    using assms(3,4) mapped_page_user [OF assms(4)] heap_step_kernel_end [OF heap_withinD(1) [OF m(2)]]
    by (simp add: leaf_owned_def l)
  moreover have "\<forall>w. \<not> same_slot 0x400000 w \<longrightarrow> leaf (mem s') T' w = leaf (mem s) T w" by (simp add: lf)
  ultimately show ?thesis using m(1-4,5-9) l pages
    by (intro exI [of _ r] exI [of _ s'] exI [of _ T'] exI [of _ ps']) auto
qed

section \<open>Properties\<close>

text \<open>The entry the kernel's own walk finds for an address, 0 where the walk ends early.\<close>

definition translate :: "u64 \<Rightarrow> u64 \<Rightarrow> 'a heap_scheme \<Rightarrow> u64" where
  "translate pgd v s = (case find_pud_entry pgd v 0 0 s of
     Inl h \<Rightarrow> 0
   | Inr (ptr, s') \<Rightarrow> if ptr = 0 then 0 else entry (mem s') ptr (pmd_index v))"

lemma translate_leaf:
  assumes "vm_inv s T ps" "T Pgd = Some pgd"
  shows "translate pgd v s = leaf (mem s) T v"
proof (cases "T (pmd_of v)")
  case None
  then show ?thesis
    using find_pud_entry_none [OF assms, of v 0 0] by (simp add: translate_def leaf_def)
next
  case (Some q)
  then have "q \<noteq> 0"
    using tablesD(2) [OF vm_invD(2) [OF assms(1)]] page_ok_bounds(4) by blast
  then show ?thesis
    using find_pud_entry_hit [OF assms Some, of 0 0] Some by (simp add: translate_def leaf_def)
qed

text \<open>A small machine to exercise the properties: an empty address space and three free pages.\<close>

lemma small_space:
  "\<exists>s::heap. kernel_end s = 0xffff000000200000 \<and> (\<forall>v. leaf (mem s) [Pgd \<mapsto> 0xffff000000400000] v = 0)
     \<and> vm_inv s [Pgd \<mapsto> 0xffff000000400000]
          [0xffff000000600000, 0xffff000000800000, 0xffff000000a00000]"
proof -
  obtain s :: heap where s: "kernel_end s = 0xffff000000200000" "heap_inv s
      [0xffff000000400000, 0xffff000000600000, 0xffff000000800000, 0xffff000000a00000]"
    using heap_with_pages [of "[0xffff000000400000, 0xffff000000600000, 0xffff000000800000,
      0xffff000000a00000]" "0xffff000000200000" "()"]
    by (auto simp: page_ok_def addr_defs)
  show ?thesis
    using new_page_map [OF s(2)] s(1)
    by (intro exI [of _ "s\<lparr>free_memory := ld64 (mem s) 0xffff000000400000,
      mem := memset (mem s) 0xffff000000400000 0 (ucast PAGE_SIZE)\<rparr>"]) simp
qed

text \<open>
  Property C13: on well-formed tables and an unmapped address, \<open>map_page\<close> under its
  assertions returns; reporting success, it has changed the translation of that address
  (and of the addresses in the same 2MB page) to the requested block and of no other;
  reporting failure, it has changed no translation; and it fails only with fewer than two
  free pages. Tables stay well formed and no page is lost.
\<close>

theorem map_page_changes_one_translation:
  assumes "vm_inv s T ps" "T Pgd = Some pgd" "map_page_pre v pa a" "\<not> bit (translate pgd v s) 0"
  shows "\<exists>r s' T' ps'. map_page pgd v pa a s = Inr (r, s') \<and> vm_inv s' T' ps' \<and> T' Pgd = Some pgd
     \<and> set ps' \<union> ran T' = set ps \<union> ran T \<and> (2 \<le> length ps \<longrightarrow> r)
     \<and> (\<forall>w. translate pgd w s' =
           (if r \<and> same_slot v w then pa OR a OR BLOCK_ENTRY else translate pgd w s))"
proof -
  have "\<not> bit (leaf (mem s) T v) 0" using assms(4) translate_leaf [OF assms(1,2)] by simp
  from map_page_maps [OF assms(1-3) this] obtain r s' T' us ps'
    where m: "map_page pgd v pa a s = Inr (r, s')" "vm_inv s' T' ps'" "T \<subseteq>\<^sub>m T'" "ps = us @ ps'"
      "ran T' = ran T \<union> set us" "2 \<le> length ps \<longrightarrow> r"
      "\<forall>w. leaf (mem s') T' w = (if r \<and> same_slot v w then pa OR a OR BLOCK_ENTRY else leaf (mem s) T w)"
    by blast
  have "T' Pgd = Some pgd" using m(3) assms(2) by (metis map_le_def domI)
  with m show ?thesis
    by (intro exI [of _ r] exI [of _ s'] exI [of _ T'] exI [of _ ps'])
      (auto simp: translate_leaf [OF assms(1,2)] translate_leaf [OF m(2)])
qed

lemma map_page_changes_one_translation_witness:
  "\<exists>(s::heap) s'. map_page 0xffff000000400000 0x400000 0x600000 user_attributes s = Inr (True, s')
     \<and> translate 0xffff000000400000 0x5fffff s' = 0x600445
     \<and> translate 0xffff000000400000 0x600000 s' = 0"
proof -
  obtain s :: heap where s: "vm_inv s [Pgd \<mapsto> 0xffff000000400000]
       [0xffff000000600000, 0xffff000000800000, 0xffff000000a00000]"
     "\<forall>v. leaf (mem s) [Pgd \<mapsto> 0xffff000000400000] v = 0"
    using small_space by blast
  have t: "translate 0xffff000000400000 v s = 0" for v
    using translate_leaf [OF s(1)] s(2) by simp
  have pre: "map_page_pre 0x400000 0x600000 user_attributes"
    by (simp add: map_page_pre_def user_attributes_ok addr_defs)
  have "same_slot 0x400000 0x5fffff" "\<not> same_slot 0x400000 0x600000"
    by (simp_all add: same_slot_def pgd_index_def pud_index_def pmd_index_def)
  moreover have "0x600000 OR user_attributes OR BLOCK_ENTRY = 0x600445"
    by (simp add: user_attributes_def entry_defs)
  ultimately show ?thesis
    using map_page_changes_one_translation [OF s(1) _ pre] t by fastforce
qed

text \<open>
  Property C12: \<open>free_vm\<close> on well-formed tables returns, without hitting an assertion of
  \<open>kfree\<close>, and leaves on the free list exactly the pages that were free before, the page
  mapped at 0x400000 and every page that held a table, each once.
\<close>

theorem free_vm_frees_every_page:
  assumes "vm_inv s T ps" "T Pgd = Some pgd" "leaf_owned s T ps 0x400000"
  shows "\<exists>s' ps'. free_vm pgd s = Inr ((), s') \<and> heap_inv s' ps' \<and> distinct ps'
     \<and> set ps' = set ps \<union> ran T \<union> set (leaf_pages (mem s) T 0x400000)"
  using free_vm_returns_pages [OF assms] by (auto simp: heap_inv_def)

lemma free_vm_frees_every_page_witness:
  "\<exists>(s::heap) s' ps'. map_page 0xffff000000400000 0x400000 (V2P 0xffff000000600000) user_attributes s
       = Inr (True, s')
     \<and> (\<exists>s''. free_vm 0xffff000000400000 s' = Inr ((), s'') \<and> heap_inv s'' ps' \<and> distinct ps'
       \<and> set ps' = {0xffff000000400000, 0xffff000000600000, 0xffff000000800000, 0xffff000000a00000})"
proof -
  let ?T = "[Pgd \<mapsto> 0xffff000000400000] :: table_map"
  obtain s0 :: heap where s0: "vm_inv s0 ?T (0xffff000000600000 # [0xffff000000800000, 0xffff000000a00000])"
     "\<forall>v. leaf (mem s0) ?T v = 0"
    using small_space by blast
  note a = alloc_beside_tables [OF s0(1)]
  let ?s = "s0\<lparr>free_memory := ld64 (mem s0) 0xffff000000600000,
     mem := memset (mem s0) 0xffff000000600000 0 (ucast PAGE_SIZE)\<rparr>"
  have "\<not> bit (leaf (mem ?s) ?T 0x400000) 0" using a(3) s0(2) by simp
  moreover have "page_ok (kernel_end ?s) 0xffff000000600000" using a(4) by simp
  ultimately obtain r s' T' ps' where m:
    "map_page 0xffff000000400000 0x400000 (V2P 0xffff000000600000) user_attributes ?s = Inr (r, s')"
    "vm_inv s' T' ps'" "?T \<subseteq>\<^sub>m T'" "leaf_owned s' T' ps' 0x400000"
    "leaf_pages (mem s') T' 0x400000 = (if r then [0xffff000000600000] else [])"
    "set ps' \<union> ran T' = set [0xffff000000800000, 0xffff000000a00000] \<union> ran ?T"
    "2 \<le> length [0xffff000000800000, 0xffff000000a00000 :: u64] \<longrightarrow> r"
    using map_user_page [OF a(2), of "0xffff000000400000" "0xffff000000600000"] a(5,6) by auto
  then have r: "r" by simp
  have "T' Pgd = Some 0xffff000000400000" using m(3) by (auto simp: map_le_def)
  from free_vm_frees_every_page [OF m(2) this m(4)] obtain s'' ps'' where
    "free_vm 0xffff000000400000 s' = Inr ((), s'')" "heap_inv s'' ps''" "distinct ps''"
    "set ps'' = set ps' \<union> ran T' \<union> {0xffff000000600000}"
    using m(5) r by auto
  with m(1,6) r show ?thesis by (intro exI [of _ ?s] exI [of _ s'] exI [of _ ps'']) auto
qed

end
