(* ===== verification/Access.thy ===== *)
theory Access
  imports Paging
begin

text \<open>
  The memory the kernel sees: heap pages and the disk image through the direct map above
  \<open>KERNEL_BASE\<close>, user buffers through the tables that \<open>switch_vm\<close> (utils/memory.c) has put
  into the translation register. Copies and fills of the kernel to either are described
  here, with the lemmas that resolve a whole buffer at once.
\<close>

section \<open>The translation register and user addresses\<close>

text \<open>
  \<open>ttbr0\<close> is the user translation register. Device registers are memory mapped: \<open>io_in r k\<close> is
  what the \<open>k\<close>-th read of register \<open>r\<close> gives, which is up to the device, \<open>io_n r\<close> how often it has
  been read, and \<open>io_out\<close> the sequence of all writes.
\<close>

record machine = heap +
  ttbr0 :: u64
  io_in :: "u64 \<Rightarrow> nat \<Rightarrow> u32"
  io_n :: "u64 \<Rightarrow> nat"
  io_out :: "(u64 \<times> u32) list"

definition inw :: "u64 \<Rightarrow> 'a machine_scheme \<Rightarrow> u32 \<times> 'a machine_scheme" where
  "inw reg s = (io_in s reg (io_n s reg), s\<lparr>io_n := (io_n s)(reg := Suc (io_n s reg))\<rparr>)"

definition outw :: "u64 \<Rightarrow> u32 \<Rightarrow> 'a machine_scheme \<Rightarrow> 'a machine_scheme" where
  "outw reg value s = s\<lparr>io_out := io_out s @ [(reg, value)]\<rparr>"

definition switch_vm :: "u64 \<Rightarrow> 'a machine_scheme \<Rightarrow> (unit, 'a machine_scheme) outcome" where
  "switch_vm pgd s = Inr ((), s\<lparr>ttbr0 := V2P pgd\<rparr>)"

definition read_pgd :: "'a machine_scheme \<Rightarrow> u64" where
  "read_pgd s = ttbr0 s"

text \<open>
  Where the \<open>n\<close> bytes at \<open>v\<close> are in the direct map. Kernel addresses are mapped directly; \<open>TCR_VALUE\<close> of
  mmu.s gives user addresses 48 bits, and a user buffer has to lie in one mapped 2MB page, as no process
  has a second one.
\<close>

definition kaddr :: "'a machine_scheme \<Rightarrow> u64 \<Rightarrow> nat \<Rightarrow> u64 option" where
  "kaddr s v n =
     (if KERNEL_BASE \<le> v then Some v
      else if 2 ^ 48 \<le> v then None
      else let e = translate (P2V (ttbr0 s)) v s in
        if e AND ENTRY_V \<noteq> 0 \<and> unat (v mod PAGE_SIZE) + n \<le> unat PAGE_SIZE
        then Some (P2V (PTE_ADDR e) + v mod PAGE_SIZE) else None)"

definition copy_to :: "u64 \<Rightarrow> u64 \<Rightarrow> u32 \<Rightarrow> 'a machine_scheme \<Rightarrow> (unit, 'a machine_scheme) outcome" where
  "copy_to dst src n s =
     (if n = 0 then Inr ((), s)
      else case kaddr s dst (unat n) of
        None \<Rightarrow> Inl Page_fault
      | Some d \<Rightarrow> Inr ((), s\<lparr>mem := memcpy (mem s) d src n\<rparr>))"

definition fill_to :: "u64 \<Rightarrow> u32 \<Rightarrow> u32 \<Rightarrow> 'a machine_scheme \<Rightarrow> (unit, 'a machine_scheme) outcome" where
  "fill_to dst v n s =
     (if n = 0 then Inr ((), s)
      else case kaddr s dst (unat n) of
        None \<Rightarrow> Inl Page_fault
      | Some d \<Rightarrow> Inr ((), s\<lparr>mem := memset (mem s) d v n\<rparr>))"

text \<open>The byte at a user or kernel address, as a program string is read.\<close>

definition byte_at :: "'a machine_scheme \<Rightarrow> u64 \<Rightarrow> u8 option" where
  "byte_at s v = (case kaddr s v 1 of None \<Rightarrow> None | Some a \<Rightarrow> Some (mem s a))"

lemma translate_cong: "mem s = mem t \<Longrightarrow> translate pgd v s = translate pgd v t"
  by (simp add: translate_def find_pud_entry_def find_pgd_entry_def next_table_def)

lemma kaddr_cong: "mem s = mem t \<Longrightarrow> ttbr0 s = ttbr0 t \<Longrightarrow> kaddr s v n = kaddr t v n"
  using translate_cong [of s t] by (simp add: kaddr_def)

section \<open>Resolving a buffer\<close>

text \<open>
  \<open>resolves s v d n\<close>: every part of the \<open>n\<close> byte buffer at \<open>v\<close> is at the same offset from \<open>d\<close>,
  whatever is written into the buffer itself.
\<close>

definition resolves :: "'a machine_scheme \<Rightarrow> u64 \<Rightarrow> u64 \<Rightarrow> nat \<Rightarrow> bool" where
  "resolves s v d n \<longleftrightarrow> (\<forall>m i k. (\<forall>x. \<not> in_range d n x \<longrightarrow> m x = mem s x) \<longrightarrow> i + k \<le> n \<longrightarrow> 0 < k \<longrightarrow>
     kaddr (s\<lparr>mem := m\<rparr>) (v + of_nat i) k = Some (d + of_nat i))"

lemma resolves_cong:
  assumes "mem s = mem t" "ttbr0 s = ttbr0 t"
  shows "resolves s v d n = resolves t v d n"
proof -
  have "kaddr (s\<lparr>mem := m\<rparr>) x k = kaddr (t\<lparr>mem := m\<rparr>) x k" for m x k
    by (rule kaddr_cong) (simp_all add: assms)
  then show ?thesis by (simp add: resolves_def assms)
qed

lemma resolves_kernel:
  assumes "KERNEL_BASE \<le> v" "unat v + n \<le> 2 ^ 64"
  shows "resolves s v v n"
proof -
  have "KERNEL_BASE \<le> v + of_nat i" if "i + k \<le> n" "0 < k" for i k
  proof -
    have "unat (v + of_nat i) = unat v + i" using that assms(2) by (simp add: word_arith)
    with assms(1) show ?thesis by (simp add: word_le_nat_alt)
  qed
  then show ?thesis by (simp add: resolves_def kaddr_def)
qed

lemma resolves_kaddr:
  "resolves s v d n \<Longrightarrow> i + k \<le> n \<Longrightarrow> 0 < k \<Longrightarrow> kaddr s (v + of_nat i) k = Some (d + of_nat i)"
  by (auto simp: resolves_def dest: spec [of _ "mem s"])

lemma resolves_mem:
  assumes "resolves s v d n" "\<And>x. \<not> in_range d n x \<Longrightarrow> m x = mem s x"
  shows "resolves (s\<lparr>mem := m\<rparr>) v d n"
  using assms by (simp add: resolves_def)

end
