(* ===== verification/Fat.thy ===== *)
theory Fat
  imports Access
begin

text \<open>
  The FAT16 volume of fs/fs.c as it lies in memory from \<open>FS_BASE\<close> on: the BIOS parameter
  block and directory entries decoded from their packed layout, the file allocation table,
  the look-up of an 8.3 path in the root directory and \<open>read_raw_data\<close>, with the theorem
  that it copies the requested slice of the file's cluster chain.
\<close>

section \<open>The volume in memory\<close>

record BPB =
  jump :: "u8 list"
  oem :: "u8 list"
  bytes_per_sector :: u16
  sectors_per_cluster :: u8
  reserved_sector_count :: u16
  fat_count :: u8
  root_entry_count :: u16
  sector_count :: u16
  media_type :: u8
  sectors_per_fat :: u16
  sectors_per_track :: u16
  head_count :: u16
  hidden_sector_count :: u32
  large_sector_count :: u32
  drive_number :: u8
  flags :: u8
  signature :: u8
  volume_id :: u32
  volume_label :: "u8 list"
  file_system :: "u8 list"

record DirEntry =
  name :: "u8 list"
  ext :: "u8 list"
  attributes :: u8
  reserved :: u8
  create_ms :: u8
  create_time :: u16
  create_date :: u16
  access_date :: u16
  attr_index :: u16
  m_time :: u16
  m_date :: u16
  dir_cluster :: u16
  dir_file_size :: u32

definition bytes :: "memory \<Rightarrow> u64 \<Rightarrow> nat \<Rightarrow> u8 list" where
  "bytes m a n = map (\<lambda>i. m (a + of_nat i)) [0..<n]"

definition load_BPB :: "memory \<Rightarrow> u64 \<Rightarrow> BPB" where
  "load_BPB m p = \<lparr>jump = bytes m p 3, oem = bytes m (p + 3) 8,
     bytes_per_sector = ld16 m (p + 11), sectors_per_cluster = m (p + 13),
     reserved_sector_count = ld16 m (p + 14), fat_count = m (p + 16),
     root_entry_count = ld16 m (p + 17), sector_count = ld16 m (p + 19), media_type = m (p + 21),
     sectors_per_fat = ld16 m (p + 22), sectors_per_track = ld16 m (p + 24),
     head_count = ld16 m (p + 26), hidden_sector_count = ld32 m (p + 28),
     large_sector_count = ld32 m (p + 32), drive_number = m (p + 36), flags = m (p + 37),
     signature = m (p + 38), volume_id = ld32 m (p + 39), volume_label = bytes m (p + 43) 11,
     file_system = bytes m (p + 54) 8\<rparr>"

definition load_DirEntry :: "memory \<Rightarrow> u64 \<Rightarrow> DirEntry" where
  "load_DirEntry m p = \<lparr>name = bytes m p 8, ext = bytes m (p + 8) 3, attributes = m (p + 11),
     reserved = m (p + 12), create_ms = m (p + 13), create_time = ld16 m (p + 14),
     create_date = ld16 m (p + 16), access_date = ld16 m (p + 18), attr_index = ld16 m (p + 20),
     m_time = ld16 m (p + 22), m_date = ld16 m (p + 24), dir_cluster = ld16 m (p + 26),
     dir_file_size = ld32 m (p + 28)\<rparr>"

definition FS_BASE :: u64 where "FS_BASE = P2V 0x30000000"

text \<open>\<open>lba * 512\<close> is a product of 32-bit values, so it wraps at 32 bits.\<close>

definition get_fs_bpb :: "memory \<Rightarrow> u64" where
  "get_fs_bpb m = (let lba = ld32 m (FS_BASE + 0x1be + 8) in FS_BASE + ucast (lba * 512))"

definition get_fat_table :: "memory \<Rightarrow> u64" where
  "get_fat_table m = (let p = get_fs_bpb m;
     offset = ucast (reserved_sector_count (load_BPB m p)) * ucast (bytes_per_sector (load_BPB m p)) :: u32
   in p + ucast offset)"

definition get_cluster_value :: "memory \<Rightarrow> u32 \<Rightarrow> u16" where
  "get_cluster_value m cluster_index = ld16 m (get_fat_table m + 2 * ucast cluster_index)"

definition get_cluster_offset :: "memory \<Rightarrow> u32 \<Rightarrow> halt + u32" where
  "get_cluster_offset m index =
     (if \<not> 2 \<le> index then Inl Assert_failed
      else let p = load_BPB m (get_fs_bpb m);
        res_size = ucast (reserved_sector_count p) * ucast (bytes_per_sector p);
        fat_size = ucast (fat_count p) * ucast (sectors_per_fat p) * ucast (bytes_per_sector p);
        dir_size = ucast (root_entry_count p) * 32
      in Inr (res_size + fat_size + dir_size +
           (index - 2) * (ucast (sectors_per_cluster p) * ucast (bytes_per_sector p))))"

definition get_cluster_size :: "memory \<Rightarrow> u32" where
  "get_cluster_size m = (let bpb = load_BPB m (get_fs_bpb m) in
     ucast (bytes_per_sector bpb) * ucast (sectors_per_cluster bpb))"

definition get_root_directory_count :: "memory \<Rightarrow> u32" where
  "get_root_directory_count m = ucast (root_entry_count (load_BPB m (get_fs_bpb m)))"

definition get_root_directory :: "memory \<Rightarrow> u64" where
  "get_root_directory m = (let p = get_fs_bpb m; b = load_BPB m p;
     offset = (ucast (reserved_sector_count b) + ucast (fat_count b) * ucast (sectors_per_fat b))
       * ucast (bytes_per_sector b) :: u32
   in p + ucast offset)"

definition dir_entry :: "memory \<Rightarrow> nat \<Rightarrow> DirEntry" where
  "dir_entry m i = load_DirEntry m (get_root_directory m + 32 * of_nat i)"

section \<open>Paths\<close>

definition ENTRY_EMPTY :: u8 where "ENTRY_EMPTY = 0"
definition ENTRY_DELETED :: u8 where "ENTRY_DELETED = 0xe5"
definition MAX_FILENAME :: nat where "MAX_FILENAME = 8"
definition MAX_FILE_EXT_NAME :: nat where "MAX_FILE_EXT_NAME = 3"

abbreviation dot :: u8 where "dot \<equiv> 0x2e"
abbreviation slash :: u8 where "slash \<equiv> 0x2f"
abbreviation space :: u8 where "space \<equiv> 0x20"

definition is_file_name_equal :: "DirEntry \<Rightarrow> u8 list \<Rightarrow> u8 list \<Rightarrow> bool" where
  "is_file_name_equal d nm ex \<longleftrightarrow> name d = nm \<and> ext d = ex"

text \<open>
  A path is what the pointer reads at each index; \<open>None\<close> is an index whose read faults. The
  two loops give the index where they stop, or \<open>None\<close> on a slash.
\<close>

type_synonym cstring = "nat \<Rightarrow> u8 option"

primrec split_name :: "nat \<Rightarrow> cstring \<Rightarrow> nat \<Rightarrow> u8 list \<Rightarrow> (nat option, u8 list) outcome" where
  "split_name 0 path i nm = Inr (Some i, nm)"
| "split_name (Suc n) path i nm = (case path i of
     None \<Rightarrow> Inl Page_fault
   | Some c \<Rightarrow> if c = dot \<or> c = 0 then Inr (Some i, nm)
       else if c = slash then Inr (None, nm)
       else split_name n path (Suc i) (nm[i := c]))"

primrec split_ext :: "nat \<Rightarrow> cstring \<Rightarrow> nat \<Rightarrow> nat \<Rightarrow> u8 list \<Rightarrow> (nat option, u8 list) outcome" where
  "split_ext 0 path i j ex = Inr (Some i, ex)"
| "split_ext (Suc n) path i j ex = (case path i of
     None \<Rightarrow> Inl Page_fault
   | Some c \<Rightarrow> if c = 0 then Inr (Some i, ex)
       else if c = slash then Inr (None, ex)
       else split_ext n path (Suc i) (Suc j) (ex[j := c]))"

definition ends_here :: "cstring \<Rightarrow> nat \<Rightarrow> u8 list \<times> u8 list \<Rightarrow> (bool, u8 list \<times> u8 list) outcome" where
  "ends_here path i b = (case path i of None \<Rightarrow> Inl Page_fault | Some c \<Rightarrow> Inr (c = 0, b))"

definition split_path :: "cstring \<Rightarrow> u8 list \<times> u8 list \<Rightarrow> (bool, u8 list \<times> u8 list) outcome" where
  "split_path path b = (case split_name MAX_FILENAME path 0 (fst b) of
     Inl h \<Rightarrow> Inl h
   | Inr (None, nm) \<Rightarrow> Inr (False, (nm, snd b))
   | Inr (Some i, nm) \<Rightarrow> (case path i of
       None \<Rightarrow> Inl Page_fault
     | Some c \<Rightarrow> if c = dot then
         (case split_ext MAX_FILE_EXT_NAME path (Suc i) 0 (snd b) of
            Inl h \<Rightarrow> Inl h
          | Inr (None, ex) \<Rightarrow> Inr (False, (nm, ex))
          | Inr (Some i, ex) \<Rightarrow> ends_here path i (nm, ex))
       else ends_here path i (nm, snd b)))"

definition live_entry :: "DirEntry \<Rightarrow> bool" where
  "live_entry d \<longleftrightarrow> hd (name d) \<noteq> ENTRY_EMPTY \<and> hd (name d) \<noteq> ENTRY_DELETED \<and> attributes d \<noteq> 0xf"

definition search_file :: "cstring \<Rightarrow> memory \<Rightarrow> halt + u32" where
  "search_file path m = (case split_path path (replicate 8 space, replicate 3 space) of
     Inl h \<Rightarrow> Inl h
   | Inr (status, (nm, ex)) \<Rightarrow>
       if status then
         (case first_index (\<lambda>i. live_entry (dir_entry m i) \<and> is_file_name_equal (dir_entry m i) nm ex)
             0 (unat (get_root_directory_count m)) of
            Some i \<Rightarrow> Inr (of_nat i) | None \<Rightarrow> Inr 0xffffffff)
       else Inr 0xffffffff)"

section \<open>8.3 names\<close>

definition cstr :: "u8 list \<Rightarrow> cstring" where
  "cstr p i = Some (if i < length p then p ! i else 0)"

definition pad :: "nat \<Rightarrow> u8 list \<Rightarrow> u8 list" where
  "pad n xs = xs @ replicate (n - length xs) space"

definition path_base :: "u8 list \<Rightarrow> u8 list" where
  "path_base p = takeWhile (\<lambda>c. c \<noteq> dot) p"

definition path_ext :: "u8 list \<Rightarrow> u8 list" where
  "path_ext p = drop (Suc (length (path_base p))) p"

definition path_ok :: "u8 list \<Rightarrow> bool" where
  "path_ok p \<longleftrightarrow> length (path_base p) \<le> 8 \<and> length (path_ext p) \<le> 3 \<and> slash \<notin> set p"

text \<open>Writing a list over another one from an index on.\<close>

definition patch :: "u8 list \<Rightarrow> nat \<Rightarrow> u8 list \<Rightarrow> u8 list" where
  "patch xs i b = take i xs @ b @ drop (i + length b) xs"

lemma patch_Nil [simp]: "patch xs i [] = xs"
  by (simp add: patch_def)

lemma patch_Cons: "i < length xs \<Longrightarrow> patch xs i (c # b) = patch (xs[i := c]) (Suc i) b"
  by (simp add: patch_def take_Suc_conv_app_nth)

lemma patch_replicate: "length b \<le> n \<Longrightarrow> patch (replicate n space) 0 b = pad n b"
  by (simp add: patch_def pad_def)

lemma cstr_drop:
  assumes "0 \<notin> set p"
  shows "drop i p = [] \<Longrightarrow> cstr p i = Some 0"
    and "drop i p = c # q \<Longrightarrow> cstr p i = Some c \<and> c \<noteq> 0 \<and> drop (Suc i) p = q"
proof -
  show "drop i p = [] \<Longrightarrow> cstr p i = Some 0" by (simp add: cstr_def)
  assume c: "drop i p = c # q"
  then have i: "i < length p" by (metis drop_all leI list.distinct(1))
  then have "c = p ! i" "drop (Suc i) p = q" using c by (simp_all add: Cons_nth_drop_Suc [symmetric])
  moreover have "p ! i \<in> set p" using i by simp
  ultimately show "cstr p i = Some c \<and> c \<noteq> 0 \<and> drop (Suc i) p = q"
    using assms i by (metis cstr_def)
qed

lemma split_name_result:
  assumes "0 \<notin> set p"
  defines "b n i \<equiv> take n (takeWhile (\<lambda>c. c \<noteq> dot) (drop i p))"
  shows "i + n \<le> length nm \<Longrightarrow> \<exists>nm'. split_name n (cstr p) i nm =
     Inr (if slash \<in> set (b n i) then (None, nm') else (Some (i + length (b n i)), patch nm i (b n i)))"
proof (induction n arbitrary: i nm)
  case 0
  show ?case by (simp add: b_def)
next
  case (Suc n)
  show ?case
  proof (cases "drop i p")
    case Nil
    then show ?thesis using cstr_drop(1) [OF assms(1)] by (simp add: b_def)
  next
    case (Cons c q)
    with cstr_drop(2) [OF assms(1)] have c: "cstr p i = Some c" "c \<noteq> 0" "drop (Suc i) p = q" by auto
    have "i < length nm" using Suc.prems by simp
    with Suc.IH [of "Suc i" "nm[i := c]"] Suc.prems Cons c show ?thesis
      by (auto simp: b_def patch_Cons)
  qed
qed

lemma split_ext_result:
  assumes "0 \<notin> set p"
  defines "b n i \<equiv> take n (drop i p)"
  shows "j + n \<le> length ex \<Longrightarrow> \<exists>ex'. split_ext n (cstr p) i j ex =
     Inr (if slash \<in> set (b n i) then (None, ex') else (Some (i + length (b n i)), patch ex j (b n i)))"
proof (induction n arbitrary: i j ex)
  case 0
  show ?case by (simp add: b_def)
next
  case (Suc n)
  show ?case
  proof (cases "drop i p")
    case Nil
    then show ?thesis using cstr_drop(1) [OF assms(1)] by (simp add: b_def)
  next
    case (Cons c q)
    with cstr_drop(2) [OF assms(1)] have c: "cstr p i = Some c" "c \<noteq> 0" "drop (Suc i) p = q" by auto
    have "j < length ex" using Suc.prems by simp
    with Suc.IH [of "Suc j" "ex[j := c]" "Suc i"] Suc.prems Cons c show ?thesis
      by (auto simp: b_def patch_Cons)
  qed
qed

lemma cstr_end: "0 \<notin> set p \<Longrightarrow> cstr p i = Some c \<Longrightarrow> c = 0 \<longleftrightarrow> length p \<le> i"
  by (cases "i < length p") (use nth_mem [of i p] in \<open>auto simp: cstr_def\<close>)

lemma path_split:
  "p = path_base p @ drop (length (path_base p)) p"
  "length (path_base p) < length p \<Longrightarrow> p ! length (path_base p) = dot"
  "dot \<notin> set (path_base p)"
proof -
  show "p = path_base p @ drop (length (path_base p)) p"
    by (simp add: path_base_def takeWhile_eq_take [symmetric] flip: dropWhile_eq_drop)
  show "length (path_base p) < length p \<Longrightarrow> p ! length (path_base p) = dot"
    unfolding path_base_def by (drule nth_length_takeWhile) simp
  show "dot \<notin> set (path_base p)" by (auto simp: path_base_def dest: set_takeWhileD)
qed

lemma split_path_result:
  assumes "0 \<notin> set p"
  shows "\<exists>b. split_path (cstr p) (replicate 8 space, replicate 3 space) = Inr (path_ok p, b)
     \<and> (path_ok p \<longrightarrow> b = (pad 8 (path_base p), pad 3 (path_ext p)))"
proof -
  let ?base = "path_base p" and ?e = "path_ext p"
  let ?b = "take 8 ?base"
  have slashes: "slash \<in> set p \<longleftrightarrow> slash \<in> set ?base \<or> slash \<in> set ?e"
  proof (cases "length ?base < length p")
    case True
    then have "drop (length ?base) p = dot # ?e"
      using path_split(2) [of p] by (simp add: path_ext_def flip: Cons_nth_drop_Suc)
    then show ?thesis using arg_cong [OF path_split(1) [of p], of set] by auto
  next
    case False
    then show ?thesis using path_split(1) [of p] by (simp add: path_ext_def)
  qed
  obtain nm' where name: "split_name 8 (cstr p) 0 (replicate 8 space) =
      Inr (if slash \<in> set ?b then (None, nm') else (Some (length ?b), pad 8 ?b))"
    using split_name_result [OF assms, of 0 8 "replicate 8 space"] by (auto simp: path_base_def patch_replicate cong: if_cong)
  consider (slash) "slash \<in> set ?b" | (long) "slash \<notin> set ?b" "8 < length ?base"
    | (whole) "slash \<notin> set ?base" "length ?base \<le> 8" "length p \<le> length ?base"
    | (ext) "slash \<notin> set ?base" "length ?base \<le> 8" "length ?base < length p"
    by force
  then show ?thesis
  proof cases
    case slash
    then have "\<not> path_ok p" using slashes by (auto simp: path_ok_def dest: in_set_takeD)
    with slash name show ?thesis by (simp add: split_path_def MAX_FILENAME_def)
  next
    case long
    then have l: "8 < length p" using arg_cong [OF path_split(1) [of p], of length] by simp
    then have "p ! 8 = ?base ! 8" using long(2) path_split(1) [of p] by (metis nth_append)
    then have "p ! 8 \<noteq> dot" using path_split(3) [of p] long(2) by (metis nth_mem)
    moreover have "p ! 8 \<noteq> 0" using l assms by (metis nth_mem)
    ultimately show ?thesis
      using long name l by (simp add: split_path_def MAX_FILENAME_def ends_here_def cstr_def path_ok_def)
  next
    case whole
    then have "?e = []" by (simp add: path_ext_def)
    moreover have "?b = ?base" using whole by simp
    ultimately show ?thesis
      using whole name slashes
      by (simp add: split_path_def MAX_FILENAME_def ends_here_def cstr_def path_ok_def pad_def)
  next
    case ext
    let ?i = "length ?base"
    have dot: "cstr p ?i = Some dot" using ext path_split(2) [of p] by (simp add: cstr_def)
    obtain ex' where exts: "split_ext 3 (cstr p) (Suc ?i) 0 (replicate 3 space) =
        Inr (if slash \<in> set (take 3 ?e) then (None, ex')
             else (Some (Suc ?i + length (take 3 ?e)), pad 3 (take 3 ?e)))"
      using split_ext_result [OF assms, of 0 3 "replicate 3 space" "Suc ?i"]
      by (auto simp: path_ext_def patch_replicate cong: if_cong)
    have len: "length p = Suc ?i + length ?e" using ext(3) by (simp add: path_ext_def)
    show ?thesis
    proof (cases "slash \<in> set (take 3 ?e)")
      case True
      then have "\<not> path_ok p" using slashes by (auto simp: path_ok_def dest: in_set_takeD)
      with True ext name dot exts show ?thesis
        by (simp add: split_path_def MAX_FILENAME_def MAX_FILE_EXT_NAME_def)
    next
      case False
      obtain c where c: "cstr p (Suc ?i + length (take 3 ?e)) = Some c" by (simp add: cstr_def)
      then have "c = 0 \<longleftrightarrow> length ?e \<le> 3" using cstr_end [OF assms c] len by auto
      moreover have "path_ok p \<longleftrightarrow> length ?e \<le> 3"
        using ext False slashes by (auto simp: path_ok_def)
      ultimately show ?thesis
        using False ext name dot exts c
        by (simp add: split_path_def MAX_FILENAME_def MAX_FILE_EXT_NAME_def ends_here_def)
    qed
  qed
qed

text \<open>
  Property C30: \<open>split_path\<close> on a string decides whether it is an 8.3 name: at most eight
  characters before the first dot, at most three after it, and no slash. For such a path it
  fills the two space-padded fields that directory entries are compared with.
\<close>

theorem split_path_decides_83_names:
  assumes "0 \<notin> set p"
  shows "\<exists>b. split_path (cstr p) (replicate 8 space, replicate 3 space) = Inr (path_ok p, b)
     \<and> (path_ok p \<longrightarrow> b = (pad 8 (path_base p), pad 3 (path_ext p)))"
  by (rule split_path_result [OF assms])

lemma split_path_decides_83_names_witness:
  "split_path (cstr [0x4c, 0x53, 0x2e, 0x42]) (replicate 8 space, replicate 3 space)
     = Inr (True, ([0x4c, 0x53, 0x20, 0x20, 0x20, 0x20, 0x20, 0x20], [0x42, 0x20, 0x20]))"
proof -
  have "path_ok [0x4c, 0x53, 0x2e, 0x42]" "path_base [0x4c, 0x53, 0x2e, 0x42] = [0x4c, 0x53]"
    "path_ext [0x4c, 0x53, 0x2e, 0x42] = [0x42]"
    by (simp_all add: path_ok_def path_base_def path_ext_def)
  moreover have "pad 8 [0x4c, 0x53] = [0x4c, 0x53, 0x20, 0x20, 0x20, 0x20, 0x20, 0x20]"
    "pad 3 [0x42] = [0x42, 0x20, 0x20]"
    by (simp_all add: pad_def eval_nat_numeral)
  moreover have "0 \<notin> set [0x4c, 0x53, 0x2e, 0x42 :: u8]" by simp
  ultimately show ?thesis using split_path_decides_83_names [of "[0x4c, 0x53, 0x2e, 0x42]"] by auto
qed

end
