(* ===== verification/FatRead.thy ===== *)
theory FatRead
  imports Fat
begin

text \<open>
  \<open>read_raw_data\<close> of fs/fs.c: walking the cluster chain to a position and copying from
  there. The main lemma is that, on a chain of valid clusters and a buffer outside the
  volume, it writes exactly the requested slice of the chain's bytes.
\<close>

section \<open>The code\<close>

primrec skip_clusters :: "nat \<Rightarrow> u32 \<Rightarrow> memory \<Rightarrow> halt + u32" where
  "skip_clusters 0 index m = Inr index"
| "skip_clusters (Suc n) index m = (let index = ucast (get_cluster_value m index) in
     if \<not> index < 0xfff7 then Inl Assert_failed else skip_clusters n index m)"

text \<open>The \<open>while\<close> loop; its additions wrap at 32 bits, so it need not end for a huge size.\<close>

partial_function (option) read_clusters ::
    "u64 \<Rightarrow> u32 \<Rightarrow> u32 \<Rightarrow> u32 \<Rightarrow> u64 \<Rightarrow> u32 \<Rightarrow> 'a machine_scheme \<Rightarrow> (u32, 'a machine_scheme) outcome option" where
  "read_clusters bpb cluster_size n index buffer read_size s =
     (if read_size < n \<and> index < 0xfff7 then
        (case get_cluster_offset (mem s) index of
           Inl h \<Rightarrow> Some (Inl h)
         | Inr off \<Rightarrow> let data = ucast off + bpb in
             if n \<le> read_size + cluster_size then
               Some (kbind (copy_to buffer data (n - read_size) s) (\<lambda>_ s. Inr (n, s)))
             else (case copy_to buffer data cluster_size s of
                 Inl h \<Rightarrow> Some (Inl h)
               | Inr (u, s) \<Rightarrow> read_clusters bpb cluster_size n (ucast (get_cluster_value (mem s) index))
                   (buffer + ucast cluster_size) (read_size + cluster_size) s))
      else Some (Inr (read_size, s)))"

definition read_raw_data ::
    "u32 \<Rightarrow> u64 \<Rightarrow> u32 \<Rightarrow> u32 \<Rightarrow> 'a machine_scheme \<Rightarrow> (u32, 'a machine_scheme) outcome" where
  "read_raw_data cluster_index buffer position n s =
     (let cluster_size = get_cluster_size (mem s) in
      if cluster_size = 0 then Inl Div_by_zero
      else let count = position div cluster_size; offset = position mod cluster_size in
        case skip_clusters (unat count) cluster_index (mem s) of
          Inl h \<Rightarrow> Inl h
        | Inr index \<Rightarrow> let bpb = get_fs_bpb (mem s) in
            (case (if offset \<noteq> 0 then
                 let read_size = (if offset + n \<le> cluster_size then n else cluster_size - offset) in
                 case get_cluster_offset (mem s) index of
                   Inl h \<Rightarrow> Some (Inl h)
                 | Inr off \<Rightarrow> (case copy_to buffer (ucast off + bpb + ucast offset) read_size s of
                     Inl h \<Rightarrow> Some (Inl h)
                   | Inr (u, s) \<Rightarrow> read_clusters bpb cluster_size n (ucast (get_cluster_value (mem s) index))
                       (buffer + ucast read_size) read_size s)
               else read_clusters bpb cluster_size n index buffer 0 s) of
               None \<Rightarrow> Inl Spin
             | Some r \<Rightarrow> r))"

section \<open>What the volume depends on\<close>

text \<open>Addresses at a small distance from the start of the volume, and memories equal there.\<close>

definition far :: "nat \<Rightarrow> u64 \<Rightarrow> bool" where
  "far n x \<longleftrightarrow> unat FS_BASE \<le> unat x \<and> unat x \<le> unat FS_BASE + n"

definition image_eq :: "memory \<Rightarrow> memory \<Rightarrow> bool" where
  "image_eq m m' \<longleftrightarrow> (\<forall>x. FS_BASE \<le> x \<longrightarrow> m' x = m x)"

lemma unat_FS_BASE [simp]: "unat FS_BASE = 18446462599538147328"
  by (simp add: FS_BASE_def P2V_def KERNEL_BASE_def)

lemma far_base: "far 0 FS_BASE"
  by (simp add: far_def)

lemma far_add:
  assumes "far n x" "unat y \<le> k" "n + k < 2 ^ 47"
  shows "far (n + k) (x + y)"
proof -
  have "unat (x + y) = unat x + unat y"
    using assms by (intro unat_add_small) (simp add: far_def)
  with assms show ?thesis by (simp add: far_def)
qed

lemma far_mono: "far n x \<Longrightarrow> n \<le> k \<Longrightarrow> far k x"
  by (simp add: far_def)

lemma far_image: "far n x \<Longrightarrow> image_eq m m' \<Longrightarrow> m' x = m x"
  by (simp add: far_def image_eq_def word_le_nat_alt)

lemma rd_image:
  assumes "image_eq m m'" "far n x" "n + k < 2 ^ 47"
  shows "rd k m' x = rd k m x"
proof (rule rd_cong)
  fix i assume "i < k"
  then have "far (n + k) (x + of_nat i)"
    using assms(3) by (intro far_add [OF assms(2)]) (simp_all add: word_arith)
  then show "m' (x + of_nat i) = m (x + of_nat i)" by (rule far_image [OF _ assms(1)])
qed

lemma bytes_image:
  assumes "image_eq m m'" "far n x" "n + k < 2 ^ 47"
  shows "bytes m' x k = bytes m x k"
proof -
  have "m' (x + of_nat i) = m (x + of_nat i)" if "i < k" for i
  proof -
    have "far (n + k) (x + of_nat i)"
      using that assms(3) by (intro far_add [OF assms(2)]) (simp_all add: word_arith)
    then show ?thesis by (rule far_image [OF _ assms(1)])
  qed
  then show ?thesis by (simp add: bytes_def)
qed

lemma image_eq_refl [simp]: "image_eq m m"
  by (simp add: image_eq_def)

lemma image_eq_trans: "image_eq a b \<Longrightarrow> image_eq b c \<Longrightarrow> image_eq a c"
  by (simp add: image_eq_def)

lemma unat_ucast_le [simp]:
  "unat (ucast (n::u32) :: u64) \<le> 4294967296" "unat (ucast (k::u16) :: u32) \<le> 65536"
  using unat_u32_less [of n] unat_u16_less [of k] by (simp_all add: unsigned_ucast_eq take_bit_nat_eq_self)

lemma bpb_image:
  assumes "image_eq m m'"
  shows "get_fs_bpb m' = get_fs_bpb m"
proof -
  have "far 1000 (FS_BASE + 0x1be + 8)" by (simp add: far_def FS_BASE_def P2V_def KERNEL_BASE_def)
  then have "ld32 m' (FS_BASE + 0x1be + 8) = ld32 m (FS_BASE + 0x1be + 8)"
    by (rule rd_image [OF assms]) simp
  then show ?thesis by (simp only: get_fs_bpb_def)
qed

lemma unat_u32_le: "unat (n::u32) \<le> 4294967296"
  using unat_u32_less [of n] by simp

lemma far_bpb: "far 4294967296 (get_fs_bpb m)"
  using far_add [OF far_base, of "ucast (ld32 m (FS_BASE + 0x1be + 8) * 512 :: u32)" 4294967296]
  by (simp add: get_fs_bpb_def unat_u32_le)

lemma BPB_image:
  assumes "image_eq m m'" "far 4294967296 p"
  shows "load_BPB m' p = load_BPB m p"
proof -
  have f: "far 5000000000 (p + x)" if "unat x \<le> 100" for x
    using far_mono [OF far_add [OF assms(2) that]] by simp
  have "m' (p + x) = m (p + x)" if "unat x \<le> 100" for x
    by (rule far_image [OF f [OF that] assms(1)])
  moreover have "ld16 m' (p + x) = ld16 m (p + x)" if "unat x \<le> 100" for x
    by (intro rd_image [OF assms(1) f [OF that]]) simp
  moreover have "ld32 m' (p + x) = ld32 m (p + x)" if "unat x \<le> 100" for x
    by (intro rd_image [OF assms(1) f [OF that]]) simp
  moreover have "bytes m' (p + x) k = bytes m (p + x) k" if "unat x \<le> 100" "k \<le> 11" for k x
    using that(2) by (intro bytes_image [OF assms(1) f [OF that(1)]]) simp
  moreover have "bytes m' p 3 = bytes m p 3"
    by (rule bytes_image [OF assms(1) assms(2)]) simp
  ultimately show ?thesis by (simp add: load_BPB_def)
qed

lemma fat_image:
  assumes "image_eq m m'"
  shows "get_fat_table m' = get_fat_table m"
  using bpb_image [OF assms] BPB_image [OF assms far_bpb] by (simp add: get_fat_table_def)

lemma far_fat: "far 8589934592 (get_fat_table m)"
  unfolding get_fat_table_def Let_def
  by (rule far_mono [OF far_add [OF far_bpb, where k = 4294967296]]) (simp_all add: unat_u32_le)

lemma cluster_value_image:
  assumes "image_eq m m'"
  shows "get_cluster_value m' c = get_cluster_value m c"
proof -
  have "unat (2 * ucast c :: u64) \<le> 8589934592"
    using unat_u32_le [of c] by (simp add: unat_word_ariths)
  then have "far 17179869184 (get_fat_table m + 2 * ucast c)"
    using far_add [OF far_fat, of "2 * ucast c" 8589934592] by simp
  then show ?thesis
    unfolding get_cluster_value_def fat_image [OF assms] by (rule rd_image [OF assms]) simp
qed

lemma cluster_offset_image:
  assumes "image_eq m m'"
  shows "get_cluster_offset m' c = get_cluster_offset m c"
  using bpb_image [OF assms] BPB_image [OF assms far_bpb] by (simp add: get_cluster_offset_def)

lemma cluster_size_image:
  assumes "image_eq m m'"
  shows "get_cluster_size m' = get_cluster_size m"
  using bpb_image [OF assms] BPB_image [OF assms far_bpb] by (simp add: get_cluster_size_def)

lemma root_count_image:
  assumes "image_eq m m'"
  shows "get_root_directory_count m' = get_root_directory_count m"
  using bpb_image [OF assms] BPB_image [OF assms far_bpb] by (simp add: get_root_directory_count_def)

lemma root_directory_image:
  assumes "image_eq m m'"
  shows "get_root_directory m' = get_root_directory m"
  using bpb_image [OF assms] BPB_image [OF assms far_bpb] by (simp add: get_root_directory_def)

section \<open>Writing a list of bytes\<close>

definition written :: "memory \<Rightarrow> u64 \<Rightarrow> u8 list \<Rightarrow> memory" where
  "written m d xs = (\<lambda>x. if in_range d (length xs) x then xs ! unat (x - d) else m x)"

lemma length_bytes [simp]: "length (bytes m a n) = n"
  by (simp add: bytes_def)

lemma bytes_0 [simp]: "bytes m a 0 = []"
  by (simp add: bytes_def)

lemma nth_bytes [simp]: "i < n \<Longrightarrow> bytes m a n ! i = m (a + of_nat i)"
  by (simp add: bytes_def)

lemma take_bytes: "k \<le> n \<Longrightarrow> take k (bytes m a n) = bytes m a k"
  by (simp add: bytes_def take_map)

lemma drop_bytes: "drop k (bytes m a n) = bytes m (a + of_nat k) (n - k)"
  by (rule nth_equalityI) (simp_all add: add.assoc)

lemma written_Nil [simp]: "written m d [] = m"
  by (simp add: written_def in_range_def)

lemma copied_written: "copied m d s n = written m d (bytes m s n)"
proof
  fix x
  show "copied m d s n x = written m d (bytes m s n) x"
    by (auto simp: copied_def written_def in_range_def bytes_def)
qed

lemma written_append:
  assumes "unat d + length xs + length ys \<le> 2 ^ 64"
  shows "written (written m d xs) (d + of_nat (length xs)) ys = written m d (xs @ ys)"
proof
  fix x
  let ?k = "length xs"
  show "written (written m d xs) (d + of_nat ?k) ys x = written m d (xs @ ys) x"
  proof (cases "length ys = 0")
    case True
    then show ?thesis by (simp add: written_def in_range_def)
  next
    case False
    then have dk: "unat (d + of_nat ?k) = unat d + ?k"
      using assms by (intro unat_offset) linarith
    have r: "in_range (d + of_nat ?k) (length ys) x \<longleftrightarrow> unat d + ?k \<le> unat x \<and> unat x < unat d + ?k + length ys"
      "in_range d ?k x \<longleftrightarrow> unat d \<le> unat x \<and> unat x < unat d + ?k"
      "in_range d (?k + length ys) x \<longleftrightarrow> unat d \<le> unat x \<and> unat x < unat d + ?k + length ys"
      using assms dk by (subst in_range_iff; simp add: add.assoc)+
    have "unat (x - (d + of_nat ?k)) = unat x - (unat d + ?k)" if "unat d + ?k \<le> unat x"
      using that dk by (simp add: unat_sub word_le_nat_alt)
    moreover have "unat (x - d) = unat x - unat d" if "unat d \<le> unat x"
      using that by (simp add: unat_sub word_le_nat_alt)
    ultimately show ?thesis by (auto simp: written_def r nth_append)
  qed
qed

lemma written_outside: "\<not> in_range d (length xs) x \<Longrightarrow> written m d xs x = m x"
  by (simp add: written_def)

lemma written_image:
  assumes "unat d + length xs \<le> unat FS_BASE"
  shows "image_eq m (written m d xs)"
proof -
  have "\<not> in_range d (length xs) x" if "FS_BASE \<le> x" for x
    using assms that by (subst in_range_iff) (simp_all add: word_le_nat_alt)
  then show ?thesis by (simp add: image_eq_def written_outside)
qed

lemma in_range_part:
  assumes "in_range (d + of_nat k) (n - k) x" "k \<le> n" "unat d + n \<le> 2 ^ 64"
  shows "in_range d n x"
proof -
  have "k < n" using assms(1) by (auto simp: in_range_def)
  then have "unat (d + of_nat k) = unat d + k" using assms(3) by (simp add: word_arith)
  with assms show ?thesis by (simp add: in_range_iff)
qed

lemma resolves_part:
  assumes "resolves s v d n" "k \<le> n" "unat d + n \<le> 2 ^ 64"
  shows "resolves s (v + of_nat k) (d + of_nat k) (n - k)"
  unfolding resolves_def
proof (intro allI impI)
  fix m i j
  assume "\<forall>x. \<not> in_range (d + of_nat k) (n - k) x \<longrightarrow> m x = mem s x" "i + j \<le> n - k" "(0::nat) < j"
  moreover then have "\<forall>x. \<not> in_range d n x \<longrightarrow> m x = mem s x"
    using in_range_part [OF _ assms(2,3)] by blast
  ultimately have "kaddr (s\<lparr>mem := m\<rparr>) (v + of_nat (k + i)) j = Some (d + of_nat (k + i))"
    using assms(1,2) unfolding resolves_def
    by (elim allE [of _ m] allE [of _ "k + i"] allE [of _ j]) auto
  then show "kaddr (s\<lparr>mem := m\<rparr>) (v + of_nat k + of_nat i) j = Some (d + of_nat k + of_nat i)"
    by (simp add: add.assoc)
qed

text \<open>A copy of the kernel from the volume into a buffer below it.\<close>

lemma copy_to_written:
  assumes "resolves s v d n" "unat k \<le> n" "unat d + n \<le> unat FS_BASE" "far l src" "l < 2 ^ 46"
  shows "copy_to v src k s = Inr ((), s\<lparr>mem := written (mem s) d (bytes (mem s) src (unat k))\<rparr>)"
proof (cases "k = 0")
  case True
  then show ?thesis by (simp add: copy_to_def)
next
  case False
  then have "0 < unat k" by (simp add: unat_gt_0)
  then have "kaddr s v (unat k) = Some d"
    using resolves_kaddr [OF assms(1), of 0 "unat k"] assms(2) by simp
  moreover have "forward_ok d src (unat k)"
    using assms(2-5) unat_u32_less [of k] by (simp add: forward_ok_def far_def)
  then have "memcpy (mem s) d src k = written (mem s) d (bytes (mem s) src (unat k))"
    by (simp add: memcpy_forward copied_written)
  ultimately show ?thesis using False by (simp add: copy_to_def)
qed

section \<open>Chains and their contents\<close>

text \<open>\<open>fat_chain m c cl\<close>: from \<open>c\<close> on, the allocation table links the data clusters \<open>cl\<close>.\<close>

primrec fat_chain :: "memory \<Rightarrow> u32 \<Rightarrow> u32 list \<Rightarrow> bool" where
  "fat_chain m c [] \<longleftrightarrow> True"
| "fat_chain m c (x # xs) \<longleftrightarrow> c = x \<and> 2 \<le> x \<and> x < 0xfff7 \<and> fat_chain m (ucast (get_cluster_value m x)) xs"

definition cluster_addr :: "memory \<Rightarrow> u32 \<Rightarrow> u64" where
  "cluster_addr m c = (case get_cluster_offset m c of Inl h \<Rightarrow> 0 | Inr off \<Rightarrow> ucast off + get_fs_bpb m)"

definition cluster_bytes :: "memory \<Rightarrow> u32 \<Rightarrow> u8 list" where
  "cluster_bytes m c = bytes m (cluster_addr m c) (unat (get_cluster_size m))"

definition chain_bytes :: "memory \<Rightarrow> u32 list \<Rightarrow> u8 list" where
  "chain_bytes m cl = concat (map (cluster_bytes m) cl)"

lemma chain_bytes_simps [simp]:
  "chain_bytes m [] = []"
  "chain_bytes m (c # cl) = cluster_bytes m c @ chain_bytes m cl"
  by (simp_all add: chain_bytes_def)

lemma length_cluster_bytes [simp]: "length (cluster_bytes m c) = unat (get_cluster_size m)"
  by (simp add: cluster_bytes_def)

lemma length_chain_bytes: "length (chain_bytes m cl) = length cl * unat (get_cluster_size m)"
  by (induction cl) simp_all

lemma fat_chain_image: "image_eq m m' \<Longrightarrow> fat_chain m' c cl = fat_chain m c cl"
  by (induction cl arbitrary: c) (simp_all add: cluster_value_image)

lemma cluster_addr_image: "image_eq m m' \<Longrightarrow> cluster_addr m' c = cluster_addr m c"
  by (simp add: cluster_addr_def cluster_offset_image bpb_image split: sum.split)

lemma cluster_offset_ok: "2 \<le> c \<Longrightarrow> \<exists>off. get_cluster_offset m c = Inr off"
  by (simp add: get_cluster_offset_def Let_def)

lemma far_cluster:
  assumes "2 \<le> c"
  shows "far 8589934592 (cluster_addr m c)"
proof -
  obtain off where "get_cluster_offset m c = Inr off" using cluster_offset_ok [OF assms] by blast
  then show ?thesis
    using far_add [OF far_bpb, of "ucast off" 4294967296 m]
    by (simp add: cluster_addr_def unat_u32_le add.commute)
qed

lemma unat_cluster_size_less: "unat (get_cluster_size m) < 2 ^ 24"
proof -
  let ?b = "load_BPB m (get_fs_bpb m)"
  have "unat (get_cluster_size m) \<le> unat (bytes_per_sector ?b) * unat (sectors_per_cluster ?b)"
    by (simp add: get_cluster_size_def Let_def unat_word_ariths unsigned_ucast_eq
        order_trans [OF mod_less_eq_dividend] mult_le_mono)
  also have "\<dots> \<le> 65535 * 255"
    using unat_u16_less [of "bytes_per_sector ?b"] unat_u8_less [of "sectors_per_cluster ?b"]
    by (intro mult_le_mono) simp_all
  finally show ?thesis by simp
qed

lemma cluster_bytes_image:
  assumes "image_eq m m'" "2 \<le> c"
  shows "cluster_bytes m' c = cluster_bytes m c"
  using unat_cluster_size_less [of m]
    bytes_image [OF assms(1) far_cluster [OF assms(2)], of "unat (get_cluster_size m)" m]
  by (simp add: cluster_bytes_def cluster_addr_image [OF assms(1)] cluster_size_image [OF assms(1)])

lemma chain_bytes_image:
  "image_eq m m' \<Longrightarrow> fat_chain m c cl \<Longrightarrow> chain_bytes m' cl = chain_bytes m cl"
  by (induction cl arbitrary: c) (auto simp: cluster_bytes_image)

section \<open>The loop\<close>

lemma unat_add_u32: "unat (a::u32) + unat b < 2 ^ 32 \<Longrightarrow> unat (a + b) = unat a + unat b"
  by (rule unat_add_small) simp

lemma read_clusters_done:
  "\<not> read_size < n \<Longrightarrow> read_clusters bpb cs n c buf read_size s = Some (Inr (read_size, s))"
  by (simp add: read_clusters.simps)

text \<open>
  From \<open>read_size\<close> bytes done, the loop writes the first \<open>n - read_size\<close> bytes of the chain that
  starts at the current cluster.
\<close>

lemma read_clusters_writes:
  fixes s :: "'a machine_scheme"
  assumes "fat_chain (mem s) c cl" "read_size \<le> n"
    "unat n - unat read_size \<le> length cl * unat (get_cluster_size (mem s))"
    "unat n + unat (get_cluster_size (mem s)) < 2 ^ 32"
    "resolves s buf d (unat n - unat read_size)" "unat d + (unat n - unat read_size) \<le> unat FS_BASE"
  shows "read_clusters (get_fs_bpb (mem s)) (get_cluster_size (mem s)) n c buf read_size s
    = Some (Inr (n, s\<lparr>mem := written (mem s) d (take (unat n - unat read_size) (chain_bytes (mem s) cl))\<rparr>))"
  using assms
proof (induction cl arbitrary: s c buf read_size d)
  case Nil
  then have "read_size = n" by (simp add: word_le_nat_alt order_antisym word_unat_eq_iff)
  then show ?case by (simp add: read_clusters_done)
next
  case (Cons x cl)
  let ?m = "mem s" and ?k = "unat n - unat read_size"
  let ?cs = "get_cluster_size ?m"
  show ?case
  proof (cases "read_size = n")
    case True
    then show ?thesis by (simp add: read_clusters_done)
  next
    case False
    then have less: "read_size < n" using Cons.prems(2) by simp
    then have lt: "unat read_size < unat n" by (simp add: word_less_nat_alt)
    from Cons.prems(1) have x: "c = x" "2 \<le> x" "x < 0xfff7" "fat_chain ?m (ucast (get_cluster_value ?m x)) cl"
      by simp_all
    obtain off where off: "get_cluster_offset ?m x = Inr off" using cluster_offset_ok [OF x(2)] by blast
    then have addr: "ucast off + get_fs_bpb ?m = cluster_addr ?m x" by (simp add: cluster_addr_def)
    have sum: "unat (read_size + ?cs) = unat read_size + unat ?cs"
      using Cons.prems(4) lt by (intro unat_add_u32) simp
    note far = far_cluster [OF x(2), of ?m]
    show ?thesis
    proof (cases "n \<le> read_size + ?cs")
      case True
      have kn: "unat (n - read_size) = ?k" using less by (simp add: unat_sub)
      have kcs: "?k \<le> unat ?cs" using True sum by (simp add: word_le_nat_alt)
      have "copy_to buf (cluster_addr ?m x) (n - read_size) s
          = Inr ((), s\<lparr>mem := written ?m d (bytes ?m (cluster_addr ?m x) ?k)\<rparr>)"
        using copy_to_written [OF Cons.prems(5) _ Cons.prems(6) far] kn by simp
      moreover have "bytes ?m (cluster_addr ?m x) ?k = take ?k (chain_bytes ?m (x # cl))"
        using kcs by (simp add: cluster_bytes_def take_bytes)
      ultimately show ?thesis
        using less x True off addr by (subst read_clusters.simps) (simp add: Let_def)
    next
      case False
      let ?s = "s\<lparr>mem := written ?m d (cluster_bytes ?m x)\<rparr>"
      have csk: "unat ?cs < ?k" using False sum lt by (simp add: word_le_nat_alt)
      have copy: "copy_to buf (cluster_addr ?m x) ?cs s = Inr ((), ?s)"
        using copy_to_written [OF Cons.prems(5) _ Cons.prems(6) far, of ?cs] csk by (simp add: cluster_bytes_def)
      have img: "image_eq ?m (mem ?s)"
        using Cons.prems(6) csk written_image [of d "cluster_bytes ?m x" ?m] by simp
      have bound: "unat d + ?k \<le> 2 ^ 64" using Cons.prems(6) by simp
      have dcs: "unat (d + ucast ?cs) = unat d + unat ?cs"
        using unat_offset [of d "unat ?cs"] Cons.prems(6) csk by simp
      have k': "unat n - unat (read_size + ?cs) = ?k - unat ?cs" using sum by simp
      have "resolves ?s (buf + of_nat (unat ?cs)) (d + of_nat (unat ?cs)) (?k - unat ?cs)"
        using resolves_part [OF resolves_mem [OF Cons.prems(5), of "mem ?s"] _ bound, of "unat ?cs"] csk
        by (auto simp: written_def in_range_def)
      then have res: "resolves ?s (buf + ucast ?cs) (d + ucast ?cs) (unat n - unat (read_size + ?cs))"
        by (simp add: k')
      have ih: "read_clusters (get_fs_bpb (mem ?s)) (get_cluster_size (mem ?s)) n
          (ucast (get_cluster_value ?m x)) (buf + ucast ?cs) (read_size + ?cs) ?s
        = Some (Inr (n, ?s\<lparr>mem := written (mem ?s) (d + ucast ?cs)
            (take (unat n - unat (read_size + ?cs)) (chain_bytes (mem ?s) cl))\<rparr>))"
        using Cons.prems csk x(4) res sum
        by (intro Cons.IH) (simp_all add: fat_chain_image [OF img, simplified] cluster_size_image [OF img, simplified]
            k' dcs word_le_nat_alt)
      have "take ?k (chain_bytes ?m (x # cl)) = cluster_bytes ?m x @ take (?k - unat ?cs) (chain_bytes ?m cl)"
        using csk by simp
      moreover have "length (take (?k - unat ?cs) (chain_bytes ?m cl)) \<le> ?k - unat ?cs" by simp
      then have "unat d + length (cluster_bytes ?m x) + length (take (?k - unat ?cs) (chain_bytes ?m cl)) \<le> 2 ^ 64"
        using bound csk unfolding length_cluster_bytes by linarith
      then have "written (mem ?s) (d + ucast ?cs) (take (?k - unat ?cs) (chain_bytes ?m cl))
          = written ?m d (cluster_bytes ?m x @ take (?k - unat ?cs) (chain_bytes ?m cl))"
        using written_append [of d "cluster_bytes ?m x" "take (?k - unat ?cs) (chain_bytes ?m cl)" ?m] by simp
      moreover have "chain_bytes (mem ?s) cl = chain_bytes ?m cl"
        by (rule chain_bytes_image [OF img x(4)])
      ultimately show ?thesis
        using less x False off addr copy ih
          cluster_value_image [OF img, simplified] bpb_image [OF img, simplified] cluster_size_image [OF img, simplified]
        by (subst read_clusters.simps) (simp add: k')
    qed
  qed
qed

section \<open>The whole read\<close>

lemma skip_clusters_chain:
  "fat_chain m c cl \<Longrightarrow> k < length cl \<Longrightarrow> skip_clusters k c m = Inr (cl ! k) \<and> fat_chain m (cl ! k) (drop k cl)"
proof (induction k arbitrary: c cl)
  case 0
  then show ?case by (cases cl) auto
next
  case (Suc k)
  then obtain x y zs where cl: "cl = x # y # zs" by (cases cl; cases "tl cl") auto
  with Suc.prems have "fat_chain m (ucast (get_cluster_value m c)) (y # zs)" "c = x"
    "ucast (get_cluster_value m c) < (0xfff7::u32)" by auto
  with Suc.IH [OF this(1)] Suc.prems cl show ?case by (auto simp: Let_def)
qed

lemma drop_chain_bytes:
  "k \<le> length cl \<Longrightarrow> drop (k * unat (get_cluster_size m) + r) (chain_bytes m cl) = drop r (chain_bytes m (drop k cl))"
proof (induction k arbitrary: cl)
  case 0
  then show ?case by simp
next
  case (Suc k)
  then obtain x xs where "cl = x # xs" by (cases cl) auto
  with Suc show ?case by (simp add: add.assoc)
qed

text \<open>The part of the read before the first cluster boundary.\<close>

lemma read_head_writes:
  assumes "fat_chain (mem s) x (x # cl)" "0 < r" "r < unat (get_cluster_size (mem s))"
    "unat n + r \<le> Suc (length cl) * unat (get_cluster_size (mem s))"
    "unat n + unat (get_cluster_size (mem s)) < 2 ^ 32"
    "resolves s buf d (unat n)" "unat d + unat n \<le> unat FS_BASE"
    and k: "k = (if of_nat r + n \<le> get_cluster_size (mem s) then n else get_cluster_size (mem s) - of_nat r)"
  shows "\<exists>s1. copy_to buf (cluster_addr (mem s) x + of_nat r) k s = Inr ((), s1)
    \<and> read_clusters (get_fs_bpb (mem s)) (get_cluster_size (mem s)) n (ucast (get_cluster_value (mem s1) x))
        (buf + ucast k) k s1
      = Some (Inr (n, s\<lparr>mem := written (mem s) d (take (unat n) (drop r (chain_bytes (mem s) (x # cl))))\<rparr>))"
proof -
  let ?m = "mem s" let ?cs = "get_cluster_size ?m"
  have x: "2 \<le> x" "fat_chain ?m (ucast (get_cluster_value ?m x)) cl" using assms(1) by auto
  have ur: "unat (of_nat r :: u32) = r" "unat (of_nat r :: u64) = r"
    using assms(3) unat_u32_less [of ?cs] by (simp_all add: unat_of_nat_small)
  have rn: "unat (of_nat r + n) = r + unat n" using ur assms(3,5) by (subst unat_add_u32) simp_all
  have kk: "unat k = min (unat n) (unat ?cs - r)"
    using k rn ur assms(3) by (auto simp: word_le_nat_alt unat_sub)
  then have kle: "unat k \<le> unat n" "unat k \<le> unat ?cs - r" by simp_all
  then have kn: "k \<le> n" by (simp add: word_le_nat_alt)
  have need: "unat n - unat k \<le> length cl * unat ?cs" using kk assms(3,4) by (auto simp: min_def)
  let ?head = "bytes ?m (cluster_addr ?m x + of_nat r) (unat k)"
  let ?s = "s\<lparr>mem := written ?m d ?head\<rparr>"
  have "far (8589934592 + 16777216) (cluster_addr ?m x + of_nat r)"
    using far_add [OF far_cluster [OF x(1)], of "of_nat r" 16777216] ur assms(3) unat_cluster_size_less [of ?m]
    by simp
  then have copy: "copy_to buf (cluster_addr ?m x + of_nat r) k s = Inr ((), ?s)"
    using copy_to_written [OF assms(6) _ assms(7), of k "8589934592 + 16777216"] kk by simp
  have img: "image_eq ?m (mem ?s)" using assms(7) kk written_image [of d ?head ?m] by simp
  note same = fat_chain_image [OF img, simplified] cluster_size_image [OF img, simplified]
    bpb_image [OF img, simplified] cluster_value_image [OF img, simplified]
    chain_bytes_image [OF img x(2), simplified]
  have bound: "unat d + unat n \<le> 2 ^ 64" using assms(7) by simp
  have dk: "unat (d + ucast k) = unat d + unat k"
    using unat_offset [of d "unat k"] assms(7) kle by simp
  have "resolves ?s (buf + ucast k) (d + ucast k) (unat n - unat k)"
    using resolves_part [OF resolves_mem [OF assms(6), of "mem ?s"] _ bound, of "unat k"] kle
    by (auto simp: written_def in_range_def)
  then have rest: "read_clusters (get_fs_bpb (mem ?s)) (get_cluster_size (mem ?s)) n
      (ucast (get_cluster_value ?m x)) (buf + ucast k) k ?s
    = Some (Inr (n, ?s\<lparr>mem := written (mem ?s) (d + ucast k) (take (unat n - unat k) (chain_bytes (mem ?s) cl))\<rparr>))"
    using assms(5,7) x(2) kn dk need kle by (intro read_clusters_writes) (simp_all add: same)
  let ?rest = "take (unat n - unat k) (chain_bytes ?m cl)"
  have "length ?rest \<le> unat n - unat k" by simp
  then have "unat d + length ?head + length ?rest \<le> 2 ^ 64"
    using bound kle unfolding length_bytes by linarith
  then have "written (mem ?s) (d + ucast k) ?rest = written ?m d (?head @ ?rest)"
    using written_append [of d ?head ?rest ?m] by simp
  moreover have "?head @ ?rest = take (unat n) (drop r (chain_bytes ?m (x # cl)))"
    using kk assms(3)
    by (auto simp: cluster_bytes_def drop_bytes take_bytes min_def)
  ultimately show ?thesis using copy rest by (intro exI [of _ ?s]) (simp add: same)
qed

lemma read_raw_data_slice:
  fixes s :: "'a machine_scheme"
  assumes "fat_chain (mem s) c cl"
    "unat pos + unat n \<le> length (chain_bytes (mem s) cl)" "unat pos < length (chain_bytes (mem s) cl)"
    "unat n + unat (get_cluster_size (mem s)) < 2 ^ 32"
    "resolves s buf d (unat n)" "unat d + unat n \<le> unat FS_BASE"
  shows "read_raw_data c buf pos n s = Inr (n, s\<lparr>mem :=
    written (mem s) d (take (unat n) (drop (unat pos) (chain_bytes (mem s) cl)))\<rparr>)"
proof -
  let ?m = "mem s" let ?cs = "get_cluster_size ?m"
  define k r where "k = unat pos div unat ?cs" and "r = unat pos mod unat ?cs"
  have pos: "unat pos = k * unat ?cs + r" by (simp add: k_def r_def)
  have cs0: "0 < unat ?cs" using assms(3) by (cases "unat ?cs = 0") (simp_all add: length_chain_bytes)
  then have cs: "?cs \<noteq> 0" by (simp add: unat_gt_0)
  have r: "r < unat ?cs" using cs0 by (simp add: r_def)
  have kl: "k < length cl"
  proof -
    have "k * unat ?cs < length cl * unat ?cs" using assms(3) pos unfolding length_chain_bytes by linarith
    then show ?thesis by simp
  qed
  define x cl' where "x = cl ! k" and "cl' = drop (Suc k) cl"
  have dk: "drop k cl = x # cl'" using kl by (simp add: x_def cl'_def Cons_nth_drop_Suc)
  have skip: "skip_clusters k c ?m = Inr x" and chain: "fat_chain ?m x (x # cl')"
    using skip_clusters_chain [OF assms(1) kl] dk by (simp_all add: x_def)
  have content: "drop (unat pos) (chain_bytes ?m cl) = drop r (chain_bytes ?m (x # cl'))"
    using drop_chain_bytes [of k cl ?m r] kl pos dk by (simp add: add.commute)
  have "length cl = k + Suc (length cl')" using kl by (simp add: cl'_def)
  then have room: "unat n + r \<le> Suc (length cl') * unat ?cs"
    using assms(2) pos by (simp add: length_chain_bytes algebra_simps)
  have ops: "unat (pos div ?cs) = k" "pos mod ?cs = of_nat r" "unat (pos mod ?cs) = r"
    by (simp_all add: k_def r_def unat_div unat_mod word_unat_eq_iff unat_of_nat
        order.strict_trans [OF _ unat_u32_less] take_bit_nat_eq_self flip: unat_mod)
  have uc: "ucast (of_nat r :: u32) = (of_nat r :: u64)"
  proof -
    have "unat (of_nat r :: u32) = r" using ops(2,3) by simp
    then show ?thesis by (metis of_nat_unat)
  qed
  show ?thesis
  proof (cases "r = 0")
    case True
    then have "read_clusters (get_fs_bpb ?m) ?cs n x buf 0 s =
        Some (Inr (n, s\<lparr>mem := written ?m d (take (unat n) (chain_bytes ?m (x # cl')))\<rparr>))"
      using read_clusters_writes [OF chain, of 0 n buf d] assms(4-6) room by simp
    with True cs skip ops content show ?thesis by (simp add: read_raw_data_def Let_def)
  next
    case False
    obtain off where "get_cluster_offset ?m x = Inr off" using cluster_offset_ok chain by auto
    with False cs skip ops content read_head_writes [OF chain _ r room assms(4-6) refl] show ?thesis
      by (auto simp: read_raw_data_def Let_def cluster_addr_def uc)
  qed
qed

text \<open>
  A position at the end of a chain of whole clusters: the walk to it steps on the end mark
  and fails the assertion, whatever the size.
\<close>

lemma skip_clusters_end:
  "fat_chain m c cl \<Longrightarrow> cl \<noteq> [] \<Longrightarrow> (0xfff7::u32) \<le> ucast (get_cluster_value m (last cl)) \<Longrightarrow>
     skip_clusters (length cl) c m = Inl Assert_failed"
proof (induction cl arbitrary: c)
  case Nil
  then show ?case by simp
next
  case (Cons x cl)
  show ?case
  proof (cases cl)
    case Nil
    with Cons.prems show ?thesis by (simp add: Let_def not_less)
  next
    case (Cons y ys)
    with Cons.prems have "ucast (get_cluster_value m x) < (0xfff7::u32)" by auto
    with Cons.prems Cons.IH [of "ucast (get_cluster_value m x)"] Cons show ?thesis by (simp add: Let_def)
  qed
qed

lemma read_raw_data_at_end:
  assumes "fat_chain (mem s) c cl" "cl \<noteq> []" "(0xfff7::u32) \<le> ucast (get_cluster_value (mem s) (last cl))"
    "get_cluster_size (mem s) \<noteq> 0" "unat pos = length (chain_bytes (mem s) cl)"
  shows "read_raw_data c buf pos n s = Inl Assert_failed"
proof -
  have "0 < unat (get_cluster_size (mem s))" using assms(4) by (simp add: unat_gt_0)
  then have "unat (pos div get_cluster_size (mem s)) = length cl"
    using assms(5) by (simp add: unat_div length_chain_bytes)
  then show ?thesis
    using assms(4) skip_clusters_end [OF assms(1-3)] by (simp add: read_raw_data_def Let_def)
qed

section \<open>A small volume\<close>

text \<open>
  For the examples: 512 byte clusters, one table and a root directory of 16 entries, with the
  two-cluster file INIT.BIN of 1024 bytes.
\<close>

definition sample_byte :: "nat \<Rightarrow> u8" where
  "sample_byte k =
     (if k = 12 then 2 else if k = 13 then 1 else if k = 14 then 1 else if k = 16 then 1
      else if k = 17 then 16 else if k = 22 then 1
      else if k = 510 then 0x55 else if k = 511 then 0xaa
      else if k = 516 then 3 else if k = 518 then 0xff else if k = 519 then 0xff
      else if 1024 \<le> k \<and> k < 1035 then [0x49, 0x4e, 0x49, 0x54, 0x20, 0x20, 0x20, 0x20, 0x42, 0x49, 0x4e] ! (k - 1024)
      else if k = 1050 then 2 else if k = 1053 then 4
      else if 1536 \<le> k then of_nat k else 0)"

definition sample_image :: memory where
  "sample_image x = sample_byte (unat (x - FS_BASE))"

lemma sample_at: "sample_image (FS_BASE + w) = sample_byte (unat w)"
  by (simp add: sample_image_def)

lemma ld16_bytes: "ld16 m a = ucast (m a) OR push_bit 8 (ucast (m (a + 1)))"
  by (simp add: eval_nat_numeral)

lemma ld32_bytes: "ld32 m a = ucast (m a) OR push_bit 8 (ucast (m (a + 1)) OR
    push_bit 8 (ucast (m (a + 2)) OR push_bit 8 (ucast (m (a + 3)))))"
  by (simp add: eval_nat_numeral add.assoc)

lemma sample_bpb: "get_fs_bpb sample_image = FS_BASE"
  by (simp add: get_fs_bpb_def ld32_bytes add.assoc sample_at sample_byte_def)

lemma sample_fields:
  "bytes_per_sector (load_BPB sample_image FS_BASE) = 512"
  "sectors_per_cluster (load_BPB sample_image FS_BASE) = 1"
  "reserved_sector_count (load_BPB sample_image FS_BASE) = 1"
  "fat_count (load_BPB sample_image FS_BASE) = 1"
  "root_entry_count (load_BPB sample_image FS_BASE) = 16"
  "sectors_per_fat (load_BPB sample_image FS_BASE) = 1"
  by (simp_all add: load_BPB_def ld16_bytes add.assoc sample_at sample_byte_def)

lemma sample_fat:
  "get_fat_table sample_image = FS_BASE + 512"
  "get_cluster_value sample_image 2 = 3" "get_cluster_value sample_image 3 = 0xffff"
  by (simp_all add: get_cluster_value_def get_fat_table_def sample_bpb sample_fields ld16_bytes add.assoc
      sample_at sample_byte_def)

lemma sample_clusters:
  "get_cluster_size sample_image = 512"
  "get_cluster_offset sample_image 2 = Inr 1536" "get_cluster_offset sample_image 3 = Inr 2048"
  "get_root_directory_count sample_image = 16" "get_root_directory sample_image = FS_BASE + 1024"
  by (simp_all add: get_cluster_size_def get_cluster_offset_def get_root_directory_count_def
      get_root_directory_def sample_bpb sample_fields)

lemma sample_chain: "fat_chain sample_image 2 [2, 3]" "length (chain_bytes sample_image [2, 3]) = 1024"
  by (simp_all add: sample_fat sample_clusters)

lemma sample_content: "chain_bytes sample_image [2, 3] ! 700 = sample_image (2236 + FS_BASE)"
  by (simp add: nth_append sample_clusters cluster_bytes_def cluster_addr_def sample_bpb add.assoc)

end
