(* ===== verification/Queues.thy ===== *)
theory Queues
  imports Heap
begin

text \<open>
  The process structure (process/process.h) and the intrusive queues of utils/list.c:
  \<open>append_list_tail\<close>, \<open>remove_list_head\<close>, \<open>is_list_empty\<close> and \<open>remove_list\<close>. A queue is a
  head with two pointers and a chain through the \<open>next\<close> fields of the processes on it;
  several queues share the process table. The locale \<open>fifo_queues\<close> states the queue
  contract, including that an operation on one queue leaves disjoint queues alone.
\<close>

section \<open>Processes\<close>

text \<open>A \<open>struct List *\<close>: null, an entry of the process table, or the list head itself.\<close>

datatype ptr = Null | Item nat | ListHead

datatype proc_state = PROC_UNUSED | PROC_INIT | PROC_RUNNING | PROC_READY | PROC_SLEEP | PROC_KILLED



text \<open>
  \<open>file\<close> holds indices into the file descriptor table, \<open>None\<close> for a null pointer;
  \<open>tf\<close>, \<open>stack\<close>, \<open>context\<close> and \<open>page_map\<close> are addresses.
\<close>

record Process =
  p_next :: ptr
  p_pid :: i32
  p_wait :: i32
  p_state :: proc_state
  p_context :: u64
  p_page_map :: u64
  p_stack :: u64
  p_file :: "nat \<Rightarrow> nat option"
  p_tf :: u64

type_synonym proc_table = "nat \<Rightarrow> Process"

record HeadList =
  l_next :: ptr
  l_tail :: ptr

type_synonym queue = "HeadList \<times> proc_table"

section \<open>Operations\<close>

text \<open>Reading and writing \<open>p->next\<close>; the head's first field doubles as a \<open>next\<close> field.\<close>

definition get_next :: "ptr \<Rightarrow> queue \<Rightarrow> (ptr, queue) outcome" where
  "get_next p q = (case p of
     Null \<Rightarrow> Inl Null_pointer
   | Item i \<Rightarrow> Inr (p_next (snd q i), q)
   | ListHead \<Rightarrow> Inr (l_next (fst q), q))"

definition set_next :: "ptr \<Rightarrow> ptr \<Rightarrow> queue \<Rightarrow> (unit, queue) outcome" where
  "set_next p v q = (case p of
     Null \<Rightarrow> Inl Null_pointer
   | Item i \<Rightarrow> Inr ((), (fst q, (snd q)(i := (snd q i)\<lparr>p_next := v\<rparr>)))
   | ListHead \<Rightarrow> Inr ((), ((fst q)\<lparr>l_next := v\<rparr>, snd q)))"

definition is_list_empty :: "HeadList \<Rightarrow> bool" where
  "is_list_empty list \<longleftrightarrow> l_next list = Null"

definition append_list_tail :: "nat \<Rightarrow> queue \<Rightarrow> (unit, queue) outcome" where
  "append_list_tail item q =
     kbind (set_next (Item item) Null q) (\<lambda>_ q.
       if is_list_empty (fst q) then
         Inr ((), ((fst q)\<lparr>l_next := Item item, l_tail := Item item\<rparr>, snd q))
       else
         kbind (set_next (l_tail (fst q)) (Item item) q) (\<lambda>_ q.
           Inr ((), ((fst q)\<lparr>l_tail := Item item\<rparr>, snd q))))"

definition remove_list_head :: "queue \<Rightarrow> (ptr, queue) outcome" where
  "remove_list_head q =
     (if is_list_empty (fst q) then Inr (Null, q)
      else let item = l_next (fst q) in
        kbind (get_next item q) (\<lambda>n q.
          let l = (fst q)\<lparr>l_next := n\<rparr> in
          Inr (item, (if l_next l = Null then l\<lparr>l_tail := Null\<rparr> else l, snd q))))"

text \<open>
  The loop of \<open>remove_list\<close>, from \<open>current\<close> with \<open>prev\<close> behind it; \<open>None\<close> is a chain that
  never ends.
\<close>

partial_function (option) remove_list_loop ::
    "ptr \<Rightarrow> ptr \<Rightarrow> i32 \<Rightarrow> queue \<Rightarrow> (ptr, queue) outcome option" where
  "remove_list_loop current prev wait q = (case current of
     Null \<Rightarrow> Some (Inr (Null, q))
   | ListHead \<Rightarrow> Some (Inl Out_of_bounds)
   | Item i \<Rightarrow>
       if p_wait (snd q i) = wait then
         Some (kbind (set_next prev (p_next (snd q i)) q) (\<lambda>_ q.
           Inr (Item i,
             (if l_next (fst q) = Null then (fst q)\<lparr>l_tail := Null\<rparr>
              else if p_next (snd q i) = Null then (fst q)\<lparr>l_tail := prev\<rparr>
              else fst q, snd q))))
       else remove_list_loop (p_next (snd q i)) (Item i) wait q)"

definition remove_list :: "i32 \<Rightarrow> queue \<Rightarrow> (ptr, queue) outcome" where
  "remove_list wait q = (case remove_list_loop (l_next (fst q)) ListHead wait q of
     None \<Rightarrow> Inl Spin | Some r \<Rightarrow> r)"

section \<open>Chains and queues\<close>

primrec chain :: "proc_table \<Rightarrow> ptr \<Rightarrow> nat list \<Rightarrow> bool" where
  "chain tbl p [] \<longleftrightarrow> p = Null"
| "chain tbl p (x # xs) \<longleftrightarrow> p = Item x \<and> chain tbl (p_next (tbl x)) xs"

definition queue_repr :: "proc_table \<Rightarrow> HeadList \<Rightarrow> nat list \<Rightarrow> bool" where
  "queue_repr tbl l xs \<longleftrightarrow> chain tbl (l_next l) xs \<and> distinct xs
     \<and> l_tail l = (if xs = [] then Null else Item (last xs))"

text \<open>Only the \<open>next\<close> fields of the processes in \<open>A\<close> may differ.\<close>

definition next_frame :: "proc_table \<Rightarrow> proc_table \<Rightarrow> nat set \<Rightarrow> bool" where
  "next_frame tbl tbl' A \<longleftrightarrow> (\<forall>i. \<exists>v. tbl' i = (tbl i)\<lparr>p_next := v\<rparr>) \<and> (\<forall>i. i \<notin> A \<longrightarrow> tbl' i = tbl i)"

lemma next_frame_fields:
  assumes "next_frame tbl tbl' A"
  shows "p_pid (tbl' i) = p_pid (tbl i)" "p_wait (tbl' i) = p_wait (tbl i)"
    "p_state (tbl' i) = p_state (tbl i)" "p_context (tbl' i) = p_context (tbl i)"
    "p_page_map (tbl' i) = p_page_map (tbl i)" "p_stack (tbl' i) = p_stack (tbl i)"
    "p_file (tbl' i) = p_file (tbl i)" "p_tf (tbl' i) = p_tf (tbl i)"
proof -
  obtain v where "tbl' i = (tbl i)\<lparr>p_next := v\<rparr>" using assms by (auto simp: next_frame_def)
  then show "p_pid (tbl' i) = p_pid (tbl i)" "p_wait (tbl' i) = p_wait (tbl i)"
    "p_state (tbl' i) = p_state (tbl i)" "p_context (tbl' i) = p_context (tbl i)"
    "p_page_map (tbl' i) = p_page_map (tbl i)" "p_stack (tbl' i) = p_stack (tbl i)"
    "p_file (tbl' i) = p_file (tbl i)" "p_tf (tbl' i) = p_tf (tbl i)"
    by simp_all
qed

lemma some_next [simp]: "\<exists>v. (t::Process) = t\<lparr>p_next := v\<rparr>"
  by (rule exI [of _ "p_next t"]) simp

lemma next_frame_refl [simp]: "next_frame tbl tbl A"
  by (simp add: next_frame_def)

lemma next_frame_upd: "i \<in> A \<Longrightarrow> next_frame tbl (tbl(i := (tbl i)\<lparr>p_next := v\<rparr>)) A"
  by (auto simp: next_frame_def)

lemma next_frame_trans:
  assumes "next_frame t1 t2 A" "next_frame t2 t3 B"
  shows "next_frame t1 t3 (A \<union> B)"
proof -
  have "\<exists>v. t3 i = (t1 i)\<lparr>p_next := v\<rparr>" for i
  proof -
    obtain v w where "t2 i = (t1 i)\<lparr>p_next := v\<rparr>" "t3 i = (t2 i)\<lparr>p_next := w\<rparr>"
      using assms unfolding next_frame_def by blast
    then show ?thesis by auto
  qed
  with assms show ?thesis by (simp add: next_frame_def)
qed

lemma next_frame_mono: "next_frame t t' A \<Longrightarrow> A \<subseteq> B \<Longrightarrow> next_frame t t' B"
  by (auto simp: next_frame_def)

lemma chain_frame:
  "next_frame tbl tbl' A \<Longrightarrow> set xs \<inter> A = {} \<Longrightarrow> chain tbl' p xs = chain tbl p xs"
  by (induction xs arbitrary: p) (auto simp: next_frame_def)

lemma queue_repr_frame:
  "next_frame tbl tbl' A \<Longrightarrow> set xs \<inter> A = {} \<Longrightarrow> queue_repr tbl l xs \<Longrightarrow> queue_repr tbl' l xs"
  by (simp add: queue_repr_def chain_frame)


text \<open>Re-linking the last element of a prefix to the start of another chain.\<close>

lemma chain_relink:
  assumes "chain tbl p (bs @ cs)" "bs \<noteq> []" "distinct bs" "chain tbl v as" "set bs \<inter> set as = {}"
  shows "chain (tbl(last bs := (tbl (last bs))\<lparr>p_next := v\<rparr>)) p (bs @ as)"
  using assms(1-3,5)
proof (induction bs arbitrary: p)
  case Nil
  then show ?case by simp
next
  case (Cons b bs)
  show ?case
  proof (cases "bs = []")
    case True
    have "chain (tbl(b := (tbl b)\<lparr>p_next := v\<rparr>)) v as \<longleftrightarrow> chain tbl v as"
      using Cons.prems(4) by (intro chain_frame [of _ _ "{b}"] next_frame_upd) auto
    with True Cons.prems assms(4) show ?thesis by (simp add: fun_upd_def)
  next
    case False
    with Cons.prems have "last bs \<noteq> b" by (metis distinct.simps(2) last_in_set)
    with False Cons show ?thesis by simp
  qed
qed

section \<open>Correctness of the operations\<close>

lemma append_list_tail_repr:
  assumes "queue_repr tbl l xs" "x \<notin> set xs"
  shows "\<exists>l' tbl'. append_list_tail x (l, tbl) = Inr ((), (l', tbl'))
     \<and> queue_repr tbl' l' (xs @ [x]) \<and> next_frame tbl tbl' (insert x (set xs))"
proof -
  let ?t1 = "tbl(x := (tbl x)\<lparr>p_next := Null\<rparr>)"
  have f1: "next_frame tbl ?t1 {x}" by (rule next_frame_upd) simp
  have c1: "chain ?t1 (l_next l) xs"
    using assms chain_frame [OF f1] by (simp add: queue_repr_def)
  show ?thesis
  proof (cases "xs = []")
    case True
    with assms have "is_list_empty l" by (simp add: queue_repr_def is_list_empty_def)
    with True show ?thesis
      using next_frame_mono [OF f1]
      by (intro exI [of _ "l\<lparr>l_next := Item x, l_tail := Item x\<rparr>"] exI [of _ ?t1])
        (simp add: append_list_tail_def set_next_def queue_repr_def)
  next
    case False
    let ?t2 = "?t1(last xs := (?t1 (last xs))\<lparr>p_next := Item x\<rparr>)"
    have "\<not> is_list_empty l"
      using False assms(1) by (cases xs) (auto simp: queue_repr_def is_list_empty_def)
    moreover have "l_tail l = Item (last xs)" using False assms(1) by (simp add: queue_repr_def)
    moreover have "chain ?t2 (l_next l) (xs @ [x])"
      using assms c1 False by (intro chain_relink [of _ _ _ "[]"]) (auto simp: queue_repr_def)
    moreover have "next_frame tbl ?t2 ({x} \<union> {last xs})"
      by (rule next_frame_trans [OF f1 next_frame_upd]) simp
    then have "next_frame tbl ?t2 (insert x (set xs))"
      using False by (auto intro: next_frame_mono)
    ultimately show ?thesis
      using assms
      by (intro exI [of _ "l\<lparr>l_tail := Item x\<rparr>"] exI [of _ ?t2])
        (simp add: append_list_tail_def set_next_def queue_repr_def)
  qed
qed

lemma remove_list_head_repr:
  assumes "queue_repr tbl l xs"
  shows "\<exists>l'. remove_list_head (l, tbl) = Inr (case xs of [] \<Rightarrow> Null | x # _ \<Rightarrow> Item x, (l', tbl))
     \<and> queue_repr tbl l' (tl xs)"
proof (cases xs)
  case Nil
  with assms show ?thesis
    by (intro exI [of _ l]) (simp add: remove_list_head_def queue_repr_def is_list_empty_def)
next
  case (Cons x ys)
  with assms have "chain tbl (p_next (tbl x)) ys" by (simp add: queue_repr_def)
  then have "p_next (tbl x) = Null \<longleftrightarrow> ys = []" by (cases ys) auto
  with assms Cons show ?thesis
    by (auto simp: remove_list_head_def queue_repr_def is_list_empty_def get_next_def Let_def)
qed

lemma remove_list_loop_none:
  "chain tbl c ys \<Longrightarrow> \<forall>y \<in> set ys. p_wait (tbl y) \<noteq> w \<Longrightarrow>
     remove_list_loop c prev w (l, tbl) = Some (Inr (Null, (l, tbl)))"
  by (induction ys arbitrary: c prev) (simp_all add: remove_list_loop.simps)

lemma remove_list_loop_found:
  "chain tbl c (bs @ i # as) \<Longrightarrow> \<forall>b \<in> set bs. p_wait (tbl b) \<noteq> w \<Longrightarrow> p_wait (tbl i) = w \<Longrightarrow>
     remove_list_loop c prev w (l, tbl) = remove_list_loop (Item i) (if bs = [] then prev else Item (last bs)) w (l, tbl)"
  by (induction bs arbitrary: c prev) (simp_all add: remove_list_loop.simps)

lemma chain_from: "chain tbl p (bs @ i # as) \<Longrightarrow> chain tbl (p_next (tbl i)) as"
  by (induction bs arbitrary: p) auto

lemma chain_head: "chain tbl p xs \<Longrightarrow> p = (case xs of [] \<Rightarrow> Null | x # _ \<Rightarrow> Item x)"
  by (cases xs) auto

lemma remove_list_none:
  assumes "queue_repr tbl l xs" "\<forall>x \<in> set xs. p_wait (tbl x) \<noteq> w"
  shows "remove_list w (l, tbl) = Inr (Null, (l, tbl))"
  using assms remove_list_loop_none [of tbl "l_next l" xs w ListHead l]
  by (simp add: remove_list_def queue_repr_def)

lemma remove_list_repr_found:
  assumes r: "queue_repr tbl l (bs @ i # as)"
    and w: "\<forall>b \<in> set bs. p_wait (tbl b) \<noteq> w" "p_wait (tbl i) = w"
  shows "\<exists>l' tbl'. remove_list w (l, tbl) = Inr (Item i, (l', tbl'))
     \<and> queue_repr tbl' l' (bs @ as) \<and> next_frame tbl tbl' (set bs)"
proof -
  have c: "chain tbl (l_next l) (bs @ i # as)" and d: "distinct (bs @ i # as)"
    and tail: "l_tail l = Item (last (i # as))"
    using r by (simp_all add: queue_repr_def)
  note ci = chain_from [OF c]
  note next_i = chain_head [OF ci]
  note found = remove_list_loop_found [OF c w, of ListHead l]
  show ?thesis
  proof (cases "bs = []")
    case True
    with found w(2) have "remove_list w (l, tbl)
      = Inr (Item i, (let l' = l\<lparr>l_next := p_next (tbl i)\<rparr> in
               if as = [] then l'\<lparr>l_tail := Null\<rparr> else l', tbl))"
      by (simp add: remove_list_def remove_list_loop.simps set_next_def next_i split: list.split)
    with True ci d tail show ?thesis by (auto simp: queue_repr_def Let_def)
  next
    case False
    let ?t = "tbl(last bs := (tbl (last bs))\<lparr>p_next := p_next (tbl i)\<rparr>)"
    have li: "last bs \<noteq> i" using False d by (auto dest: last_in_set)
    have ln: "l_next l = Item (hd bs)" using False c by (cases bs) auto
    have "remove_list w (l, tbl)
      = Inr (Item i, (if as = [] then l\<lparr>l_tail := Item (last bs)\<rparr> else l, ?t))"
      using found w(2) False li ln
      by (simp add: remove_list_def remove_list_loop.simps set_next_def next_i split: list.split)
    moreover have "chain ?t (l_next l) (bs @ as)"
      using d by (intro chain_relink [OF c False _ ci]) auto
    moreover have "next_frame tbl ?t (set bs)" using False by (intro next_frame_upd) simp
    ultimately show ?thesis using False d tail by (auto simp: queue_repr_def)
  qed
qed

section \<open>The queue contract\<close>

text \<open>Putting items in and taking them out one by one, for any pair of operations.\<close>

primrec take_many :: "('s \<Rightarrow> (ptr, 's) outcome) \<Rightarrow> nat \<Rightarrow> 's \<Rightarrow> (ptr list, 's) outcome" where
  "take_many f 0 s = Inr ([], s)"
| "take_many f (Suc n) s = kbind (f s) (\<lambda>p s. kbind (take_many f n s) (\<lambda>ps s. Inr (p # ps, s)))"

text \<open>
  \<open>repr t l xs\<close>: in the table \<open>t\<close> the head \<open>l\<close> holds the items \<open>xs\<close>, oldest first. \<open>touch\<close> is any
  change of the table that leaves the links and the keys alone.
\<close>

locale fifo_queues =
  fixes put :: "nat \<Rightarrow> 'l \<times> 't \<Rightarrow> (unit, 'l \<times> 't) outcome"
    and take_first :: "'l \<times> 't \<Rightarrow> (ptr, 'l \<times> 't) outcome"
    and take_key :: "'k \<Rightarrow> 'l \<times> 't \<Rightarrow> (ptr, 'l \<times> 't) outcome"
    and repr :: "'t \<Rightarrow> 'l \<Rightarrow> nat list \<Rightarrow> bool"
    and key :: "'t \<Rightarrow> nat \<Rightarrow> 'k"
    and frame :: "'t \<Rightarrow> 't \<Rightarrow> nat set \<Rightarrow> bool"
    and touch :: "nat \<Rightarrow> 't \<Rightarrow> 't"
  assumes put_law: "repr t l xs \<Longrightarrow> x \<notin> set xs \<Longrightarrow>
      \<exists>l' t'. put x (l, t) = Inr ((), (l', t')) \<and> repr t' l' (xs @ [x]) \<and> frame t t' (insert x (set xs))"
    and take_law: "repr t l xs \<Longrightarrow>
      \<exists>l'. take_first (l, t) = Inr (case xs of [] \<Rightarrow> Null | x # _ \<Rightarrow> Item x, (l', t)) \<and> repr t l' (tl xs)"
    and take_key_absent: "repr t l xs \<Longrightarrow> \<forall>x \<in> set xs. key t x \<noteq> k \<Longrightarrow>
      take_key k (l, t) = Inr (Null, (l, t))"
    and take_key_law: "repr t l (bs @ x # as) \<Longrightarrow> \<forall>b \<in> set bs. key t b \<noteq> k \<Longrightarrow> key t x = k \<Longrightarrow>
      \<exists>l' t'. take_key k (l, t) = Inr (Item x, (l', t')) \<and> repr t' l' (bs @ as) \<and> frame t t' (set bs)"
    and repr_frame: "frame t t' A \<Longrightarrow> set xs \<inter> A = {} \<Longrightarrow> repr t l xs \<Longrightarrow> repr t' l xs"
    and key_frame: "frame t t' A \<Longrightarrow> key t' = key t"
    and repr_touch: "repr (touch i t) l xs = repr t l xs"
    and key_touch: "key (touch i t) = key t"
    and repr_distinct: "repr t l xs \<Longrightarrow> distinct xs"
begin

lemma put_all:
  "repr t l xs \<Longrightarrow> distinct ys \<Longrightarrow> set ys \<inter> set xs = {} \<Longrightarrow>
     \<exists>l' t'. for_each ys put (l, t) = Inr ((), (l', t')) \<and> repr t' l' (xs @ ys)"
proof (induction ys arbitrary: t l xs)
  case Nil
  then show ?case by simp
next
  case (Cons y ys)
  then obtain l1 t1 where 1: "put y (l, t) = Inr ((), (l1, t1))" "repr t1 l1 (xs @ [y])"
    using put_law [of t l xs y] by auto
  have "\<exists>l' t'. for_each ys put (l1, t1) = Inr ((), (l', t')) \<and> repr t' l' ((xs @ [y]) @ ys)"
    using Cons.prems by (intro Cons.IH [OF 1(2)]) auto
  with 1 show ?case by auto
qed

lemma take_all:
  "repr t l xs \<Longrightarrow>
     \<exists>l'. take_many take_first (length xs) (l, t) = Inr (map Item xs, (l', t)) \<and> repr t l' []"
proof (induction xs arbitrary: l)
  case Nil
  then show ?case by auto
next
  case (Cons x xs)
  then obtain l1 where 1: "take_first (l, t) = Inr (Item x, (l1, t))" "repr t l1 xs"
    using take_law [of t l "x # xs"] by auto
  with Cons.IH [OF 1(2)] show ?case by auto
qed

text \<open>First in, first out: items come out in the order they went in.\<close>

lemma fifo:
  assumes "repr t l []" "distinct ys"
  shows "\<exists>q l' t'. for_each ys put (l, t) = Inr ((), q)
     \<and> take_many take_first (length ys) q = Inr (map Item ys, (l', t')) \<and> repr t' l' []"
  using put_all [OF assms(1,2)] take_all by fastforce

text \<open>One step of a loop that moves the items with a given key from a queue to another.\<close>

lemma move_step:
  assumes r: "repr t w (bs @ x # as)" "repr t r ys" "set (bs @ x # as) \<inter> set ys = {}"
    and k: "\<forall>b \<in> set bs. key t b \<noteq> k" "key t x = k"
  shows "\<exists>w' t1 r' t2. take_key k (w, t) = Inr (Item x, (w', t1))
     \<and> put x (r, touch x t1) = Inr ((), (r', t2))
     \<and> repr t2 w' (bs @ as) \<and> repr t2 r' (ys @ [x]) \<and> key t2 = key t"
proof -
  obtain w' t1 where 1: "take_key k (w, t) = Inr (Item x, (w', t1))" "repr t1 w' (bs @ as)"
    "frame t t1 (set bs)"
    using take_key_law [OF r(1) k] by auto
  have d: "distinct (bs @ x # as)" using repr_distinct r(1) by blast
  have "repr (touch x t1) r ys"
    using r by (subst repr_touch, intro repr_frame [OF 1(3)]) auto
  moreover have x: "x \<notin> set ys" using r(3) by auto
  ultimately obtain r' t2 where 2: "put x (r, touch x t1) = Inr ((), (r', t2))" "repr t2 r' (ys @ [x])"
    "frame (touch x t1) t2 (insert x (set ys))"
    using put_law by blast
  have "repr t2 w' (bs @ as)"
    using 1(2) d r(3) by (intro repr_frame [OF 2(3)]) (auto simp: repr_touch)
  moreover have "key t2 = key t" using key_frame [OF 1(3)] key_frame [OF 2(3)] by (simp add: key_touch)
  ultimately show ?thesis using 1 2 by auto
qed

end

definition set_state :: "nat \<Rightarrow> proc_state \<Rightarrow> proc_table \<Rightarrow> proc_table" where
  "set_state i st tbl = tbl(i := (tbl i)\<lparr>p_state := st\<rparr>)"

lemma chain_cong: "(\<And>i. i \<in> set xs \<Longrightarrow> p_next (t' i) = p_next (t i)) \<Longrightarrow> chain t' p xs = chain t p xs"
  by (induction xs arbitrary: p) auto

lemma queue_repr_cong:
  "(\<And>i. i \<in> set xs \<Longrightarrow> p_next (t' i) = p_next (t i)) \<Longrightarrow> queue_repr t' l xs = queue_repr t l xs"
  using chain_cong [of xs t' t] by (simp add: queue_repr_def)

interpretation pq: fifo_queues append_list_tail remove_list_head remove_list queue_repr
    "\<lambda>t i. p_wait (t i)" next_frame "\<lambda>i. set_state i PROC_READY"
proof
  show "queue_repr (set_state i PROC_READY t) l xs = queue_repr t l xs" for i t l xs
    by (rule queue_repr_cong) (simp add: set_state_def)
  show "(\<lambda>j. p_wait (set_state i PROC_READY t j)) = (\<lambda>j. p_wait (t j))" for i t
    by (rule ext) (simp add: set_state_def)
  show "(\<lambda>i. p_wait (t' i)) = (\<lambda>i. p_wait (t i))" if "next_frame t t' A" for t t' A
    using next_frame_fields(2) [OF that] by simp
qed (use append_list_tail_repr remove_list_head_repr remove_list_none remove_list_repr_found
      queue_repr_frame in \<open>auto simp: queue_repr_def\<close>)

section \<open>Properties of the queues\<close>

lemma find_split: "find P xs = Some i \<Longrightarrow> \<exists>bs as. xs = bs @ i # as \<and> (\<forall>b \<in> set bs. \<not> P b) \<and> P i"
proof (induction xs)
  case Nil
  then show ?case by simp
next
  case (Cons x xs)
  show ?case
  proof (cases "P x")
    case True
    with Cons.prems show ?thesis by (intro exI [of _ "[]"] exI [of _ xs]) auto
  next
    case False
    with Cons obtain bs as where "xs = bs @ i # as" "\<forall>b \<in> set bs. \<not> P b" "P i" by auto
    with False show ?thesis by (intro exI [of _ "x # bs"] exI [of _ as]) auto
  qed
qed

text \<open>A table of waiting processes, for the witnesses.\<close>

definition blank_process :: Process where
  "blank_process = \<lparr>p_next = Null, p_pid = 0, p_wait = 0, p_state = PROC_UNUSED, p_context = 0,
     p_page_map = 0, p_stack = 0, p_file = (\<lambda>_. None), p_tf = 0\<rparr>"

definition waiting_table :: proc_table where
  "waiting_table = (\<lambda>i. blank_process\<lparr>p_next := (if i = 1 then Item 2 else if i = 2 then Item 3 else Null),
     p_wait := (if i = 2 then -1 else -2)\<rparr>)"

lemma waiting_queue: "queue_repr waiting_table \<lparr>l_next = Item 1, l_tail = Item 3\<rparr> [1, 2, 3]"
  by (simp add: queue_repr_def waiting_table_def)

text \<open>
  The queues of list.c are first in, first out. Items appended one after the
  other to an empty queue are removed from its head in the same order, each exactly once,
  and the queue is empty again.
\<close>
theorem queue_is_fifo:
  assumes "distinct ys"
  shows "\<exists>q l' tbl'. for_each ys append_list_tail (\<lparr>l_next = Null, l_tail = Null\<rparr>, tbl) = Inr ((), q)
     \<and> take_many remove_list_head (length ys) q = Inr (map Item ys, (l', tbl'))
     \<and> is_list_empty l' \<and> remove_list_head (l', tbl') = Inr (Null, (l', tbl'))"
proof -
  have "queue_repr tbl \<lparr>l_next = Null, l_tail = Null\<rparr> []" by (simp add: queue_repr_def)
  then obtain q l' tbl' where "for_each ys append_list_tail (\<lparr>l_next = Null, l_tail = Null\<rparr>, tbl) = Inr ((), q)"
    "take_many remove_list_head (length ys) q = Inr (map Item ys, (l', tbl'))" "queue_repr tbl' l' []"
    using pq.fifo assms by blast
  then show ?thesis by (auto simp: queue_repr_def is_list_empty_def remove_list_head_def)
qed

lemma queue_is_fifo_witness:
  "\<exists>q l' tbl'. for_each [2, 0, 7] append_list_tail (\<lparr>l_next = Null, l_tail = Null\<rparr>, waiting_table) = Inr ((), q)
     \<and> take_many remove_list_head 3 q = Inr ([Item 2, Item 0, Item 7], (l', tbl')) \<and> is_list_empty l'"
  using queue_is_fifo [of "[2, 0, 7]" waiting_table] by (auto simp: numeral_3_eq_3)

text \<open>
  \<open>remove_list\<close> takes out exactly the first process whose \<open>wait\<close> is the given
  value, or nothing when there is none; the order of the others is kept, the queue stays
  well formed (its tail pointer included) and every queue with other processes is untouched.
\<close>
theorem remove_list_takes_first_match:
  assumes "queue_repr tbl l xs"
  shows "\<exists>l' tbl'. remove_list w (l, tbl)
       = Inr (case find (\<lambda>i. p_wait (tbl i) = w) xs of None \<Rightarrow> Null | Some i \<Rightarrow> Item i, (l', tbl'))
     \<and> queue_repr tbl' l' (case find (\<lambda>i. p_wait (tbl i) = w) xs of None \<Rightarrow> xs | Some i \<Rightarrow> remove1 i xs)
     \<and> (\<forall>l2 ys. set ys \<inter> set xs = {} \<longrightarrow> queue_repr tbl l2 ys \<longrightarrow> queue_repr tbl' l2 ys)"
proof (cases "find (\<lambda>i. p_wait (tbl i) = w) xs")
  case None
  then have "\<forall>x \<in> set xs. p_wait (tbl x) \<noteq> w" by (simp add: find_None_iff)
  with None assms remove_list_none [OF assms, of w] show ?thesis by simp
next
  case (Some i)
  then obtain bs as where xs: "xs = bs @ i # as" "\<forall>b \<in> set bs. p_wait (tbl b) \<noteq> w" "p_wait (tbl i) = w"
    using find_split by fastforce
  with assms have "i \<notin> set bs" by (auto simp: queue_repr_def)
  then have r: "remove1 i xs = bs @ as" by (simp add: xs(1) remove1_append)
  obtain l' tbl' where *: "remove_list w (l, tbl) = Inr (Item i, (l', tbl'))"
    "queue_repr tbl' l' (bs @ as)" "next_frame tbl tbl' (set bs)"
    using remove_list_repr_found [of tbl l bs i as w] assms xs by auto
  have "queue_repr tbl' l2 ys" if "set ys \<inter> set xs = {}" "queue_repr tbl l2 ys" for l2 ys
    using that xs(1) by (intro queue_repr_frame [OF *(3)]) auto
  with * Some r show ?thesis by auto
qed

lemma remove_list_takes_first_match_witness:
  "\<exists>l' tbl'. remove_list (- 2) (\<lparr>l_next = Item 1, l_tail = Item 3\<rparr>, waiting_table) = Inr (Item 1, (l', tbl'))
     \<and> queue_repr tbl' l' [2, 3]"
  using remove_list_takes_first_match [OF waiting_queue, of "- 2"]
  by (auto simp: waiting_table_def)

end
