(* ===== verification/Console.thy ===== *)
theory Console
  imports Access
begin

text \<open>
  The serial console: the UART driver (uart/uart.c) on arbitrary device behaviour, the number
  and string formatting and \<open>printk\<close> of utils/print.c with its 1024 byte buffer, and the
  code of user/lib/print.c that \<open>printf\<close> shares with it. \<open>printk\<close> is proved to send
  exactly what a reference renderer without buffers and positions gives, or to overrun its buffer.
\<close>

section \<open>The UART\<close>

definition IO_BASE_ADDR :: u64 where "IO_BASE_ADDR = P2V 0x3f000000"
definition UART_BASE_ADDR :: u64 where "UART_BASE_ADDR = IO_BASE_ADDR + 0x200000"
definition UART0_DR :: u64 where "UART0_DR = UART_BASE_ADDR + 0x1000"
definition UART0_FR :: u64 where "UART0_FR = UART_BASE_ADDR + 0x1018"
definition UART0_CR :: u64 where "UART0_CR = UART_BASE_ADDR + 0x1030"
definition UART0_LCRH :: u64 where "UART0_LCRH = UART_BASE_ADDR + 0x102c"
definition UART0_FBRD :: u64 where "UART0_FBRD = UART_BASE_ADDR + 0x1028"
definition UART0_IBRD :: u64 where "UART0_IBRD = UART_BASE_ADDR + 0x1024"
definition UART0_IMSC :: u64 where "UART0_IMSC = UART_BASE_ADDR + 0x1038"
definition UART0_MIS :: u64 where "UART0_MIS = UART_BASE_ADDR + 0x1040"
definition UART0_ICR :: u64 where "UART0_ICR = UART_BASE_ADDR + 0x1044"

text \<open>\<open>while (inw(reg) & (1 << b)) { }\<close>; \<open>None\<close> when the bit stays set for ever.\<close>

partial_function (option) poll :: "u64 \<Rightarrow> nat \<Rightarrow> 'a machine_scheme \<Rightarrow> 'a machine_scheme option" where
  "poll reg b s = (let (v, s') = inw reg s in
     if v AND push_bit b 1 \<noteq> 0 then poll reg b s' else Some s')"

definition write_char :: "u8 \<Rightarrow> 'a machine_scheme \<Rightarrow> (unit, 'a machine_scheme) outcome" where
  "write_char c s = (case poll UART0_FR 5 s of
     None \<Rightarrow> Inl Spin | Some s \<Rightarrow> Inr ((), outw UART0_DR (ucast c) s))"

definition read_char :: "'a machine_scheme \<Rightarrow> (u8, 'a machine_scheme) outcome" where
  "read_char s = (case poll UART0_FR 4 s of
     None \<Rightarrow> Inl Spin | Some s \<Rightarrow> let (v, s) = inw UART0_DR s in Inr (ucast v, s))"

text \<open>A string is the list of its bytes before the terminating 0.\<close>

definition ascii :: "string \<Rightarrow> u8 list" where
  "ascii cs = map of_char cs"

primrec write_string :: "u8 list \<Rightarrow> 'a machine_scheme \<Rightarrow> (unit, 'a machine_scheme) outcome" where
  "write_string [] s = Inr ((), s)"
| "write_string (c # cs) s = kbind (write_char c s) (\<lambda>_. write_string cs)"

definition init_uart :: "'a machine_scheme \<Rightarrow> 'a machine_scheme" where
  "init_uart s = outw UART0_CR (push_bit 0 1 OR push_bit 8 1 OR push_bit 9 1)
     (outw UART0_IMSC (push_bit 4 1)
     (outw UART0_LCRH (push_bit 5 1 OR push_bit 6 1)
     (outw UART0_FBRD 0
     (outw UART0_IBRD 26
     (outw UART0_CR 0 s)))))"

section \<open>Formatting\<close>

type_synonym text_buffer = "nat \<Rightarrow> u8"

definition put_char :: "nat \<Rightarrow> u8 \<Rightarrow> text_buffer \<Rightarrow> (unit, text_buffer) outcome" where
  "put_char p c b = (if p < 1024 then Inr ((), b(p := c)) else Inl Out_of_bounds)"

primrec put_chars :: "nat \<Rightarrow> u8 list \<Rightarrow> text_buffer \<Rightarrow> (nat, text_buffer) outcome" where
  "put_chars p [] b = Inr (p, b)"
| "put_chars p (c # cs) b = kbind (put_char p c b) (\<lambda>_. put_chars (Suc p) cs)"

definition read_string :: "nat \<Rightarrow> u8 list \<Rightarrow> text_buffer \<Rightarrow> (nat, text_buffer) outcome" where
  "read_string p string b = kbind (put_chars p string b) (\<lambda>_ b. Inr (length string, b))"

definition digits_map :: "nat \<Rightarrow> u8" where
  "digits_map d = (if d < 10 then 0x30 + of_nat d else 0x41 + of_nat (d - 10))"

text \<open>
  The \<open>do ... while\<close> loop that collects digits, last one first, in \<open>digits_buffer[25]\<close>.
\<close>

function digit_loop :: "u64 \<Rightarrow> u64 \<Rightarrow> u8 list \<Rightarrow> halt + u8 list" where
  "digit_loop base digits buf =
     (if 25 \<le> length buf then Inl Out_of_bounds
      else let buf = buf @ [digits_map (unat (digits mod base))] in
        if digits div base \<noteq> 0 then digit_loop base (digits div base) buf else Inr buf)"
  by auto
termination by (relation "measure (\<lambda>(base, digits, buf). 25 - length buf)") auto

declare digit_loop.simps [simp del]

definition hex_to_string :: "nat \<Rightarrow> u64 \<Rightarrow> text_buffer \<Rightarrow> (nat, text_buffer) outcome" where
  "hex_to_string p digits b = (case digit_loop 16 digits [] of
     Inl h \<Rightarrow> Inl h
   | Inr buf \<Rightarrow> kbind (put_chars p (rev buf) b) (\<lambda>p b.
       kbind (put_char p 0x48 b) (\<lambda>_ b. Inr (length buf + 1, b))))"

definition udecimal_to_string :: "nat \<Rightarrow> u64 \<Rightarrow> text_buffer \<Rightarrow> (nat, text_buffer) outcome" where
  "udecimal_to_string p digits b = (case digit_loop 10 digits [] of
     Inl h \<Rightarrow> Inl h
   | Inr buf \<Rightarrow> kbind (put_chars p (rev buf) b) (\<lambda>_ b. Inr (length buf, b)))"

definition decimal_to_string :: "nat \<Rightarrow> u64 \<Rightarrow> text_buffer \<Rightarrow> (nat, text_buffer) outcome" where
  "decimal_to_string p digits b =
     (if sint digits < 0 then
        kbind (put_char p 0x2d b) (\<lambda>_ b.
        kbind (udecimal_to_string (Suc p) (- digits) b) (\<lambda>k b. Inr (1 + k, b)))
      else udecimal_to_string p digits b)"

section \<open>printk\<close>

text \<open>A variadic argument: an integer register or a pointer to a string.\<close>

datatype va = Num u64 | Text "u8 list"

abbreviation percent :: u8 where "percent \<equiv> 0x25"

text \<open>
  The loop over the format. A directive with no argument left, or with one of the other kind,
  is undefined behaviour. An unknown directive prints the percent sign and goes on with the
  character after it.
\<close>

fun printk_loop :: "u8 list \<Rightarrow> va list \<Rightarrow> nat \<Rightarrow> text_buffer \<Rightarrow> (nat, text_buffer) outcome" where
  "printk_loop [] args p b = Inr (p, b)"
| "printk_loop (c # fmt) args p b =
     (if c \<noteq> percent then kbind (put_char p c b) (\<lambda>_. printk_loop fmt args (Suc p))
      else case fmt of
        d # fmt' \<Rightarrow>
          if d = 0x78 then (case args of
              Num n # args \<Rightarrow> kbind (hex_to_string p n b) (\<lambda>k. printk_loop fmt' args (p + k))
            | _ \<Rightarrow> Inl Out_of_bounds)
          else if d = 0x75 then (case args of
              Num n # args \<Rightarrow> kbind (udecimal_to_string p n b) (\<lambda>k. printk_loop fmt' args (p + k))
            | _ \<Rightarrow> Inl Out_of_bounds)
          else if d = 0x64 then (case args of
              Num n # args \<Rightarrow> kbind (decimal_to_string p (scast (ucast n :: i32)) b)
                (\<lambda>k. printk_loop fmt' args (p + k))
            | _ \<Rightarrow> Inl Out_of_bounds)
          else if d = 0x73 then (case args of
              Text t # args \<Rightarrow> kbind (read_string p t b) (\<lambda>k. printk_loop fmt' args (p + k))
            | _ \<Rightarrow> Inl Out_of_bounds)
          else kbind (put_char p percent b) (\<lambda>_. printk_loop fmt args (Suc p))
      | [] \<Rightarrow> kbind (put_char p percent b) (\<lambda>_. printk_loop fmt args (Suc p)))"

primrec write_console :: "u8 list \<Rightarrow> 'a machine_scheme \<Rightarrow> (unit, 'a machine_scheme) outcome" where
  "write_console [] s = Inr ((), s)"
| "write_console (c # cs) s = kbind (write_char c s) (\<lambda>_. write_console cs)"

definition printk :: "u8 list \<Rightarrow> va list \<Rightarrow> 'a machine_scheme \<Rightarrow> (nat, 'a machine_scheme) outcome" where
  "printk format args s = (case printk_loop format args 0 (\<lambda>_. 0) of
     Inl h \<Rightarrow> Inl h
   | Inr (buffer_size, buffer) \<Rightarrow>
       kbind (write_console (map buffer [0..<buffer_size]) s) (\<lambda>_ s. Inr (buffer_size, s)))"

section \<open>A reference renderer\<close>

fun show_base :: "nat \<Rightarrow> nat \<Rightarrow> u8 list" where
  "show_base b n = (if n < b \<or> b < 2 then [digits_map n]
     else show_base b (n div b) @ [digits_map (n mod b)])"

declare show_base.simps [simp del]

definition show_int32 :: "i32 \<Rightarrow> u8 list" where
  "show_int32 w = (if sint w < 0 then 0x2d # show_base 10 (nat (- sint w)) else show_base 10 (nat (sint w)))"

fun render :: "u8 list \<Rightarrow> va list \<Rightarrow> u8 list option" where
  "render [] args = Some []"
| "render (c # fmt) args =
     (if c \<noteq> percent then map_option (Cons c) (render fmt args)
      else case fmt of
        d # fmt' \<Rightarrow>
          if d = 0x78 then (case args of
              Num n # args \<Rightarrow> map_option (append (show_base 16 (unat n) @ [0x48])) (render fmt' args)
            | _ \<Rightarrow> None)
          else if d = 0x75 then (case args of
              Num n # args \<Rightarrow> map_option (append (show_base 10 (unat n))) (render fmt' args) | _ \<Rightarrow> None)
          else if d = 0x64 then (case args of
              Num n # args \<Rightarrow> map_option (append (show_int32 (ucast n))) (render fmt' args) | _ \<Rightarrow> None)
          else if d = 0x73 then (case args of
              Text t # args \<Rightarrow> map_option (append t) (render fmt' args) | _ \<Rightarrow> None)
          else map_option (Cons percent) (render fmt args)
      | [] \<Rightarrow> Some [percent])"

section \<open>Digits\<close>

lemma digit_loop_show:
  fixes base digits :: u64
  assumes "2 \<le> unat base" "unat digits < unat base ^ k" "1 \<le> k" "length buf + k \<le> 25"
  shows "digit_loop base digits buf = Inr (buf @ rev (show_base (unat base) (unat digits)))
    \<and> length (show_base (unat base) (unat digits)) \<le> k"
  using assms(2-4)
proof (induction k arbitrary: digits buf)
  case 0
  then show ?case by simp
next
  case (Suc k)
  show ?case
  proof (cases "unat digits < unat base")
    case True
    then have "digits div base = 0" "digits mod base = digits"
      by (simp_all add: word_unat_eq_iff unat_div unat_mod)
    then show ?thesis
      using True Suc.prems by (subst digit_loop.simps) (simp add: show_base.simps)
  next
    case False
    then have nz: "digits div base \<noteq> 0" using assms(1)
      by (simp add: word_unat_eq_iff unat_div div_greater_zero_iff)
    have "unat base ^ Suc k = unat base ^ k * unat base" by simp
    then have small: "unat (digits div base) < unat base ^ k"
      using Suc.prems(1) by (simp add: unat_div less_mult_imp_div_less mult.commute)
    have k: "1 \<le> k" using False Suc.prems(1) by (cases k) auto
    have "show_base (unat base) (unat digits) = show_base (unat base) (unat (digits div base))
        @ [digits_map (unat (digits mod base))]"
      using False assms(1) by (subst show_base.simps) (simp add: unat_div unat_mod)
    with Suc.IH [OF small k, of "buf @ [digits_map (unat (digits mod base))]"] Suc.prems nz
    show ?thesis by (subst digit_loop.simps) (simp add: Let_def)
  qed
qed

lemma digit_loop_10: "digit_loop 10 n [] = Inr (rev (show_base 10 (unat n)))"
  "length (show_base 10 (unat n)) \<le> 20"
  using digit_loop_show [of 10 n 20 "[]"] unat_u64_less [of n] by simp_all

lemma digit_loop_16: "digit_loop 16 n [] = Inr (rev (show_base 16 (unat n)))"
  "length (show_base 16 (unat n)) \<le> 16"
  using digit_loop_show [of 16 n 16 "[]"] unat_u64_less [of n] by simp_all

section \<open>Text in the buffer\<close>

definition spliced :: "text_buffer \<Rightarrow> nat \<Rightarrow> u8 list \<Rightarrow> text_buffer" where
  "spliced b p cs = (\<lambda>i. if p \<le> i \<and> i < p + length cs then cs ! (i - p) else b i)"

lemma spliced_Nil [simp]: "spliced b p [] = b"
  by (auto simp: spliced_def fun_eq_iff)

lemma spliced_Cons: "spliced (b(p := c)) (Suc p) cs = spliced b p (c # cs)"
  by (rule ext) (auto simp: spliced_def nth_Cons' dest: le_neq_implies_less)

lemma spliced_append: "spliced (spliced b p xs) (p + length xs) ys = spliced b p (xs @ ys)"
proof (induction xs arbitrary: b p)
  case Nil
  then show ?case by simp
next
  case (Cons x xs)
  have "spliced (spliced b p (x # xs)) (p + length (x # xs)) ys
      = spliced (spliced (b(p := x)) (Suc p) xs) (Suc p + length xs) ys"
    by (simp only: spliced_Cons list.size add_Suc_right add_Suc add_0_right)
  also have "\<dots> = spliced (b(p := x)) (Suc p) (xs @ ys)" by (rule Cons)
  also have "\<dots> = spliced b p (x # xs @ ys)" by (rule spliced_Cons)
  finally show ?case by simp
qed

lemma map_spliced: "map (spliced b p cs) [p..<p + length cs] = cs"
  by (rule nth_equalityI) (simp_all add: spliced_def)

lemma put_chars_spliced:
  "p \<le> 1024 \<Longrightarrow> put_chars p cs b =
     (if p + length cs \<le> 1024 then Inr (p + length cs, spliced b p cs) else Inl Out_of_bounds)"
proof (induction cs arbitrary: p b)
  case Nil
  then show ?case by simp
next
  case (Cons c cs)
  then show ?case by (auto simp: put_char_def spliced_Cons)
qed

text \<open>A formatter that puts \<open>t\<close> at its position and returns its length.\<close>

definition emits :: "(nat \<Rightarrow> text_buffer \<Rightarrow> (nat, text_buffer) outcome) \<Rightarrow> u8 list \<Rightarrow> bool" where
  "emits f t \<longleftrightarrow> (\<forall>p b. p \<le> 1024 \<longrightarrow> f p b =
     (if p + length t \<le> 1024 then Inr (length t, spliced b p t) else Inl Out_of_bounds))"

lemma emits_read_string: "emits (\<lambda>p. read_string p t) t"
  by (simp add: emits_def read_string_def put_chars_spliced)

lemma emits_udecimal: "emits (\<lambda>p. udecimal_to_string p n) (show_base 10 (unat n))"
  by (simp add: emits_def udecimal_to_string_def put_chars_spliced digit_loop_10)

lemma spliced_snoc: "(spliced b p xs)(p + length xs := c) = spliced b p (xs @ [c])"
  using spliced_append [of b p xs "[c]"] spliced_Cons [of "spliced b p xs" "p + length xs" c "[]"] by simp

lemma emits_hex: "emits (\<lambda>p. hex_to_string p n) (show_base 16 (unat n) @ [0x48])"
  by (auto simp: emits_def hex_to_string_def put_chars_spliced digit_loop_16 put_char_def spliced_snoc)

lemma emits_decimal: "emits (\<lambda>p. decimal_to_string p (scast w)) (show_int32 w)"
proof -
  have s: "sint (scast w :: u64) = sint w"
    using sint_bounds [of w] by (simp add: signed_scast_eq signed_take_bit_int_eq_self)
  have "unat (- (scast w :: u64)) = nat (- sint w)" if "sint w < 0"
  proof -
    have "uint (- (scast w :: u64)) = (- uint (scast w :: u64)) mod 2 ^ 64"
      by (simp add: uint_word_ariths)
    also have "\<dots> = (- sint (scast w :: u64)) mod 2 ^ 64"
      by (simp add: uint_sint take_bit_eq_mod mod_minus_eq)
    also have "\<dots> = - sint w" using that sint_bounds [of w] s by simp
    finally show ?thesis by (simp add: unat_eq_nat_uint)
  qed
  moreover have "unat (scast w :: u64) = nat (sint w)" if "\<not> sint w < 0"
  proof -
    have "uint (scast w :: u64) = sint (scast w :: u64) mod 2 ^ 64"
      by (simp add: uint_sint take_bit_eq_mod)
    also have "\<dots> = sint w" using that sint_bounds [of w] s by simp
    finally show ?thesis by (simp add: unat_eq_nat_uint)
  qed
  ultimately show ?thesis
    using emits_udecimal [of "- scast w"] emits_udecimal [of "scast w"]
    by (auto simp: emits_def decimal_to_string_def show_int32_def s put_char_def spliced_Cons)
qed

section \<open>printk renders\<close>

text \<open>The loop from position \<open>p\<close> against the text \<open>t\<close> that is still to come.\<close>

definition rendered :: "u8 list option \<Rightarrow> nat \<Rightarrow> text_buffer \<Rightarrow> (nat, text_buffer) outcome" where
  "rendered t p b = (case t of None \<Rightarrow> Inl Out_of_bounds
     | Some t \<Rightarrow> if p + length t \<le> 1024 then Inr (p + length t, spliced b p t) else Inl Out_of_bounds)"

lemma put_char_rendered:
  assumes "\<And>b. Suc p \<le> 1024 \<Longrightarrow> f b = rendered r (Suc p) b"
  shows "kbind (put_char p c b) (\<lambda>_. f) = rendered (map_option (Cons c) r) p b"
  using assms by (auto simp: put_char_def rendered_def spliced_Cons split: option.split)

lemma emits_rendered:
  assumes "emits f t" "p \<le> 1024"
    "\<And>b. p + length t \<le> 1024 \<Longrightarrow> g (length t) b = rendered r (p + length t) b"
  shows "kbind (f p b) g = rendered (map_option (append t) r) p b"
  using assms spliced_append [of b p t]
  by (auto simp: emits_def rendered_def add.assoc split: option.split)

text \<open>One directive or character at a time.\<close>

lemma printk_loop_Cons:
  "c \<noteq> percent \<Longrightarrow> printk_loop (c # fmt) args p b = kbind (put_char p c b) (\<lambda>_. printk_loop fmt args (Suc p))"
  "printk_loop [percent] args p b = kbind (put_char p percent b) (\<lambda>_. printk_loop [] args (Suc p))"
  "printk_loop (percent # 0x78 # fmt) (Num n # args) p b
     = kbind (hex_to_string p n b) (\<lambda>k. printk_loop fmt args (p + k))"
  "printk_loop (percent # 0x75 # fmt) (Num n # args) p b
     = kbind (udecimal_to_string p n b) (\<lambda>k. printk_loop fmt args (p + k))"
  "printk_loop (percent # 0x64 # fmt) (Num n # args) p b
     = kbind (decimal_to_string p (scast (ucast n :: i32)) b) (\<lambda>k. printk_loop fmt args (p + k))"
  "printk_loop (percent # 0x73 # fmt) (Text t # args) p b
     = kbind (read_string p t b) (\<lambda>k. printk_loop fmt args (p + k))"
  "d \<notin> {0x78, 0x75, 0x64, 0x73} \<Longrightarrow> printk_loop (percent # d # fmt) args p b
     = kbind (put_char p percent b) (\<lambda>_. printk_loop (d # fmt) args (Suc p))"
  "d \<in> {0x78, 0x75, 0x64} \<Longrightarrow> \<forall>n r. args \<noteq> Num n # r \<Longrightarrow> printk_loop (percent # d # fmt) args p b = Inl Out_of_bounds"
  "\<forall>t r. args \<noteq> Text t # r \<Longrightarrow> printk_loop (percent # 0x73 # fmt) args p b = Inl Out_of_bounds"
  by (subst printk_loop.simps, auto split: list.split va.split simp del: printk_loop.simps(2))+

lemma render_Cons:
  "c \<noteq> percent \<Longrightarrow> render (c # fmt) args = map_option (Cons c) (render fmt args)"
  "render [percent] args = Some [percent]"
  "render (percent # 0x78 # fmt) (Num n # args) = map_option (append (show_base 16 (unat n) @ [0x48])) (render fmt args)"
  "render (percent # 0x75 # fmt) (Num n # args) = map_option (append (show_base 10 (unat n))) (render fmt args)"
  "render (percent # 0x64 # fmt) (Num n # args) = map_option (append (show_int32 (ucast n))) (render fmt args)"
  "render (percent # 0x73 # fmt) (Text t # args) = map_option (append t) (render fmt args)"
  "d \<notin> {0x78, 0x75, 0x64, 0x73} \<Longrightarrow> render (percent # d # fmt) args = map_option (Cons percent) (render (d # fmt) args)"
  "d \<in> {0x78, 0x75, 0x64} \<Longrightarrow> \<forall>n r. args \<noteq> Num n # r \<Longrightarrow> render (percent # d # fmt) args = None"
  "\<forall>t r. args \<noteq> Text t # r \<Longrightarrow> render (percent # 0x73 # fmt) args = None"
  by (subst render.simps, auto split: list.split va.split simp del: render.simps(2))+

lemma printk_loop_renders:
  "p \<le> 1024 \<Longrightarrow> printk_loop fmt args p b = rendered (render fmt args) p b"
proof (induction fmt arbitrary: args p b rule: length_induct)
  case (1 fmt)
  have IH: "q \<le> 1024 \<Longrightarrow> printk_loop g as q d = rendered (render g as) q d" if "length g < length fmt" for g as q d
    using 1 that by blast
  have none: "rendered None q d = Inl Out_of_bounds" for q d by (simp add: rendered_def)
  consider (Nil) "fmt = []" | (char) c g where "fmt = c # g" "c \<noteq> percent" | (last) "fmt = [percent]"
    | (dir) d g where "fmt = percent # d # g"
    by (cases fmt; cases "tl fmt") auto
  then show ?case
  proof cases
    case Nil
    with 1(2) show ?thesis by (simp add: rendered_def)
  next
    case char
    then show ?thesis using IH [of g] by (simp add: printk_loop_Cons render_Cons put_char_rendered)
  next
    case last
    have "printk_loop [] args (Suc p) b = rendered (Some []) (Suc p) b" if "Suc p \<le> 1024" for b
      using that by (simp add: rendered_def)
    then show ?thesis
      using last put_char_rendered [of p "printk_loop [] args (Suc p)" "Some []" percent b]
      by (simp add: printk_loop_Cons render_Cons)
  next
    case dir
    have g: "printk_loop g as q e = rendered (render g as) q e" if "q \<le> 1024" for as q e
      using IH [of g] dir that by simp
    have dg: "printk_loop (d # g) as q e = rendered (render (d # g) as) q e" if "q \<le> 1024" for as q e
      using IH [of "d # g"] dir that by simp
    note step = emits_rendered [OF _ 1(2), where g = "\<lambda>k. printk_loop g (tl args) (p + k)" and r = "render g (tl args)"]
    consider (num) n r where "d \<in> {0x78, 0x75, 0x64}" "args = Num n # r"
      | (nonum) "d \<in> {0x78, 0x75, 0x64}" "\<forall>n r. args \<noteq> Num n # r"
      | (str) t r where "d = 0x73" "args = Text t # r" | (nostr) "d = 0x73" "\<forall>t r. args \<noteq> Text t # r"
      | (other) "d \<notin> {0x78, 0x75, 0x64, 0x73}"
      by blast
    then show ?thesis
    proof cases
      case num
      then consider "d = 0x78" | "d = 0x75" | "d = 0x64" by blast
      then show ?thesis
        by cases (use dir num g step [OF emits_hex] step [OF emits_udecimal] step [OF emits_decimal] in
          \<open>simp_all add: printk_loop_Cons render_Cons\<close>)
    next
      case nonum
      then show ?thesis using dir printk_loop_Cons(8) [OF nonum] render_Cons(8) [OF nonum] none by simp
    next
      case str
      then show ?thesis
        using dir g step [OF emits_read_string] by (simp add: printk_loop_Cons render_Cons)
    next
      case nostr
      then show ?thesis using dir printk_loop_Cons(9) [OF nostr(2)] render_Cons(9) [OF nostr(2)] none by simp
    next
      case other
      have "kbind (put_char p percent b) (\<lambda>_. printk_loop (d # g) args (Suc p))
          = rendered (map_option (Cons percent) (render (d # g) args)) p b"
        by (rule put_char_rendered) (rule dg)
      then show ?thesis
        using dir printk_loop_Cons(7) [OF other] render_Cons(7) [OF other] by (simp only:)
    qed
  qed
qed

section \<open>What reaches the device\<close>

text \<open>The register's polled bit is clear again and again.\<close>

definition ready :: "u64 \<Rightarrow> nat \<Rightarrow> 'a machine_scheme \<Rightarrow> bool" where
  "ready reg b s \<longleftrightarrow> (\<forall>k. \<exists>j \<ge> k. io_in s reg j AND push_bit b 1 = 0)"

definition polled :: "u64 \<Rightarrow> 'a machine_scheme \<Rightarrow> 'a machine_scheme \<Rightarrow> bool" where
  "polled reg s s' \<longleftrightarrow> (\<exists>k. s' = s\<lparr>io_n := (io_n s)(reg := k)\<rparr>)"

lemma poll_returns:
  assumes "ready reg b s"
  shows "\<exists>s'. poll reg b s = Some s' \<and> polled reg s s'"
proof -
  obtain j where "io_n s reg \<le> j" "io_in s reg j AND push_bit b 1 = 0"
    using assms unfolding ready_def by blast
  then show ?thesis
  proof (induction "j - io_n s reg" arbitrary: s)
    case 0
    then have "io_in s reg (io_n s reg) AND push_bit b 1 = 0" by simp
    then show ?case
      by (subst poll.simps) (auto simp: inw_def polled_def)
  next
    case (Suc n)
    let ?s = "s\<lparr>io_n := (io_n s)(reg := Suc (io_n s reg))\<rparr>"
    show ?case
    proof (cases "io_in s reg (io_n s reg) AND push_bit b 1 = 0")
      case True
      then show ?thesis by (subst poll.simps) (auto simp: inw_def polled_def)
    next
      case False
      with Suc.prems have "io_n s reg \<noteq> j" by auto
      then have "n = j - io_n ?s reg" "io_n ?s reg \<le> j" "io_in ?s reg j AND push_bit b 1 = 0"
        using Suc.hyps(2) Suc.prems by simp_all
      then obtain s' where "poll reg b ?s = Some s'" "polled reg ?s s'"
        using Suc.hyps(1) [of ?s] by blast
      with False show ?thesis
        by (subst poll.simps) (auto simp: inw_def polled_def)
    qed
  qed
qed

text \<open>Writing \<open>cs\<close> to the console: the flag register is polled, the data register gets \<open>cs\<close>.\<close>

definition sent :: "u8 list \<Rightarrow> 'a machine_scheme \<Rightarrow> 'a machine_scheme \<Rightarrow> bool" where
  "sent cs s s' \<longleftrightarrow> (\<exists>k. s' = s\<lparr>io_n := (io_n s)(UART0_FR := k),
     io_out := io_out s @ map (\<lambda>c. (UART0_DR, ucast c)) cs\<rparr>)"

lemma sent_Nil: "sent [] s s"
  by (cases s) (auto simp: sent_def intro!: exI [of _ "io_n s UART0_FR"])

lemma write_char_sends:
  assumes "ready UART0_FR 5 s"
  shows "\<exists>s'. write_char c s = Inr ((), s') \<and> sent [c] s s'"
  using poll_returns [OF assms] by (auto simp: write_char_def polled_def sent_def outw_def)

lemma write_console_sends:
  "ready UART0_FR 5 s \<Longrightarrow> \<exists>s'. write_console cs s = Inr ((), s') \<and> sent cs s s'"
proof (induction cs arbitrary: s)
  case Nil
  then show ?case by (simp add: sent_Nil)
next
  case (Cons c cs)
  obtain s1 where s1: "write_char c s = Inr ((), s1)" "sent [c] s s1"
    using write_char_sends [OF Cons.prems] by blast
  then have "ready UART0_FR 5 s1" using Cons.prems by (auto simp: sent_def ready_def)
  with Cons.IH [of s1] obtain s2 where s2: "write_console cs s1 = Inr ((), s2)" "sent cs s1 s2" by blast
  have "sent (c # cs) s s2" using s1(2) s2(2) by (auto simp: sent_def)
  with s1 s2 show ?case by auto
qed

lemma printk_renders:
  assumes "ready UART0_FR 5 s"
  shows "(case render format args of
     Some t \<Rightarrow> if length t \<le> 1024 then \<exists>s'. printk format args s = Inr (length t, s') \<and> sent t s s'
               else printk format args s = Inl Out_of_bounds
   | None \<Rightarrow> printk format args s = Inl Out_of_bounds)"
proof -
  have loop: "printk_loop format args 0 (\<lambda>_. 0) = rendered (render format args) 0 (\<lambda>_. 0)"
    by (rule printk_loop_renders) simp
  show ?thesis
  proof (cases "render format args")
    case None
    with loop show ?thesis by (simp add: printk_def rendered_def)
  next
    case (Some t)
    have "map (spliced (\<lambda>_. 0) 0 t) [0..<length t] = t" using map_spliced [of "\<lambda>_. 0" 0 t] by simp
    with Some loop write_console_sends [OF assms, of t] show ?thesis
      by (auto simp: printk_def rendered_def)
  qed
qed

text \<open>A text without directives is sent as it is.\<close>

lemma render_text: "percent \<notin> set t \<Longrightarrow> render t args = Some t"
  by (induction t) auto

lemma printk_text:
  assumes "ready UART0_FR 5 s" "percent \<notin> set t" "length t \<le> 1024"
  shows "\<exists>s'. printk t [] s = Inr (length t, s') \<and> sent t s s'"
  using printk_renders [OF assms(1), of t "[]"] assms(3) by (simp add: render_text [OF assms(2)])

text \<open>
  Property C24: on a UART that always becomes ready again, \<open>printk\<close> returns exactly when the text its
  format and arguments denote fits into its 1024 byte buffer. It then returns the length of that
  text and has sent the text, byte by byte and in order, to the data register, changing nothing else.
\<close>

theorem printk_sends_rendering:
  assumes "ready UART0_FR 5 s"
  shows "(case render format args of
     Some t \<Rightarrow> if length t \<le> 1024 then \<exists>s'. printk format args s = Inr (length t, s') \<and> sent t s s'
               else printk format args s = Inl Out_of_bounds
   | None \<Rightarrow> printk format args s = Inl Out_of_bounds)"
  by (rule printk_renders [OF assms])

definition quiet_machine :: machine where
  "quiet_machine = \<lparr>mem = (\<lambda>_. 0), free_memory = 0, kernel_end = 0, ttbr0 = 0, io_in = (\<lambda>_ _. 0),
     io_n = (\<lambda>_. 0), io_out = []\<rparr>"

lemma quiet_ready: "ready UART0_FR b quiet_machine"
  by (auto simp: ready_def quiet_machine_def)

text \<open>\<open>"a%d\<newline>"\<close> with the argument \<open>-7\<close>.\<close>

lemma printk_sends_rendering_witness:
  "\<exists>s'. printk [0x61, 0x25, 0x64, 0x0a] [Num (- 7)] quiet_machine = Inr (4, s')
     \<and> map snd (io_out s') = [0x61, 0x2d, 0x37, 0x0a]"
proof -
  have "render [0x61, 0x25, 0x64, 0x0a] [Num (- 7)] = Some [0x61, 0x2d, 0x37, 0x0a]"
    by (simp add: show_int32_def show_base.simps digits_map_def)
  with printk_sends_rendering [OF quiet_ready, of "[0x61, 0x25, 0x64, 0x0a]" "[Num (- 7)]"]
  show ?thesis by (auto simp: sent_def quiet_machine_def)
qed

section \<open>Numbers can be read back\<close>

definition digit_value :: "u8 \<Rightarrow> nat" where
  "digit_value c = (if c < 0x41 then unat (c - 0x30) else unat (c - 0x41) + 10)"

definition read_base :: "nat \<Rightarrow> u8 list \<Rightarrow> nat" where
  "read_base b ds = foldl (\<lambda>a c. a * b + digit_value c) 0 ds"

definition read_int :: "u8 list \<Rightarrow> int" where
  "read_int ds = (case ds of
     [] \<Rightarrow> 0 | c # cs \<Rightarrow> if c = 0x2d then - int (read_base 10 cs) else int (read_base 10 ds))"

lemma digit_value_map: "d < 16 \<Longrightarrow> digit_value (digits_map d) = d"
proof -
  assume "d < 16"
  then have "d \<in> set [0..<16]" by simp
  moreover have "\<forall>d \<in> set [0..<16]. digit_value (digits_map d) = d"
    by (simp add: upt_rec digit_value_def digits_map_def)
  ultimately show ?thesis by blast
qed

lemma read_show: "2 \<le> b \<Longrightarrow> b \<le> 16 \<Longrightarrow> read_base b (show_base b n) = n"
proof (induction b n rule: show_base.induct)
  case (1 b n)
  show ?case
  proof (cases "n < b")
    case True
    with 1 show ?thesis by (subst show_base.simps) (simp add: read_base_def digit_value_map)
  next
    case False
    then have "show_base b n = show_base b (n div b) @ [digits_map (n mod b)]"
      using 1(2) by (subst show_base.simps) simp
    moreover have "n mod b < 16" using 1(2,3) mod_less_divisor [of b n] by linarith
    ultimately show ?thesis
      using 1 False by (simp add: read_base_def digit_value_map)
  qed
qed

lemma show_base_starts: "b \<le> 16 \<Longrightarrow> 2 \<le> b \<Longrightarrow> \<exists>d ds. show_base b n = digits_map d # ds \<and> d < 16"
proof (induction b n rule: show_base.induct)
  case (1 b n)
  then show ?case by (cases "n < b"; subst show_base.simps) (auto simp: less_le_trans)
qed

lemma digits_map_not_minus: "d < 16 \<Longrightarrow> digits_map d \<noteq> 0x2d"
proof -
  assume "d < 16"
  then have "d \<in> set [0..<16]" by simp
  moreover have "\<forall>d \<in> set [0..<16]. digits_map d \<noteq> 0x2d" by (simp add: upt_rec digits_map_def)
  ultimately show ?thesis by blast
qed

lemma emits_read_back:
  "emits f t \<Longrightarrow> p + length t \<le> 1024 \<Longrightarrow> \<exists>b'. f p b = Inr (length t, b') \<and> map b' [p..<p + length t] = t"
  by (auto simp: emits_def map_spliced)

lemma length_show_int32: "length (show_int32 w) \<le> 21"
proof -
  have small: "length (show_base 10 n) \<le> 20" if "n \<le> 2 ^ 31" for n
    using digit_loop_10(2) [of "of_nat n"] that by (simp add: unat_of_nat_small)
  have "nat (- sint w) \<le> 2 ^ 31" "nat (sint w) \<le> 2 ^ 31" using sint_bounds [of w] by auto
  then show ?thesis using small [of "nat (- sint w)"] small [of "nat (sint w)"] by (simp add: show_int32_def)
qed

text \<open>
  Property C32: the three number formats never overrun their 25 byte scratch buffer, need at most
  20 (decimal), 21 (signed) and 17 (hexadecimal) characters, and what they write reads back as the
  number: as a natural number, as a signed one, and in base 16 before the trailing H.
\<close>

theorem number_text_reads_back:
  assumes "p + 21 \<le> 1024"
  shows "(\<exists>k b'. udecimal_to_string p n b = Inr (k, b') \<and> k \<le> 20 \<and> read_base 10 (map b' [p..<p + k]) = unat n)
    \<and> (\<exists>k b'. decimal_to_string p (scast (w :: i32)) b = Inr (k, b') \<and> k \<le> 21 \<and> read_int (map b' [p..<p + k]) = sint w)
    \<and> (\<exists>k b'. hex_to_string p n b = Inr (Suc k, b') \<and> k \<le> 16 \<and> read_base 16 (map b' [p..<p + k]) = unat n
      \<and> b' (p + k) = 0x48)"
proof (intro conjI)
  show "\<exists>k b'. udecimal_to_string p n b = Inr (k, b') \<and> k \<le> 20 \<and> read_base 10 (map b' [p..<p + k]) = unat n"
    using emits_read_back [OF emits_udecimal, of p n b] digit_loop_10(2) [of n] assms read_show [of 10] by auto
  have "read_int (show_base 10 m) = int m" for m
  proof -
    obtain d ds where "show_base 10 m = digits_map d # ds" "d < 16" using show_base_starts [of 10 m] by auto
    then show ?thesis using read_show [of 10 m] digits_map_not_minus [of d] by (simp add: read_int_def)
  qed
  then have "read_int (show_int32 w) = sint w"
    using read_show [of 10 "nat (- sint w)"] by (simp add: show_int32_def) (simp add: read_int_def)
  then show "\<exists>k b'. decimal_to_string p (scast (w :: i32)) b = Inr (k, b') \<and> k \<le> 21 \<and> read_int (map b' [p..<p + k]) = sint w"
    using emits_read_back [OF emits_decimal, of p w b] length_show_int32 [of w] assms by auto
  let ?t = "show_base 16 (unat n)"
  obtain b' where b': "hex_to_string p n b = Inr (Suc (length ?t), b')" "map b' [p..<p + Suc (length ?t)] = ?t @ [0x48]"
    using emits_read_back [OF emits_hex, of p n b] digit_loop_16(2) [of n] assms by auto
  then have "map b' [p..<p + length ?t] = ?t" "b' (p + length ?t) = 0x48" by simp_all
  with b'(1) show "\<exists>k b'. hex_to_string p n b = Inr (Suc k, b') \<and> k \<le> 16
      \<and> read_base 16 (map b' [p..<p + k]) = unat n \<and> b' (p + k) = 0x48"
    using digit_loop_16(2) [of n] read_show [of 16 "unat n"] by (intro exI [of _ "length ?t"] exI [of _ b']) simp
qed

lemma number_text_reads_back_witness:
  "\<exists>k b'. decimal_to_string 3 (scast (- 12 :: i32)) (\<lambda>_. 0) = Inr (k, b') \<and> k \<le> 21
     \<and> read_int (map b' [3..<3 + k]) = - 12"
  using conjunct1 [OF conjunct2 [OF number_text_reads_back [of 3 0 "\<lambda>_. 0" "- 12"]]] by simp

end
