(* ===== verification/Fs.thy ===== *)
theory Fs
  imports FatRead Queues Console
begin

text \<open>
  Open files: the file control blocks and file descriptors of fs/fs.c and the operations
  \<open>open_file\<close>, \<open>close_file\<close>, \<open>read_file\<close>, \<open>get_file_size\<close>, \<open>read_root_directory\<close> and \<open>init_fs\<close>. The
  two tables live in a heap page each; their entries are modelled as records.
\<close>

section \<open>State\<close>

record FCB =
  fcb_name :: "u8 list"
  fcb_ext :: "u8 list"
  cluster_index :: u32
  dir_index :: u32
  file_size :: u32
  fcb_count :: i32

text \<open>\<open>fcb\<close> is an index into the control block table, \<open>None\<close> for a null pointer.\<close>

record FileDesc =
  fcb :: "nat option"
  position :: u32
  fd_count :: i32

record files = machine +
  process_table :: proc_table
  fcb_page :: u64
  file_desc_page :: u64
  fcb_table :: "nat \<Rightarrow> FCB"
  file_desc_table :: "nat \<Rightarrow> FileDesc"

definition zero_FCB :: FCB where
  "zero_FCB = \<lparr>fcb_name = replicate 8 0, fcb_ext = replicate 3 0, cluster_index = 0, dir_index = 0,
     file_size = 0, fcb_count = 0\<rparr>"

definition zero_FileDesc :: FileDesc where
  "zero_FileDesc = \<lparr>fcb = None, position = 0, fd_count = 0\<rparr>"

text \<open>\<open>PAGE_SIZE / sizeof(struct FileDesc)\<close>; a descriptor takes 16 bytes.\<close>

definition NUM_FILE_DESC :: nat where "NUM_FILE_DESC = unat PAGE_SIZE div 16"

section \<open>Pointers\<close>

text \<open>\<open>process->file[fd]\<close> and \<open>->fcb\<close>; the code checks neither the index nor the pointers.\<close>

definition file_at :: "nat \<Rightarrow> i32 \<Rightarrow> 'a files_scheme \<Rightarrow> (nat, 'a files_scheme) outcome" where
  "file_at process fd s =
     (if \<not> (0 \<le> sint fd \<and> sint fd < 100) then Inl Out_of_bounds
      else case p_file (process_table s process) (nat (sint fd)) of
        None \<Rightarrow> Inl Null_pointer | Some d \<Rightarrow> Inr (d, s))"

definition fcb_at :: "nat \<Rightarrow> 'a files_scheme \<Rightarrow> (nat, 'a files_scheme) outcome" where
  "fcb_at d s = (case fcb (file_desc_table s d) of None \<Rightarrow> Inl Null_pointer | Some f \<Rightarrow> Inr (f, s))"

definition set_file :: "nat \<Rightarrow> nat \<Rightarrow> nat option \<Rightarrow> 'a files_scheme \<Rightarrow> 'a files_scheme" where
  "set_file process fd d s = s\<lparr>process_table := (process_table s)(process :=
     (process_table s process)\<lparr>p_file := (p_file (process_table s process))(fd := d)\<rparr>)\<rparr>"

section \<open>Operations\<close>

definition read_file ::
    "nat \<Rightarrow> i32 \<Rightarrow> u64 \<Rightarrow> u32 \<Rightarrow> 'a files_scheme \<Rightarrow> (u32, 'a files_scheme) outcome" where
  "read_file process fd buffer n s =
     kbind (file_at process fd s) (\<lambda>d s.
     kbind (fcb_at d s) (\<lambda>f s.
       if file_size (fcb_table s f) < position (file_desc_table s d) + n then Inr (- 1, s)
       else kbind (read_raw_data (cluster_index (fcb_table s f)) buffer (position (file_desc_table s d)) n s)
         (\<lambda>read_size s. Inr (read_size, s\<lparr>file_desc_table := (file_desc_table s)
           (d := (file_desc_table s d)\<lparr>position := position (file_desc_table s d) + read_size\<rparr>)\<rparr>))))"

definition get_fcb :: "u32 \<Rightarrow> 'a files_scheme \<Rightarrow> (u32, 'a files_scheme) outcome" where
  "get_fcb index s =
     (let i = unat index; f = fcb_table s i; d = dir_entry (mem s) i;
        f = (if fcb_count f = 0 then f\<lparr>dir_index := index, file_size := dir_file_size d,
               cluster_index := ucast (dir_cluster d), fcb_name := name d, fcb_ext := ext d\<rparr> else f)
      in Inr (index, s\<lparr>fcb_table := (fcb_table s)(i := f\<lparr>fcb_count := fcb_count f + 1\<rparr>)\<rparr>))"

definition read_root_directory :: "u64 \<Rightarrow> 'a files_scheme \<Rightarrow> (i32, 'a files_scheme) outcome" where
  "read_root_directory buffer s =
     (let d = get_root_directory (mem s); count = get_root_directory_count (mem s) in
      kbind (copy_to buffer d (count * 32) s) (\<lambda>_ s. Inr (count, s)))"

definition get_file_size :: "nat \<Rightarrow> i32 \<Rightarrow> 'a files_scheme \<Rightarrow> (u32, 'a files_scheme) outcome" where
  "get_file_size process fd s =
     kbind (file_at process fd s) (\<lambda>d s. kbind (fcb_at d s) (\<lambda>f s. Inr (file_size (fcb_table s f), s)))"

definition open_file :: "nat \<Rightarrow> cstring \<Rightarrow> 'a files_scheme \<Rightarrow> (i32, 'a files_scheme) outcome" where
  "open_file proc path_name s =
     (case first_index (\<lambda>i. p_file (process_table s proc) i = None) 0 100 of
        None \<Rightarrow> Inr (- 1, s)
      | Some fd \<Rightarrow> (case first_index (\<lambda>i. fcb (file_desc_table s i) = None) 0 NUM_FILE_DESC of
          None \<Rightarrow> Inr (- 1, s)
        | Some file_desc_index \<Rightarrow> (case search_file path_name (mem s) of
            Inl h \<Rightarrow> Inl h
          | Inr entry_index \<Rightarrow>
              if entry_index = 0xffffffff then Inr (- 1, s)
              else kbind (get_fcb entry_index s) (\<lambda>fcb_index s.
                let s = s\<lparr>file_desc_table := (file_desc_table s)(file_desc_index :=
                      zero_FileDesc\<lparr>fcb := Some (unat fcb_index), fd_count := 1\<rparr>)\<rparr>
                in Inr (of_nat fd, set_file proc fd (Some file_desc_index) s)))))"

definition put_fcb :: "nat \<Rightarrow> 'a files_scheme \<Rightarrow> (unit, 'a files_scheme) outcome" where
  "put_fcb f s =
     (if \<not> 0 < sint (fcb_count (fcb_table s f)) then Inl Assert_failed
      else Inr ((), s\<lparr>fcb_table := (fcb_table s)(f := (fcb_table s f)
        \<lparr>fcb_count := fcb_count (fcb_table s f) - 1\<rparr>)\<rparr>))"

definition close_file :: "nat \<Rightarrow> i32 \<Rightarrow> 'a files_scheme \<Rightarrow> (unit, 'a files_scheme) outcome" where
  "close_file proc fd s =
     kbind (file_at proc fd s) (\<lambda>d s.
     kbind (fcb_at d s) (\<lambda>f s.
     kbind (put_fcb f s) (\<lambda>_ s.
       let s = (if fd_count (file_desc_table s d) = 0
                then s\<lparr>file_desc_table := (file_desc_table s)(d := (file_desc_table s d)\<lparr>fcb := None\<rparr>)\<rparr>
                else s)
       in Inr ((), set_file proc (nat (sint fd)) None s))))"

definition init_fcb :: "'a files_scheme \<Rightarrow> (bool, 'a files_scheme) outcome" where
  "init_fcb s = kbind (kalloc s) (\<lambda>p s.
     if p = 0 then Inr (False, s\<lparr>fcb_page := p\<rparr>)
     else Inr (True, s\<lparr>fcb_page := p, mem := memset (mem s) p 0 (ucast PAGE_SIZE),
       fcb_table := (\<lambda>_. zero_FCB)\<rparr>))"

definition init_file_desc :: "'a files_scheme \<Rightarrow> (bool, 'a files_scheme) outcome" where
  "init_file_desc s = kbind (kalloc s) (\<lambda>p s.
     if p = 0 then Inr (False, s\<lparr>file_desc_page := p\<rparr>)
     else Inr (True, s\<lparr>file_desc_page := p, mem := memset (mem s) p 0 (ucast PAGE_SIZE),
       file_desc_table := (\<lambda>_. zero_FileDesc)\<rparr>))"

definition loaded_text :: "u8 list" where
  "loaded_text = ascii ''file system is loaded'' @ [13, 10]"

definition init_fs :: "'a files_scheme \<Rightarrow> (unit, 'a files_scheme) outcome" where
  "init_fs s = (let p = get_fs_bpb (mem s) in
     kbind (if mem s (p + 0x1fe) \<noteq> 0x55 \<or> mem s (p + 0x1ff) \<noteq> 0xaa
            then kbind (printk (ascii ''invalid signature'' @ [10]) [] s) (\<lambda>_. kassert False)
            else kbind (printk loaded_text [] s) (\<lambda>_ s. Inr ((), s))) (\<lambda>_ s.
     kbind (init_fcb s) (\<lambda>ok s. kbind (kassert ok s) (\<lambda>_ s.
     kbind (init_file_desc s) (\<lambda>ok s. kassert ok s)))))"

section \<open>Reading\<close>

text \<open>\<open>process->file[fd]\<close> is the descriptor \<open>d\<close>, which refers to the control block \<open>f\<close>.\<close>

definition opened :: "'a files_scheme \<Rightarrow> nat \<Rightarrow> i32 \<Rightarrow> nat \<Rightarrow> nat \<Rightarrow> bool" where
  "opened s i fd d f \<longleftrightarrow> 0 \<le> sint fd \<and> sint fd < 100
     \<and> p_file (process_table s i) (nat (sint fd)) = Some d \<and> fcb (file_desc_table s d) = Some f"

lemma opened_at:
  assumes "opened s i fd d f"
  shows "file_at i fd s = Inr (d, s)" "fcb_at d s = Inr (f, s)"
  using assms by (simp_all add: opened_def file_at_def fcb_at_def)

text \<open>A control block whose file lies in the chain \<open>cl\<close>.\<close>

definition file_chain :: "'a files_scheme \<Rightarrow> nat \<Rightarrow> u32 list \<Rightarrow> bool" where
  "file_chain s f cl \<longleftrightarrow> fat_chain (mem s) (cluster_index (fcb_table s f)) cl
     \<and> unat (file_size (fcb_table s f)) \<le> length (chain_bytes (mem s) cl)"

definition file_bytes :: "'a files_scheme \<Rightarrow> nat \<Rightarrow> u32 list \<Rightarrow> u8 list" where
  "file_bytes s f cl = take (unat (file_size (fcb_table s f))) (chain_bytes (mem s) cl)"

definition after_read :: "'a files_scheme \<Rightarrow> nat \<Rightarrow> u64 \<Rightarrow> u8 list \<Rightarrow> u32 \<Rightarrow> 'a files_scheme" where
  "after_read s d a xs n = s\<lparr>mem := written (mem s) a xs, file_desc_table := (file_desc_table s)
     (d := (file_desc_table s d)\<lparr>position := position (file_desc_table s d) + n\<rparr>)\<rparr>"

text \<open>For the examples: process 0 has INIT.BIN open as its file 0, read up to \<open>pos\<close>.\<close>

definition sample_files :: "u32 \<Rightarrow> files" where
  "sample_files pos = \<lparr>mem = sample_image, free_memory = 0, kernel_end = 0xffff000000200000, ttbr0 = 0,
     io_in = (\<lambda>_ _. 0), io_n = (\<lambda>_. 0), io_out = [],
     process_table = (\<lambda>_. blank_process\<lparr>p_file := [0 \<mapsto> 0]\<rparr>), fcb_page = 0xffff000000800000,
     file_desc_page = 0xffff000000a00000,
     fcb_table = (\<lambda>_. zero_FCB\<lparr>cluster_index := 2, file_size := 1024, fcb_count := 1\<rparr>),
     file_desc_table = (\<lambda>_. \<lparr>fcb = Some 0, position = pos, fd_count = 1\<rparr>)\<rparr>"

lemma sample_opened: "opened (sample_files pos) 0 0 0 0"
  by (simp add: opened_def sample_files_def blank_process_def)

lemma sample_file_chain: "file_chain (sample_files pos) 0 [2, 3]"
  by (simp add: file_chain_def sample_files_def sample_fat sample_clusters)

lemma read_file_slice:
  fixes s :: "'a files_scheme"
  assumes "opened s i fd d f" "file_chain s f cl" "0 < n"
    "unat (position (file_desc_table s d)) + unat n \<le> unat (file_size (fcb_table s f))"
    "unat n + unat (get_cluster_size (mem s)) < 2 ^ 32"
    "resolves s buf a (unat n)" "unat a + unat n \<le> unat FS_BASE"
  shows "read_file i fd buf n s = Inr (n, after_read s d a
    (take (unat n) (drop (unat (position (file_desc_table s d))) (file_bytes s f cl))) n)"
proof -
  let ?pos = "position (file_desc_table s d)" and ?size = "file_size (fcb_table s f)"
  have n: "0 < unat n" using assms(3) by (simp add: unat_gt_0)
  have "unat (?pos + n) = unat ?pos + unat n"
    using assms(4) unat_u32_less [of ?size] by (intro unat_add_u32) simp
  then have guard: "\<not> ?size < ?pos + n" using assms(4) by (simp add: word_less_nat_alt)
  have "read_raw_data (cluster_index (fcb_table s f)) buf ?pos n s = Inr (n, s\<lparr>mem := written (mem s) a
      (take (unat n) (drop (unat ?pos) (chain_bytes (mem s) cl)))\<rparr>)"
    using assms n by (intro read_raw_data_slice) (auto simp: file_chain_def)
  moreover have "take (unat n) (drop (unat ?pos) (file_bytes s f cl))
      = take (unat n) (drop (unat ?pos) (chain_bytes (mem s) cl))"
    using assms(4) by (simp add: file_bytes_def drop_take min_absorb1)
  ultimately show ?thesis
    using guard opened_at [OF assms(1)] by (simp add: read_file_def after_read_def)
qed

text \<open>
  Property C15: \<open>read_file\<close> of \<open>n\<close> bytes that lie in the file returns \<open>n\<close>, puts exactly the
  bytes of the file from the current position on into the buffer, advances the position by
  \<open>n\<close> and changes nothing else. The buffer is any one the kernel can resolve below the
  volume; \<open>n\<close> stays a cluster below \<open>2 ^ 32\<close>.
\<close>

theorem read_file_reads_slice:
  fixes s :: "'a files_scheme"
  assumes "opened s i fd d f" "file_chain s f cl" "0 < n"
    "unat (position (file_desc_table s d)) + unat n \<le> unat (file_size (fcb_table s f))"
    "unat n + unat (get_cluster_size (mem s)) < 2 ^ 32"
    "resolves s buf a (unat n)" "unat a + unat n \<le> unat FS_BASE"
  shows "read_file i fd buf n s = Inr (n, after_read s d a
    (take (unat n) (drop (unat (position (file_desc_table s d))) (file_bytes s f cl))) n)"
  by (rule read_file_slice [OF assms])

lemma read_file_reads_slice_witness:
  "\<exists>s'. read_file 0 0 0xffff000000400000 700 (sample_files 100) = Inr (700, s')
     \<and> mem s' 0xffff000000400258 = sample_image (2236 + FS_BASE)
     \<and> position (file_desc_table s' 0) = 800"
proof -
  let ?s = "sample_files 100" let ?xs = "take 700 (drop 100 (file_bytes ?s 0 [2, 3]))"
  have m: "mem ?s = sample_image" "position (file_desc_table ?s 0) = 100" "file_size (fcb_table ?s 0) = 1024"
    by (simp_all add: sample_files_def)
  have "resolves ?s 0xffff000000400000 0xffff000000400000 700"
    by (rule resolves_kernel) (simp_all add: KERNEL_BASE_def)
  then have "read_file 0 0 0xffff000000400000 700 ?s = Inr (700, after_read ?s 0 0xffff000000400000 ?xs 700)"
    using read_file_reads_slice [OF sample_opened sample_file_chain, of 700 100 "0xffff000000400000" "0xffff000000400000"]
    by (simp add: m sample_clusters)
  moreover have "?xs ! 600 = sample_image (2236 + FS_BASE)" "length (file_bytes ?s 0 [2, 3]) = 1024"
    using sample_content sample_chain(2) by (simp_all add: file_bytes_def m del: chain_bytes_simps)
  ultimately show ?thesis
    by (simp add: after_read_def m written_def in_range_def)
qed

text \<open>
  Property C39: the size check of \<open>read_file\<close> adds at 32 bits. With the position inside the first
  cluster, but not at its start, a request of \<open>2 ^ 32 - position\<close> bytes passes it, passes the check
  against the cluster size as well, and the kernel starts one copy of almost 4GB: a process that
  asks for that into any buffer of its own stops the kernel with a page fault.
\<close>

theorem read_file_size_check_wraps:
  assumes "opened s i fd d f" "2 \<le> cluster_index (fcb_table s f)"
    "0 < position (file_desc_table s d)" "position (file_desc_table s d) < get_cluster_size (mem s)"
    "buf < KERNEL_BASE"
  shows "read_file i fd buf (- position (file_desc_table s d)) s = Inl Page_fault"
proof -
  let ?pos = "position (file_desc_table s d)" and ?cs = "get_cluster_size (mem s)"
  have p: "unat ?pos < unat ?cs" "0 < unat ?pos" using assms(3,4) by (simp_all add: word_less_nat_alt unat_gt_0)
  have "unat (- ?pos) = 2 ^ 32 - unat ?pos" 
    using p(2) unat_sub_if' [of 0 ?pos] by simp
  then have big: "unat PAGE_SIZE < unat (- ?pos)" using p unat_cluster_size_less [of "mem s"] by simp
  then have "kaddr s buf (unat (- ?pos)) = None" using assms(5) by (simp add: kaddr_def Let_def)
  moreover have "- ?pos \<noteq> 0" using big by auto
  ultimately have copy: "copy_to buf x (- ?pos) s = Inl Page_fault" for x by (simp add: copy_to_def)
  obtain off where "get_cluster_offset (mem s) (cluster_index (fcb_table s f)) = Inr off"
    using cluster_offset_ok [OF assms(2)] by blast
  moreover have "?pos mod ?cs = ?pos" "?pos div ?cs = 0"
    using p by (simp_all add: word_unat_eq_iff unat_mod unat_div)
  moreover have "?pos \<noteq> 0" "?cs \<noteq> 0" using assms(3,4) by auto
  ultimately show ?thesis
    using opened_at [OF assms(1)] copy by (simp add: read_file_def read_raw_data_def Let_def)
qed

lemma read_file_size_check_wraps_witness:
  "read_file 0 0 0x400000 (- 1) (sample_files 1) = Inl Page_fault"
  using read_file_size_check_wraps [OF sample_opened, of 1 "0x400000"]
  by (simp add: sample_files_def sample_clusters KERNEL_BASE_def)

text \<open>
  When a file fills its clusters to the last byte, a further read at its end, even of
  0 bytes, passes the size check and then fails the assertion on the cluster walk, so the kernel
  stops instead of returning 0.
\<close>

theorem read_file_at_end_stops_kernel:
  assumes "opened s i fd d f" "fat_chain (mem s) (cluster_index (fcb_table s f)) cl" "cl \<noteq> []"
    "(0xfff7::u32) \<le> ucast (get_cluster_value (mem s) (last cl))" "get_cluster_size (mem s) \<noteq> 0"
    "unat (file_size (fcb_table s f)) = length (chain_bytes (mem s) cl)"
    "position (file_desc_table s d) = file_size (fcb_table s f)"
  shows "read_file i fd buf 0 s = Inl Assert_failed"
  using opened_at [OF assms(1)] assms(7) read_raw_data_at_end [OF assms(2-5), of "file_size (fcb_table s f)" buf 0] assms(6)
  by (simp add: read_file_def)

lemma read_file_at_end_stops_kernel_witness:
  "read_file 0 0 0x400000 0 (sample_files 1024) = Inl Assert_failed"
  using read_file_at_end_stops_kernel [OF sample_opened, of 1024 "[2, 3]" "0x400000"]
  by (simp add: sample_files_def sample_clusters sample_fat)

text \<open>
  Property C29: reading \<open>j\<close> and then \<open>k\<close> bytes into adjacent buffers leaves the same state, memory
  and file position included, as one read of \<open>j + k\<close> bytes.
\<close>

theorem read_file_sequential:
  fixes s :: "'a files_scheme"
  assumes "opened s i fd d f" "file_chain s f cl" "0 < j" "0 < k"
    "unat (position (file_desc_table s d)) + (unat j + unat k) \<le> unat (file_size (fcb_table s f))"
    "unat j + unat k + unat (get_cluster_size (mem s)) < 2 ^ 32"
    "resolves s buf a (unat j + unat k)" "unat a + (unat j + unat k) \<le> unat FS_BASE"
  shows "\<exists>s1 s2. read_file i fd buf j s = Inr (j, s1) \<and> read_file i fd (buf + ucast j) k s1 = Inr (k, s2)
     \<and> read_file i fd buf (j + k) s = Inr (j + k, s2)"
proof -
  let ?pos = "position (file_desc_table s d)" and ?file = "file_bytes s f cl"
  let ?xs = "take (unat j) (drop (unat ?pos) ?file)"
  let ?ys = "take (unat k) (drop (unat (?pos + j)) ?file)"
  let ?s1 = "after_read s d a ?xs j"
  have jk: "unat (j + k) = unat j + unat k" using assms(6) by (intro unat_add_u32) simp
  have pj: "unat (?pos + j) = unat ?pos + unat j"
    using assms(5) unat_u32_less [of "file_size (fcb_table s f)"] by (intro unat_add_u32) simp
  have bound: "unat a + (unat j + unat k) \<le> 2 ^ 64" using assms(8) by simp
  have "resolves s buf a (unat j)"
    using resolves_kaddr [OF assms(7)] assms(7) bound unfolding resolves_def
    by (auto simp: in_range_iff)
  then have r1: "read_file i fd buf j s = Inr (j, ?s1)"
    using assms by (intro read_file_slice) simp_all
  have len: "length ?xs = unat j"
    using assms(2,5) by (simp add: file_bytes_def file_chain_def)
  have img: "image_eq (mem s) (mem ?s1)"
    using assms(8) len written_image [of a ?xs "mem s"] by (simp add: after_read_def)
  have chain: "file_chain ?s1 f cl"
    using assms(2) fat_chain_image [OF img] chain_bytes_image [OF img, of "cluster_index (fcb_table s f)" cl]
    by (simp add: file_chain_def after_read_def)
  have same_file: "file_bytes ?s1 f cl = ?file"
    using assms(2) chain_bytes_image [OF img] by (auto simp: file_bytes_def file_chain_def after_read_def)
  have op: "opened ?s1 i fd d f" using assms(1) by (simp add: opened_def after_read_def)
  have aj: "unat (a + ucast j) = unat a + unat j"
    using unat_offset [of a "unat j"] assms(8) by simp
  have "resolves (s\<lparr>mem := mem ?s1\<rparr>) buf a (unat j + unat k)"
    using len bound by (intro resolves_mem [OF assms(7)]) (auto simp: after_read_def written_def in_range_def)
  from resolves_part [OF this _ bound, of "unat j"]
  have "resolves (s\<lparr>mem := mem ?s1\<rparr>) (buf + ucast j) (a + ucast j) (unat k)" by simp
  then have "resolves ?s1 (buf + ucast j) (a + ucast j) (unat k)"
    by (subst resolves_cong [of _ "s\<lparr>mem := mem ?s1\<rparr>"]) (simp_all add: after_read_def)
  moreover have "position (file_desc_table ?s1 d) = ?pos + j" "fcb_table ?s1 = fcb_table s"
    by (simp_all add: after_read_def)
  ultimately have r2: "read_file i fd (buf + ucast j) k ?s1
      = Inr (k, after_read ?s1 d (a + ucast j) ?ys k)"
    using read_file_slice [OF op chain assms(4)] assms(5,6,8) aj pj cluster_size_image [OF img] same_file
    by simp
  have "0 < j + k" using jk assms(3) by (simp add: word_less_nat_alt)
  then have r3: "read_file i fd buf (j + k) s
      = Inr (j + k, after_read s d a (take (unat j + unat k) (drop (unat ?pos) ?file)) (j + k))"
    using assms jk by (subst read_file_slice) simp_all
  have "take (unat j + unat k) (drop (unat ?pos) ?file) = ?xs @ ?ys"
    unfolding pj by (simp add: take_add add.commute)
  moreover have "length ?ys \<le> unat k" by simp
  then have "unat a + length ?xs + length ?ys \<le> 2 ^ 64" using bound len by linarith
  then have "written (written (mem s) a ?xs) (a + ucast j) ?ys = written (mem s) a (?xs @ ?ys)"
    using written_append [of a ?xs ?ys "mem s"] len by simp
  ultimately have "after_read ?s1 d (a + ucast j) ?ys k
      = after_read s d a (take (unat j + unat k) (drop (unat ?pos) ?file)) (j + k)"
    by (simp add: after_read_def add.assoc)
  with r1 r2 r3 show ?thesis by auto
qed

lemma read_file_sequential_witness:
  "\<exists>s1 s2. read_file 0 0 0xffff000000400000 100 (sample_files 0) = Inr (100, s1)
     \<and> read_file 0 0 0xffff000000400064 700 s1 = Inr (700, s2)
     \<and> read_file 0 0 0xffff000000400000 800 (sample_files 0) = Inr (800, s2)"
proof -
  have "resolves (sample_files 0) 0xffff000000400000 0xffff000000400000 800"
    by (rule resolves_kernel) (simp_all add: KERNEL_BASE_def)
  then show ?thesis
    using read_file_sequential [OF sample_opened sample_file_chain, of 100 700 0 "0xffff000000400000" "0xffff000000400000"]
    by (simp add: sample_files_def sample_clusters)
qed

end
