(* ===== verification/OpenFiles.thy ===== *)
theory OpenFiles
  imports Fs
begin

text \<open>
  Opening and closing: what \<open>open_file\<close> does on each of its branches, the invariant that every
  control block is counted at least as often as processes refer to it, so that closing an
  open file never fails, and the descriptor leak: \<open>close_file\<close> never frees the descriptor, so
  the table runs out.
\<close>

section \<open>Looking up a path\<close>

definition lookup :: "memory \<Rightarrow> u8 list \<Rightarrow> nat option" where
  "lookup m p = (if path_ok p then
     first_index (\<lambda>i. live_entry (dir_entry m i)
       \<and> is_file_name_equal (dir_entry m i) (pad 8 (path_base p)) (pad 3 (path_ext p)))
       0 (unat (get_root_directory_count m)) else None)"

lemma root_count_less: "unat (get_root_directory_count m) < 65536"
  using unat_u16_less [of "root_entry_count (load_BPB m (get_fs_bpb m))"]
  by (simp add: get_root_directory_count_def unsigned_ucast_eq take_bit_nat_eq_self)

lemma lookup_less: "lookup m p = Some e \<Longrightarrow> e < unat (get_root_directory_count m)"
  by (auto simp: lookup_def first_index_Some split: if_splits)

lemma lookup_word:
  assumes "lookup m p = Some e"
  shows "unat (of_nat e :: u32) = e" "(of_nat e :: u32) \<noteq> 0xffffffff"
proof -
  have e: "e < 65536" using lookup_less [OF assms] root_count_less [of m] by simp
  then show u: "unat (of_nat e :: u32) = e" by (intro unat_of_nat_small) simp
  show "(of_nat e :: u32) \<noteq> 0xffffffff"
  proof
    assume "(of_nat e :: u32) = 0xffffffff"
    then have "unat (of_nat e :: u32) = unat (0xffffffff :: u32)" by simp
    with u e show False by simp
  qed
qed

lemma search_file_lookup:
  assumes "0 \<notin> set p"
  shows "search_file (cstr p) m = Inr (case lookup m p of None \<Rightarrow> 0xffffffff | Some e \<Rightarrow> of_nat e)"
  using split_path_result [OF assms]
  by (auto simp: search_file_def lookup_def split: option.split)

section \<open>Opening\<close>

definition free_fd :: "'a files_scheme \<Rightarrow> nat \<Rightarrow> nat option" where
  "free_fd s i = first_index (\<lambda>k. p_file (process_table s i) k = None) 0 100"

definition free_desc :: "'a files_scheme \<Rightarrow> nat option" where
  "free_desc s = first_index (\<lambda>d. fcb (file_desc_table s d) = None) 0 NUM_FILE_DESC"

text \<open>The control block of entry \<open>e\<close> after one more open of it.\<close>

definition filled_FCB :: "memory \<Rightarrow> nat \<Rightarrow> FCB \<Rightarrow> FCB" where
  "filled_FCB m e f = (let d = dir_entry m e in
     if fcb_count f = 0 then f\<lparr>dir_index := of_nat e, file_size := dir_file_size d,
       cluster_index := ucast (dir_cluster d), fcb_name := name d, fcb_ext := ext d, fcb_count := 1\<rparr>
     else f\<lparr>fcb_count := fcb_count f + 1\<rparr>)"

definition after_open :: "'a files_scheme \<Rightarrow> nat \<Rightarrow> nat \<Rightarrow> nat \<Rightarrow> nat \<Rightarrow> 'a files_scheme" where
  "after_open s i fd d e = set_file i fd (Some d) (s\<lparr>
     fcb_table := (fcb_table s)(e := filled_FCB (mem s) e (fcb_table s e)),
     file_desc_table := (file_desc_table s)(d := \<lparr>fcb = Some e, position = 0, fd_count = 1\<rparr>)\<rparr>)"

lemma open_file_cases:
  assumes "0 \<notin> set p"
  shows "open_file i (cstr p) s = (case (free_fd s i, free_desc s, lookup (mem s) p) of
     (Some fd, Some d, Some e) \<Rightarrow> Inr (of_nat fd, after_open s i fd d e)
   | _ \<Rightarrow> Inr (- 1, s))"
  using lookup_word [of "mem s" p]
  by (auto simp: open_file_def free_fd_def free_desc_def search_file_lookup [OF assms] get_fcb_def Let_def
      after_open_def filled_FCB_def zero_FileDesc_def split: option.split)

lemma free_fd_Some: "free_fd s i = Some fd \<longleftrightarrow>
    fd < 100 \<and> p_file (process_table s i) fd = None \<and> (\<forall>k < fd. p_file (process_table s i) k \<noteq> None)"
  by (auto simp: free_fd_def first_index_Some)

lemma free_desc_Some: "free_desc s = Some d \<longleftrightarrow>
    d < NUM_FILE_DESC \<and> fcb (file_desc_table s d) = None \<and> (\<forall>k < d. fcb (file_desc_table s k) \<noteq> None)"
  by (auto simp: free_desc_def first_index_Some)

lemma sint_fd: "fd < 100 \<Longrightarrow> sint (of_nat fd :: i32) = int fd"
  by (simp add: signed_of_nat signed_take_bit_int_eq_self)

lemma after_open_opened:
  assumes "fd < 100"
  shows "opened (after_open s i fd d e) i (of_nat fd) d e"
  using sint_fd [OF assms] assms by (simp add: opened_def after_open_def set_file_def)

section \<open>Closing\<close>

definition after_close :: "'a files_scheme \<Rightarrow> nat \<Rightarrow> nat \<Rightarrow> nat \<Rightarrow> 'a files_scheme" where
  "after_close s i k f = set_file i k None (s\<lparr>fcb_table := (fcb_table s)
     (f := (fcb_table s f)\<lparr>fcb_count := fcb_count (fcb_table s f) - 1\<rparr>)\<rparr>)"

text \<open>With a descriptor count that is not 0, as every open leaves it, the descriptor stays.\<close>

lemma close_file_opened:
  assumes "opened s i fd d f" "0 < sint (fcb_count (fcb_table s f))" "fd_count (file_desc_table s d) \<noteq> 0"
  shows "close_file i fd s = Inr ((), after_close s i (nat (sint fd)) f)"
  using opened_at [OF assms(1)] assms(2,3) by (simp add: close_file_def put_fcb_def after_close_def)

section \<open>The descriptor leak\<close>

primrec open_close :: "nat \<Rightarrow> cstring \<Rightarrow> nat \<Rightarrow> 'a files_scheme \<Rightarrow> (unit, 'a files_scheme) outcome" where
  "open_close i p 0 s = Inr ((), s)"
| "open_close i p (Suc n) s =
     kbind (open_file i p s) (\<lambda>fd s. kbind (close_file i fd s) (\<lambda>_ s. open_close i p n s))"

text \<open>The first \<open>k\<close> descriptors are taken and the others free.\<close>

definition taken :: "'a files_scheme \<Rightarrow> nat \<Rightarrow> bool" where
  "taken s k \<longleftrightarrow> (\<forall>d. fcb (file_desc_table s d) \<noteq> None \<longleftrightarrow> d < k)"

lemma taken_free_desc: "taken s k \<Longrightarrow> free_desc s = (if k < NUM_FILE_DESC then Some k else None)"
  unfolding free_desc_def
  by (cases "k < NUM_FILE_DESC") (auto simp: taken_def first_index_Some first_index_None)

lemma clear_empty_file: "p_file t k = None \<Longrightarrow> t\<lparr>p_file := (p_file t)(k := None)\<rparr> = t"
  by (cases t) (simp add: fun_upd_idem)

lemma open_close_once:
  assumes "0 \<notin> set p" "lookup (mem s) p = Some e" "free_fd s i = Some fd"
    "taken s k" "k < NUM_FILE_DESC"
    "0 \<le> sint (fcb_count (fcb_table s e))" "sint (fcb_count (fcb_table s e)) < 2 ^ 31 - 1"
  shows "\<exists>s'. open_close i (cstr p) 1 s = Inr ((), s') \<and> mem s' = mem s \<and> process_table s' = process_table s
     \<and> taken s' (Suc k) \<and> fcb_count (fcb_table s' e) = fcb_count (fcb_table s e)"
proof -
  let ?s = "after_open s i fd k e"
  have fd: "fd < 100" "p_file (process_table s i) fd = None" using assms(3) by (simp_all add: free_fd_Some)
  have op: "open_file i (cstr p) s = Inr (of_nat fd, ?s)"
    using assms(2-5) by (simp add: open_file_cases [OF assms(1)] taken_free_desc)
  have count: "fcb_count (fcb_table ?s e) = fcb_count (fcb_table s e) + 1"
    by (simp add: after_open_def set_file_def filled_FCB_def Let_def)
  have "sint (fcb_count (fcb_table s e) + 1) = sint (fcb_count (fcb_table s e)) + 1"
    using assms(6,7) by (subst sint_add_small) simp_all
  then have "0 < sint (fcb_count (fcb_table ?s e))" using count assms(6) by simp
  moreover have "fd_count (file_desc_table ?s k) \<noteq> 0" by (simp add: after_open_def set_file_def)
  ultimately have cl: "close_file i (of_nat fd) ?s = Inr ((), after_close ?s i fd e)"
    using close_file_opened [OF after_open_opened [OF fd(1)]] sint_fd [OF fd(1)] by simp
  have "process_table (after_close ?s i fd e) = process_table s"
    using clear_empty_file [OF fd(2)] by (simp add: after_close_def after_open_def set_file_def)
  moreover have "taken (after_close ?s i fd e) (Suc k)"
    using assms(4) by (auto simp: taken_def after_close_def after_open_def set_file_def less_Suc_eq)
  moreover have "fcb_count (fcb_table (after_close ?s i fd e) e) = fcb_count (fcb_table s e)"
    using count by (simp add: after_close_def set_file_def)
  moreover have "mem (after_close ?s i fd e) = mem s"
    by (simp add: after_close_def after_open_def set_file_def)
  ultimately show ?thesis using op cl by (simp add: after_close_def after_open_def)
qed

lemma open_close_add:
  "open_close i p (k + n) s = kbind (open_close i p k s) (\<lambda>_. open_close i p n)"
proof (induction k arbitrary: s)
  case 0
  then show ?case by simp
next
  case (Suc k)
  show ?case
  proof (cases "open_file i p s")
    case (Inr a)
    then show ?thesis
      by (cases a; cases "close_file i (fst a) (snd a)") (auto simp: Suc)
  qed simp
qed

lemma open_close_many:
  assumes "0 \<notin> set p" "lookup (mem s) p = Some e" "free_fd s i = Some fd"
    "taken s 0" "n \<le> NUM_FILE_DESC"
    "0 \<le> sint (fcb_count (fcb_table s e))" "sint (fcb_count (fcb_table s e)) < 2 ^ 31 - 1"
  shows "\<exists>s'. open_close i (cstr p) n s = Inr ((), s') \<and> mem s' = mem s \<and> process_table s' = process_table s
     \<and> taken s' n \<and> fcb_count (fcb_table s' e) = fcb_count (fcb_table s e)"
  using assms(5)
proof (induction n)
  case 0
  with assms(4) show ?case by simp
next
  case (Suc n)
  then obtain s1 where s1: "open_close i (cstr p) n s = Inr ((), s1)" "mem s1 = mem s"
    "process_table s1 = process_table s" "taken s1 n" "fcb_count (fcb_table s1 e) = fcb_count (fcb_table s e)"
    by auto
  have "free_fd s1 i = Some fd" using assms(3) s1(3) by (simp add: free_fd_def)
  then obtain s2 where "open_close i (cstr p) 1 s1 = Inr ((), s2)" "mem s2 = mem s1"
    "process_table s2 = process_table s1" "taken s2 (Suc n)" "fcb_count (fcb_table s2 e) = fcb_count (fcb_table s1 e)"
    using open_close_once [OF assms(1), of s1 e i fd n] assms(2,6,7) s1 Suc.prems by auto
  with s1 open_close_add [of i "cstr p" n 1 s] show ?case by auto
qed

text \<open>The volume of the examples, mounted with empty tables and no open files.\<close>

definition mounted :: files where
  "mounted = (sample_files 0)\<lparr>process_table := (\<lambda>_. blank_process), fcb_table := (\<lambda>_. zero_FCB),
     file_desc_table := (\<lambda>_. zero_FileDesc)\<rparr>"

lemma bytes_8: "bytes m a 8 = [m a, m (a + 1), m (a + 2), m (a + 3), m (a + 4), m (a + 5), m (a + 6), m (a + 7)]"
  by (simp add: bytes_def upt_rec)

lemma bytes_3: "bytes m a 3 = [m a, m (a + 1), m (a + 2)]"
  by (simp add: bytes_def upt_rec)

lemma sample_entry: "name (dir_entry sample_image 0) = [0x49, 0x4e, 0x49, 0x54, 0x20, 0x20, 0x20, 0x20]"
  "ext (dir_entry sample_image 0) = [0x42, 0x49, 0x4e]" "attributes (dir_entry sample_image 0) = 0"
  by (simp_all add: dir_entry_def load_DirEntry_def sample_clusters bytes_8 bytes_3 add.assoc sample_at sample_byte_def)

abbreviation init_bin :: "u8 list" where
  "init_bin \<equiv> [0x49, 0x4e, 0x49, 0x54, 0x2e, 0x42, 0x49, 0x4e]"

lemma sample_lookup: "lookup sample_image init_bin = Some 0"
proof -
  have p: "path_base init_bin = [0x49, 0x4e, 0x49, 0x54]" "path_ext init_bin = [0x42, 0x49, 0x4e]" "path_ok init_bin"
    by (simp_all add: path_base_def path_ext_def path_ok_def)
  have pads: "pad 8 [0x49, 0x4e, 0x49, 0x54] = [0x49, 0x4e, 0x49, 0x54, 0x20, 0x20, 0x20, 0x20]"
    "pad 3 [0x42, 0x49, 0x4e] = [0x42, 0x49, 0x4e]"
    by (simp_all add: pad_def eval_nat_numeral)
  have "live_entry (dir_entry sample_image 0)"
    by (simp add: live_entry_def sample_entry ENTRY_EMPTY_def ENTRY_DELETED_def)
  then show ?thesis
    unfolding lookup_def p pads by (subst first_index.simps) (simp add: p(3) sample_clusters is_file_name_equal_def sample_entry)
qed

lemma mounted_fields: "mem mounted = sample_image" "free_fd mounted i = Some 0"
  "fcb (file_desc_table mounted d) = None" "fcb_count (fcb_table mounted e) = 0"
  unfolding free_fd_def
  by (subst (2) first_index.simps)?
    (simp_all add: mounted_def sample_files_def blank_process_def zero_FileDesc_def zero_FCB_def first_index_Some)



text \<open>
  Property C16: \<open>open_file\<close> on a string. It fails, changing nothing, exactly when the process has
  all its 100 file slots in use, the descriptor table is full, or the path is not an 8.3 name
  of a live directory entry. Otherwise it returns the lowest free slot, now referring to the
  lowest free descriptor with position 0, which refers to the control block of the first
  matching entry; that block is counted once more and, if it was unused, filled from the entry.
\<close>

theorem open_file_behaviour:
  assumes "0 \<notin> set p"
  shows "\<exists>r s'. open_file i (cstr p) s = Inr (r, s') \<and>
    (if free_fd s i = None \<or> free_desc s = None \<or> lookup (mem s) p = None then r = - 1 \<and> s' = s
     else \<exists>fd d e. free_fd s i = Some fd \<and> free_desc s = Some d \<and> lookup (mem s) p = Some e
       \<and> r = of_nat fd \<and> opened s' i r d e \<and> position (file_desc_table s' d) = 0
       \<and> fcb_table s' = (fcb_table s)(e := filled_FCB (mem s) e (fcb_table s e))
       \<and> (\<forall>d'. d' \<noteq> d \<longrightarrow> file_desc_table s' d' = file_desc_table s d')
       \<and> (\<forall>j k. (j, k) \<noteq> (i, fd) \<longrightarrow> p_file (process_table s' j) k = p_file (process_table s j) k)
       \<and> mem s' = mem s)"
proof (cases "free_fd s i = None \<or> free_desc s = None \<or> lookup (mem s) p = None")
  case True
  then show ?thesis by (auto simp: open_file_cases [OF assms] split: option.split)
next
  case False
  then obtain fd d e where f: "free_fd s i = Some fd" "free_desc s = Some d" "lookup (mem s) p = Some e" by auto
  then have "opened (after_open s i fd d e) i (of_nat fd) d e"
    by (intro after_open_opened) (simp add: free_fd_Some)
  with f show ?thesis
    by (simp add: open_file_cases [OF assms]) (simp add: after_open_def set_file_def)
qed

lemma open_file_behaviour_witness:
  "\<exists>s'. open_file 0 (cstr init_bin) mounted = Inr (0, s') \<and> opened s' 0 0 0 0"
proof -
  have "free_desc mounted = Some 0"
    by (simp add: free_desc_def first_index_Some mounted_fields NUM_FILE_DESC_def)
  moreover have "(0::u8) \<notin> set init_bin" by simp
  ultimately show ?thesis
    using open_file_behaviour [of init_bin 0 mounted] sample_lookup mounted_fields by auto
qed

section \<open>Reference counts\<close>

text \<open>The file slots of processes that lead to control block \<open>f\<close>.\<close>

definition holders :: "'a files_scheme \<Rightarrow> nat \<Rightarrow> (nat \<times> nat) set" where
  "holders s f = {(j, k). j < 10 \<and> k < 100 \<and>
     (\<exists>d. p_file (process_table s j) k = Some d \<and> fcb (file_desc_table s d) = Some f)}"

definition files_ok :: "'a files_scheme \<Rightarrow> bool" where
  "files_ok s \<longleftrightarrow>
     (\<forall>j < 10. \<forall>k < 100. \<forall>d. p_file (process_table s j) k = Some d \<longrightarrow> fcb (file_desc_table s d) \<noteq> None) \<and>
     (\<forall>d. fcb (file_desc_table s d) \<noteq> None \<longrightarrow> fd_count (file_desc_table s d) \<noteq> 0) \<and>
     (\<forall>f. int (card (holders s f)) \<le> sint (fcb_count (fcb_table s f)))"

lemma finite_holders [simp]: "finite (holders s f)"
  by (rule finite_subset [of _ "{..<10} \<times> {..<100}"]) (auto simp: holders_def)

lemma files_okD:
  assumes "files_ok s"
  shows "j < 10 \<Longrightarrow> k < 100 \<Longrightarrow> p_file (process_table s j) k = Some d \<Longrightarrow> fcb (file_desc_table s d) \<noteq> None"
    and "fcb (file_desc_table s d) \<noteq> None \<Longrightarrow> fd_count (file_desc_table s d) \<noteq> 0"
    and "int (card (holders s f)) \<le> sint (fcb_count (fcb_table s f))"
  using assms unfolding files_ok_def by blast+

lemma after_open_fields:
  "p_file (process_table (after_open s i fd d e) j) k
     = (if j = i \<and> k = fd then Some d else p_file (process_table s j) k)"
  "file_desc_table (after_open s i fd d e) d'
     = (if d' = d then \<lparr>fcb = Some e, position = 0, fd_count = 1\<rparr> else file_desc_table s d')"
  "fcb_count (fcb_table (after_open s i fd d e) f)
     = (if f = e then fcb_count (fcb_table s e) + 1 else fcb_count (fcb_table s f))"
  by (simp_all add: after_open_def set_file_def filled_FCB_def Let_def)

lemma after_close_fields:
  "p_file (process_table (after_close s i fd f) j) k
     = (if j = i \<and> k = fd then None else p_file (process_table s j) k)"
  "file_desc_table (after_close s i fd f) = file_desc_table s"
  "fcb_count (fcb_table (after_close s i fd f) f')
     = (if f' = f then fcb_count (fcb_table s f) - 1 else fcb_count (fcb_table s f'))"
  by (simp_all add: after_close_def set_file_def)

lemma files_ok_open:
  assumes ok: "files_ok s" and i: "i < 10"
    and free: "free_fd s i = Some fd" "fcb (file_desc_table s d) = None"
    and room: "sint (fcb_count (fcb_table s e)) < 2 ^ 31 - 1"
  shows "files_ok (after_open s i fd d e)"
proof -
  let ?s = "after_open s i fd d e"
  have fd: "fd < 100" "p_file (process_table s i) fd = None" using free(1) by (simp_all add: free_fd_Some)
  have unref: "p_file (process_table s j) k \<noteq> Some d" if "j < 10" "k < 100" for j k
    using files_okD(1) [OF ok that] free(2) by blast
  have h: "holders ?s f = (if f = e then insert (i, fd) (holders s e) else holders s f)" for f
    using i fd unref by (auto simp: holders_def after_open_fields) (metis option.inject)+
  have "int (card (holders ?s f)) \<le> sint (fcb_count (fcb_table ?s f))" for f
  proof (cases "f = e")
    case True
    have "(i, fd) \<notin> holders s e" using fd(2) by (simp add: holders_def)
    then have "card (holders ?s f) = Suc (card (holders s e))" using True h by simp
    moreover have "sint (fcb_count (fcb_table s e) + 1) = sint (fcb_count (fcb_table s e)) + 1"
      using files_okD(3) [OF ok, of e] room by (subst sint_add_small) simp_all
    ultimately show ?thesis using files_okD(3) [OF ok, of e] True by (simp add: after_open_fields)
  next
    case False
    then show ?thesis using files_okD(3) [OF ok, of f] h by (simp add: after_open_fields)
  qed
  moreover have "fcb (file_desc_table ?s d') \<noteq> None" if "j < 10" "k < 100" "p_file (process_table ?s j) k = Some d'" for j k d'
    using that files_okD(1) [OF ok that(1,2)] by (auto simp: after_open_fields split: if_splits)
  moreover have "fd_count (file_desc_table ?s d') \<noteq> 0" if "fcb (file_desc_table ?s d') \<noteq> None" for d'
    using that files_okD(2) [OF ok] by (auto simp: after_open_fields split: if_splits)
  ultimately show ?thesis unfolding files_ok_def by blast
qed

lemma files_ok_close:
  assumes ok: "files_ok s" and i: "i < 10" and op: "opened s i fd d f"
  shows "close_file i fd s = Inr ((), after_close s i (nat (sint fd)) f)"
    and "files_ok (after_close s i (nat (sint fd)) f)"
proof -
  let ?k = "nat (sint fd)"
  let ?s = "after_close s i ?k f"
  have k: "?k < 100" "p_file (process_table s i) ?k = Some d" "fcb (file_desc_table s d) = Some f"
    using op by (auto simp: opened_def)
  have mem: "(i, ?k) \<in> holders s f" using k i by (simp add: holders_def)
  then have pos: "0 < card (holders s f)" by (metis card_gt_0_iff empty_iff finite_holders)
  then have c: "0 < sint (fcb_count (fcb_table s f))" using files_okD(3) [OF ok, of f] by linarith
  then show "close_file i fd s = Inr ((), ?s)"
    using close_file_opened [OF op] files_okD(2) [OF ok, of d] k(3) by simp
  have dec: "sint (fcb_count (fcb_table s f) - 1) = sint (fcb_count (fcb_table s f)) - 1"
    using c sint_add_small [of "fcb_count (fcb_table s f)" "- 1"] sint_bounds(2) [of "fcb_count (fcb_table s f)"]
    by simp
  have h: "holders ?s f' = holders s f' - {(i, ?k)}" for f'
    by (auto simp: holders_def after_close_fields split: if_splits)
  have "int (card (holders ?s f')) \<le> sint (fcb_count (fcb_table ?s f'))" for f'
  proof (cases "f' = f")
    case True
    then have "int (card (holders ?s f')) = int (card (holders s f)) - 1"
      using h mem pos by (simp add: card_Diff_singleton)
    then show ?thesis using files_okD(3) [OF ok, of f] True dec by (simp add: after_close_fields)
  next
    case False
    have "card (holders ?s f') \<le> card (holders s f')" using h by (simp add: card_Diff1_le)
    then show ?thesis using files_okD(3) [OF ok, of f'] False by (simp add: after_close_fields)
  qed
  moreover have "fcb (file_desc_table ?s d') \<noteq> None" if "j < 10" "n < 100" "p_file (process_table ?s j) n = Some d'" for j n d'
    using that files_okD(1) [OF ok that(1,2)] by (auto simp: after_close_fields split: if_splits)
  moreover have "fd_count (file_desc_table ?s d') \<noteq> 0" if "fcb (file_desc_table ?s d') \<noteq> None" for d'
    using that files_okD(2) [OF ok] by (simp add: after_close_fields)
  ultimately show "files_ok ?s" unfolding files_ok_def by blast
qed

text \<open>
  Property C17: as long as no control block is counted up to \<open>2 ^ 31 - 1\<close>, \<open>open_file\<close> keeps every
  control block counted at least as often as processes refer to it and every reference
  non-null; under that invariant closing an open file returns without failing the
  assertion of \<open>put_fcb\<close>, takes exactly that reference away and keeps the invariant.
\<close>

theorem files_stay_counted:
  assumes "files_ok s" "i < 10" "0 \<notin> set p" "\<forall>e. sint (fcb_count (fcb_table s e)) < 2 ^ 31 - 1"
  shows "(\<exists>r s'. open_file i (cstr p) s = Inr (r, s') \<and> files_ok s')
    \<and> (\<forall>fd d f. opened s i fd d f \<longrightarrow> (\<exists>s'. close_file i fd s = Inr ((), s') \<and> files_ok s'
         \<and> holders s' f = holders s f - {(i, nat (sint fd))}))"
proof (intro conjI allI impI)
  show "\<exists>r s'. open_file i (cstr p) s = Inr (r, s') \<and> files_ok s'"
    using files_ok_open [OF assms(1,2)] assms(1,4)
    by (auto simp: open_file_cases [OF assms(3)] free_desc_Some split: option.split)
next
  fix fd d f assume op: "opened s i fd d f"
  have "holders (after_close s i (nat (sint fd)) f) f = holders s f - {(i, nat (sint fd))}"
    by (auto simp: holders_def after_close_fields split: if_splits)
  with files_ok_close [OF assms(1,2) op]
  show "\<exists>s'. close_file i fd s = Inr ((), s') \<and> files_ok s' \<and> holders s' f = holders s f - {(i, nat (sint fd))}"
    by blast
qed

lemma files_stay_counted_witness:
  "files_ok mounted \<and> (\<exists>r s'. open_file 0 (cstr init_bin) mounted = Inr (r, s') \<and> files_ok s')"
proof -
  have "holders mounted f = {}" for f
    using mounted_fields(3) by (auto simp: holders_def)
  then have "files_ok mounted"
    using mounted_fields by (simp add: files_ok_def) (simp add: mounted_def blank_process_def)
  then show ?thesis
    using files_stay_counted [of mounted 0 init_bin] mounted_fields(4) by auto
qed

end
