(* ===== verification/Mount.thy ===== *)
theory Mount
  imports OpenFiles
begin

text \<open>
  Mounting the volume (\<open>init_fs\<close> of fs/fs.c) and handing its root directory out
  (\<open>read_root_directory\<close>): both tables start out empty and well counted, the heap loses two
  pages, and the entries a program receives are the entries of the volume.
\<close>

section \<open>Directory entries copied elsewhere\<close>

lemma rd_shift:
  "(\<And>i. i < n \<Longrightarrow> m' (b + of_nat i) = m (a + of_nat i)) \<Longrightarrow> rd n m' b = rd n m a"
proof (induction n arbitrary: a b)
  case 0
  show ?case by simp
next
  case (Suc n)
  have "rd n m' (b + 1) = (rd n m (a + 1) :: 'a word)"
  proof (rule Suc.IH)
    fix i assume "i < n"
    with Suc.prems [of "Suc i"] show "m' (b + 1 + of_nat i) = m (a + 1 + of_nat i)"
      by (simp add: add.assoc)
  qed
  with Suc.prems [of 0] show ?case by simp
qed

lemma load_DirEntry_shift:
  assumes eq: "\<And>i. i < 32 \<Longrightarrow> m' (b + of_nat i) = m (a + of_nat i)"
  shows "load_DirEntry m' b = load_DirEntry m a"
proof -
  have at: "m' (b + of_nat k + of_nat i) = m (a + of_nat k + of_nat i)" if "k + i < 32" for k i
    using eq [OF that] by (simp add: add.assoc)
  have b: "bytes m' (b + of_nat k) n = bytes m (a + of_nat k) n" if "k + n \<le> 32" for k n
    using that by (auto simp: bytes_def intro!: at)
  have w: "ld16 m' (b + of_nat k) = ld16 m (a + of_nat k)" if "k + 2 \<le> 32" for k
    using that by (intro rd_shift at) simp
  have d: "ld32 m' (b + of_nat k) = ld32 m (a + of_nat k)" if "k + 4 \<le> 32" for k
    using that by (intro rd_shift at) simp
  show ?thesis
    using b [of 0 8] b [of 8 3] eq [of 11] eq [of 12] eq [of 13]
      w [of 14] w [of 16] w [of 18] w [of 20] w [of 22] w [of 24] w [of 26] d [of 28]
    by (simp add: load_DirEntry_def)
qed

lemma written_nth:
  assumes "i < length xs" "unat a + length xs \<le> 2 ^ 64"
  shows "written m a xs (a + of_nat i) = xs ! i"
proof -
  have "unat (of_nat i :: u64) = i" using assms by (intro unat_of_nat_small) simp
  with assms(1) show ?thesis by (simp add: written_def in_range_def)
qed

section \<open>Properties\<close>

lemma far_root: "far 8589934592 (get_root_directory m)"
  unfolding get_root_directory_def Let_def
  by (rule far_mono [OF far_add [OF far_bpb, where k = 4294967296]]) (simp_all add: unat_u32_le)

text \<open>
  \<open>read_root_directory\<close> returns the number of entries and leaves in the buffer, entry
  by entry, exactly the root directory of the volume.
\<close>

theorem read_root_directory_lists_entries:
  fixes s :: "'a files_scheme"
  defines "c \<equiv> unat (get_root_directory_count (mem s))"
  assumes "resolves s buf a (c * 32)" "unat a + c * 32 \<le> unat FS_BASE"
  shows "\<exists>s'. read_root_directory buf s = Inr (get_root_directory_count (mem s), s')
     \<and> s' = s\<lparr>mem := mem s'\<rparr>
     \<and> (\<forall>i < c. load_DirEntry (mem s') (a + 32 * of_nat i) = dir_entry (mem s) i)"
proof -
  let ?n = "get_root_directory_count (mem s) * 32" and ?root = "get_root_directory (mem s)"
  have c: "c < 65536" using root_count_less [of "mem s"] by (simp add: c_def)
  then have n: "unat ?n = c * 32" by (simp add: c_def unat_word_ariths)
  let ?xs = "bytes (mem s) ?root (c * 32)" let ?m = "written (mem s) a ?xs"
  have "copy_to buf ?root ?n s = Inr ((), s\<lparr>mem := ?m\<rparr>)"
    using copy_to_written [OF assms(2) _ assms(3) far_root [of "mem s"], of ?n] n by simp
  moreover have "load_DirEntry ?m (a + 32 * of_nat i) = dir_entry (mem s) i" if "i < c" for i
    unfolding dir_entry_def
  proof (rule load_DirEntry_shift)
    fix j :: nat assume "j < 32"
    then have k: "32 * i + j < c * 32" using that by simp
    then have "?m (a + of_nat (32 * i + j)) = ?xs ! (32 * i + j)"
      using assms(3) by (intro written_nth) simp_all
    also have "\<dots> = mem s (?root + of_nat (32 * i + j))" using k by simp
    finally show "?m (a + 32 * of_nat i + of_nat j) = mem s (?root + 32 * of_nat i + of_nat j)"
      by (simp add: add.assoc)
  qed
  ultimately show ?thesis
    by (intro exI [of _ "s\<lparr>mem := ?m\<rparr>"]) (simp add: read_root_directory_def Let_def)
qed

lemma read_root_directory_lists_entries_witness:
  "\<exists>s'. read_root_directory 0xffff000000400000 mounted = Inr (16, s')
     \<and> name (load_DirEntry (mem s') 0xffff000000400000) = [0x49, 0x4e, 0x49, 0x54, 0x20, 0x20, 0x20, 0x20]"
proof -
  have "resolves mounted 0xffff000000400000 0xffff000000400000 (16 * 32)"
    by (rule resolves_kernel) (simp_all add: KERNEL_BASE_def)
  then obtain s' where "read_root_directory 0xffff000000400000 mounted = Inr (16, s')"
    "\<forall>i < 16. load_DirEntry (mem s') (0xffff000000400000 + 32 * of_nat i) = dir_entry sample_image i"
    using read_root_directory_lists_entries [of mounted "0xffff000000400000" "0xffff000000400000"]
    by (auto simp: mounted_fields sample_clusters)
  then show ?thesis
    by (intro exI [of _ s']) (auto simp: sample_entry dest: spec [of _ 0])
qed

text \<open>The two tables are set up from the first two free pages.\<close>

lemma init_tables:
  fixes s :: "'a files_scheme"
  assumes "heap_inv s ps" "\<forall>j < 10. \<forall>k < 100. p_file (process_table s j) k = None" "2 \<le> length ps"
  shows "\<exists>m f. let s' = s\<lparr>mem := m, free_memory := f, fcb_page := ps ! 0, file_desc_page := ps ! 1,
        fcb_table := (\<lambda>_. zero_FCB), file_desc_table := (\<lambda>_. zero_FileDesc)\<rparr>
      in (\<exists>s1. init_fcb s = Inr (True, s1) \<and> init_file_desc s1 = Inr (True, s'))
        \<and> heap_inv s' (drop 2 ps) \<and> image_eq (mem s) m \<and> files_ok s'"
proof -
  obtain p q rs where ps: "ps = p # q # rs" using assms(3) by (cases ps; cases "tl ps"; auto)
  have inv: "heap_inv s (p # q # rs)" using assms(1) ps by simp
  then have p: "page_ok (kernel_end s) p" "p \<notin> set (q # rs)" by (auto simp: heap_inv_def)
  let ?s1 = "s\<lparr>free_memory := ld64 (mem s) p, mem := memset (mem s) p 0 (ucast PAGE_SIZE)\<rparr>"
  have h1: "heap_inv ?s1 (q # rs)"
    using heap_inv_memset [OF kalloc_Cons(2) [OF inv], of p] p by simp
  let ?s2 = "?s1\<lparr>fcb_page := p, fcb_table := (\<lambda>_. zero_FCB)\<rparr>"
  have inv2: "heap_inv ?s2 (q # rs)" using h1 by (simp add: heap_inv_def)
  have fcb1: "init_fcb s = Inr (True, ?s2)"
    using kalloc_Cons(1) [OF inv] page_ok_bounds(4) [OF p(1)] by (simp add: init_fcb_def)
  have q: "page_ok (kernel_end ?s2) q" "q \<notin> set rs" using inv2 by (auto simp: heap_inv_def)
  let ?s3 = "?s2\<lparr>free_memory := ld64 (mem ?s2) q, mem := memset (mem ?s2) q 0 (ucast PAGE_SIZE)\<rparr>"
  have h3: "heap_inv ?s3 rs"
    using heap_inv_memset [OF kalloc_Cons(2) [OF inv2], of q] q by simp
  let ?s4 = "?s3\<lparr>file_desc_page := q, file_desc_table := (\<lambda>_. zero_FileDesc)\<rparr>"
  have "init_file_desc ?s2 = Inr (True, ?s4)"
    using kalloc_Cons(1) [OF inv2] page_ok_bounds(4) [OF q(1)] by (simp add: init_file_desc_def)
  then have run: "\<exists>s1. init_fcb s = Inr (True, s1) \<and> init_file_desc s1 = Inr (True, ?s4)"
    using fcb1 by blast
  have img: "image_eq m (memset m r 0 (ucast PAGE_SIZE))" if "page_ok (kernel_end s) r" for m r
  proof -
    note b = page_ok_bounds [OF that]
    have "\<not> in_range r 2097152 x" if "FS_BASE \<le> x" for x
      using b(2) that by (subst in_range_iff) (simp_all add: word_le_nat_alt)
    then show ?thesis by (simp add: image_eq_def memset_eq PAGE_SIZE_def)
  qed
  have "image_eq (mem s) (mem ?s4)"
    using image_eq_trans [OF img [OF p(1)] img [of q]] q(1) by simp
  moreover have "heap_inv ?s4 rs" using h3 by (simp add: heap_inv_def)
  moreover have "holders ?s4 f = {}" for f by (auto simp: holders_def zero_FileDesc_def)
  then have "files_ok ?s4"
    using assms(2) by (simp add: files_ok_def zero_FileDesc_def zero_FCB_def)
  moreover have "?s4 = s\<lparr>mem := mem ?s4, free_memory := free_memory ?s4, fcb_page := p, file_desc_page := q,
      fcb_table := (\<lambda>_. zero_FCB), file_desc_table := (\<lambda>_. zero_FileDesc)\<rparr>" by (rule files.equality) simp_all
  ultimately show ?thesis
    using run ps by (intro exI [of _ "mem ?s4"] exI [of _ "free_memory ?s4"]) (simp only: Let_def nth_Cons_0 nth_Cons_Suc One_nat_def drop_Suc_Cons drop_0 numeral_2_eq_2)
qed

text \<open>The boot signature of the volume.\<close>

definition signed :: "memory \<Rightarrow> bool" where
  "signed m \<longleftrightarrow> m (get_fs_bpb m + 0x1fe) = 0x55 \<and> m (get_fs_bpb m + 0x1ff) = 0xaa"

lemma init_fs_prints:
  fixes s :: "'a files_scheme"
  assumes "ready UART0_FR 5 s" "signed (mem s)"
  shows "\<exists>s0. sent loaded_text s s0 \<and> init_fs s = kbind (init_fcb s0) (\<lambda>ok s. kbind (kassert ok s) (\<lambda>_ s.
     kbind (init_file_desc s) (\<lambda>ok s. kassert ok s)))"
  using printk_text [OF assms(1), of loaded_text] assms(2)
  by (auto simp: init_fs_def signed_def Let_def loaded_text_def ascii_def)

lemma init_fs_spec:
  fixes s :: "'a files_scheme"
  assumes "heap_inv s ps" "\<forall>j < 10. \<forall>k < 100. p_file (process_table s j) k = None" "2 \<le> length ps"
    "signed (mem s)" "ready UART0_FR 5 s"
  shows "\<exists>s0 m f. sent loaded_text s s0 \<and> (let s' = s0\<lparr>mem := m, free_memory := f, fcb_page := ps ! 0,
        file_desc_page := ps ! 1, fcb_table := (\<lambda>_. zero_FCB), file_desc_table := (\<lambda>_. zero_FileDesc)\<rparr>
      in init_fs s = Inr ((), s') \<and> heap_inv s' (drop 2 ps) \<and> image_eq (mem s) m \<and> files_ok s')"
proof -
  obtain s0 where s0: "sent loaded_text s s0" "init_fs s = kbind (init_fcb s0) (\<lambda>ok s. kbind (kassert ok s) (\<lambda>_ s.
     kbind (init_file_desc s) (\<lambda>ok s. kassert ok s)))"
    using init_fs_prints [OF assms(5,4)] by blast
  have "heap_inv s0 ps" "\<forall>j < 10. \<forall>k < 100. p_file (process_table s0 j) k = None" and m: "mem s0 = mem s"
    using assms(1,2) s0(1) by (auto simp: sent_def heap_inv_def)
  from init_tables [OF this(1,2) assms(3)] s0 show ?thesis unfolding Let_def m by force
qed

lemma init_fs_fails:
  fixes s :: "'a files_scheme"
  assumes "heap_inv s ps" "\<not> (signed (mem s) \<and> 2 \<le> length ps)" "ready UART0_FR 5 s"
  shows "init_fs s = Inl Assert_failed"
proof (cases "signed (mem s)")
  case False
  then show ?thesis
    using printk_text [OF assms(3), of "ascii ''invalid signature'' @ [10]"]
    by (auto simp: init_fs_def signed_def Let_def ascii_def kassert_def)
next
  case sig: True
  obtain s0 where s0: "sent loaded_text s s0" "init_fs s = kbind (init_fcb s0) (\<lambda>ok s. kbind (kassert ok s) (\<lambda>_ s.
     kbind (init_file_desc s) (\<lambda>ok s. kassert ok s)))"
    using init_fs_prints [OF assms(3) sig] by blast
  have inv0: "heap_inv s0 ps" using assms(1) s0(1) by (auto simp: sent_def heap_inv_def)
  show ?thesis
  proof (cases ps)
    case Nil
    with s0(2) inv0 show ?thesis by (simp add: init_fcb_def kalloc_Nil)
  next
    case (Cons p qs)
    then have inv: "heap_inv s0 [p]" using assms sig inv0 by (cases qs) auto
    then have p: "page_ok (kernel_end s0) p" by (simp add: heap_inv_def)
    let ?s1 = "s0\<lparr>free_memory := ld64 (mem s0) p, mem := memset (mem s0) p 0 (ucast PAGE_SIZE)\<rparr>"
    let ?s2 = "?s1\<lparr>fcb_page := p, fcb_table := (\<lambda>_. zero_FCB)\<rparr>"
    have "heap_inv ?s2 []"
      using heap_inv_memset [OF kalloc_Cons(2) [OF inv], of p] p by (simp add: heap_inv_def)
    then have "kalloc ?s2 = Inr (0, ?s2)" by (rule kalloc_Nil)
    moreover have "init_fcb s0 = Inr (True, ?s2)"
      using kalloc_Cons(1) [OF inv] page_ok_bounds(4) [OF p(1)] by (simp add: init_fcb_def)
    ultimately show ?thesis using s0(2) by (simp add: init_file_desc_def)
  qed
qed



end
