(* ===== verification/Uvm.thy ===== *)
theory Uvm
  imports Mount
begin

text \<open>
  User address spaces (utils/memory.c): \<open>setup_uvm\<close>, which maps a page at 0x400000 and loads a
  program file into it, and \<open>copy_uvm\<close>, which gives a forked process a copy of that page.
\<close>

definition update_process :: "nat \<Rightarrow> (Process \<Rightarrow> Process) \<Rightarrow> 'a files_scheme \<Rightarrow> 'a files_scheme" where
  "update_process i f s = s\<lparr>process_table := (process_table s)(i := f (process_table s i))\<rparr>"

definition setup_uvm :: "nat \<Rightarrow> cstring \<Rightarrow> 'a files_scheme \<Rightarrow> (bool, 'a files_scheme) outcome" where
  "setup_uvm process file_name s =
     (let pgd = p_page_map (process_table s process) in
      kbind (kalloc s) (\<lambda>page s.
        if page = 0 then Inr (False, s)
        else let s = s\<lparr>mem := memset (mem s) page 0 (ucast PAGE_SIZE)\<rparr> in
          kbind (map_page pgd 0x400000 (V2P page) (ENTRY_V OR USER OR NORMAL_MEMORY OR ENTRY_ACCESSED) s)
            (\<lambda>status s.
              if status then
                kbind (open_file process file_name s) (\<lambda>fd s.
                  if fd = - 1 then kbind (free_vm pgd s) (\<lambda>_ s. Inr (False, s))
                  else kbind (get_file_size process fd s) (\<lambda>n s.
                    kbind (read_file process fd page n s) (\<lambda>r s.
                      if r \<noteq> n then kbind (free_vm pgd s) (\<lambda>_ s. Inr (False, s))
                      else kbind (close_file process fd s) (\<lambda>_ s. Inr (status, s)))))
              else kbind (kfree page s) (\<lambda>_ s. kbind (free_vm pgd s) (\<lambda>_ s. Inr (status, s))))))"

definition copy_uvm :: "u64 \<Rightarrow> u64 \<Rightarrow> u32 \<Rightarrow> 'a heap_scheme \<Rightarrow> (bool, 'a heap_scheme) outcome" where
  "copy_uvm dst_map src_map n s =
     kbind (kalloc s) (\<lambda>page s.
       if page = 0 then Inr (False, s)
       else let s = s\<lparr>mem := memset (mem s) page 0 (ucast PAGE_SIZE)\<rparr> in
         kbind (map_page dst_map 0x400000 (V2P page) (ENTRY_V OR USER OR NORMAL_MEMORY OR ENTRY_ACCESSED) s)
           (\<lambda>status s.
             if status then
               kbind (find_pud_entry src_map 0x400000 0 0 s) (\<lambda>pd s.
                 if pd = 0 then kbind (free_vm dst_map s) (\<lambda>_ s. Inr (False, s))
                 else let index = unat (drop_bit 21 0x400000 AND 0x1FF :: u32) in
                   if entry (mem s) pd index AND ENTRY_V \<noteq> 1 then Inl Assert_failed
                   else let start = P2V (PTE_ADDR (entry (mem s) pd index)) in
                     Inr (status, s\<lparr>mem := memcpy (mem s) page start n\<rparr>))
             else kbind (kfree page s) (\<lambda>_ s. kbind (free_vm dst_map s) (\<lambda>_ s. Inr (status, s)))))"

end
