(* ===== verification/Proc.thy ===== *)
theory Proc
  imports Uvm
begin

text \<open>
  Processes and their scheduling (process/process.c): creation, \<open>fork\<close>, \<open>exec\<close>, \<open>exit\<close> and \<open>wait\<close>,
  \<open>sleep\<close> and \<open>wake_up\<close>, \<open>yield\<close> and \<open>schedule\<close>. A context switch leaves the rest of a kernel function
  for later; that rest is a value of \<open>cont\<close>, saved with the process when it is switched away from.
\<close>

section \<open>State\<close>

text \<open>
  Where a process continues when it is switched to: on the way back to the program it was trapped
  from, in the loop of \<open>sys_sleep\<close>, in the loop of \<open>wait\<close>, after the \<open>sleep\<close> of \<open>read_key_buffer\<close>, or
  after \<open>exit\<close>, where no one is meant to continue.
\<close>

datatype cont = To_user | Sys_sleep u64 u64 | Wait_loop i32 | Key_read i32 | Exited

record KeyboardBuffer =
  kb_buffer :: "nat \<Rightarrow> u8"
  kb_front :: i32
  kb_end :: i32
  kb_size :: i32

text \<open>\<open>trap_return\<close> is the address of that label, fixed by the linker.\<close>

record kernel = files +
  current_process :: nat
  ready_list :: HeadList
  wait_list :: HeadList
  kill_list :: HeadList
  pid_num :: i32
  conts :: "nat \<Rightarrow> cont"
  trap_return :: u64
  ticks :: u64
  timer_interval :: u32
  key_buffer :: KeyboardBuffer

text \<open>A call that may switch away either returns or leaves the processor to another process.\<close>

datatype 'a progress = Done 'a | Switched

definition NUM_PROC :: nat where "NUM_PROC = 10"
definition TRAPFRAME_SIZE :: u64 where "TRAPFRAME_SIZE = 36 * 8"

definition on_ready :: "(queue \<Rightarrow> ('a, queue) outcome) \<Rightarrow> kernel \<Rightarrow> ('a, kernel) outcome" where
  "on_ready f s = (case f (ready_list s, process_table s) of
     Inl h \<Rightarrow> Inl h | Inr (x, l, t) \<Rightarrow> Inr (x, s\<lparr>ready_list := l, process_table := t\<rparr>))"

definition on_wait :: "(queue \<Rightarrow> ('a, queue) outcome) \<Rightarrow> kernel \<Rightarrow> ('a, kernel) outcome" where
  "on_wait f s = (case f (wait_list s, process_table s) of
     Inl h \<Rightarrow> Inl h | Inr (x, l, t) \<Rightarrow> Inr (x, s\<lparr>wait_list := l, process_table := t\<rparr>))"

definition on_kill :: "(queue \<Rightarrow> ('a, queue) outcome) \<Rightarrow> kernel \<Rightarrow> ('a, kernel) outcome" where
  "on_kill f s = (case f (kill_list s, process_table s) of
     Inl h \<Rightarrow> Inl h | Inr (x, l, t) \<Rightarrow> Inr (x, s\<lparr>kill_list := l, process_table := t\<rparr>))"

section \<open>Creating processes\<close>

definition find_unused_process :: "kernel \<Rightarrow> nat option" where
  "find_unused_process s = first_index (\<lambda>i. p_state (process_table s i) = PROC_UNUSED) 0 NUM_PROC"

definition init_idle_process :: "kernel \<Rightarrow> (unit, kernel) outcome" where
  "init_idle_process s =
     (if find_unused_process s \<noteq> Some 0 then Inl Assert_failed
      else Inr ((), (update_process 0
        (\<lambda>p. p\<lparr>p_state := PROC_RUNNING, p_pid := 0, p_page_map := P2V (read_pgd s)\<rparr>) s)
          \<lparr>current_process := 0\<rparr>))"

text \<open>The fields of a trap frame by their offsets: \<open>x0\<close> 0, \<open>sp0\<close> 248, \<open>elr\<close> 272, \<open>spsr\<close> 280.\<close>

definition set_user_entry :: "u64 \<Rightarrow> memory \<Rightarrow> memory" where
  "set_user_entry tf m = st64 (st64 (st64 m (tf + 272) 0x400000) (tf + 248) (0x400000 + PAGE_SIZE)) (tf + 280) 0"

definition alloc_new_process :: "kernel \<Rightarrow> (nat, kernel) outcome" where
  "alloc_new_process s = (case find_unused_process s of
     None \<Rightarrow> Inl Null_pointer
   | Some i \<Rightarrow>
      kbind (kalloc s) (\<lambda>stack s.
      let s = update_process i (\<lambda>p. p\<lparr>p_stack := stack\<rparr>) s in
      kbind (kassert (stack \<noteq> 0) s) (\<lambda>_ s.
      let s = s\<lparr>mem := memset (mem s) stack 0 (ucast PAGE_SIZE)\<rparr>;
          context = stack + PAGE_SIZE - TRAPFRAME_SIZE - 12 * 8;
          tf = stack + PAGE_SIZE - TRAPFRAME_SIZE;
          s = (update_process i (\<lambda>p. p\<lparr>p_state := PROC_INIT, p_pid := pid_num s, p_context := context\<rparr>) s)
            \<lparr>pid_num := pid_num s + 1\<rparr>;
          s = s\<lparr>mem := st64 (mem s) (context + 11 * 8) (trap_return s)\<rparr>;
          s = (update_process i (\<lambda>p. p\<lparr>p_tf := tf\<rparr>) s)\<lparr>mem := set_user_entry tf (mem s)\<rparr>
      in kbind (kalloc s) (\<lambda>pgd s.
         let s = update_process i (\<lambda>p. p\<lparr>p_page_map := pgd\<rparr>) s in
         kbind (kassert (pgd \<noteq> 0) s) (\<lambda>_ s.
         Inr (i, s\<lparr>mem := memset (mem s) pgd 0 (ucast PAGE_SIZE), conts := (conts s)(i := To_user)\<rparr>))))))"

text \<open>The kernel's literal \<open>"INIT.BIN"\<close>.\<close>

definition init_user_process :: "kernel \<Rightarrow> (unit, kernel) outcome" where
  "init_user_process s =
     kbind (alloc_new_process s) (\<lambda>process s.
     kbind (setup_uvm process (cstr init_bin) s) (\<lambda>ok s.
     kbind (kassert ok s) (\<lambda>_ s.
     on_ready (append_list_tail process) (update_process process (\<lambda>p. p\<lparr>p_state := PROC_READY\<rparr>) s))))"

definition init_process :: "kernel \<Rightarrow> (unit, kernel) outcome" where
  "init_process s = kbind (init_idle_process s) (\<lambda>_. init_user_process)"

section \<open>Scheduling\<close>

text \<open>
  \<open>swap\<close> saves where \<open>prev\<close> continues (\<open>c\<close>); the stack pointers themselves are not modelled. What
  runs next is the saved continuation of the new current process.
\<close>

definition switch_process :: "nat \<Rightarrow> nat \<Rightarrow> cont \<Rightarrow> kernel \<Rightarrow> (unit, kernel) outcome" where
  "switch_process prev current c s =
     kbind (switch_vm (p_page_map (process_table s current)) s) (\<lambda>_ s.
     Inr ((), s\<lparr>conts := (conts s)(prev := c)\<rparr>))"

definition run_process :: "nat \<Rightarrow> cont \<Rightarrow> kernel \<Rightarrow> (unit, kernel) outcome" where
  "run_process i c s =
     (let prev = current_process s;
        s = (update_process i (\<lambda>p. p\<lparr>p_state := PROC_RUNNING\<rparr>) s)\<lparr>current_process := i\<rparr>
      in switch_process prev i c s)"

definition schedule :: "cont \<Rightarrow> kernel \<Rightarrow> (unit, kernel) outcome" where
  "schedule c s =
     (if is_list_empty (ready_list s) then run_process 0 c s
      else kbind (on_ready remove_list_head s) (\<lambda>p s. case p of
        Item i \<Rightarrow> run_process i c s | _ \<Rightarrow> Inl Null_pointer))"

definition yield :: "kernel \<Rightarrow> (unit progress, kernel) outcome" where
  "yield s =
     (if is_list_empty (ready_list s) then Inr (Done (), s)
      else let process = current_process s;
          s = update_process process (\<lambda>p. p\<lparr>p_state := PROC_READY\<rparr>) s
        in kbind (if p_pid (process_table s process) \<noteq> 0 then on_ready (append_list_tail process) s
                  else Inr ((), s))
             (\<lambda>_ s. kbind (schedule To_user s) (\<lambda>_ s. Inr (Switched, s))))"

definition sleep :: "i32 \<Rightarrow> cont \<Rightarrow> kernel \<Rightarrow> (unit, kernel) outcome" where
  "sleep wait c s =
     (let process = current_process s;
        s = update_process process (\<lambda>p. p\<lparr>p_state := PROC_SLEEP, p_wait := wait\<rparr>) s
      in kbind (on_wait (append_list_tail process) s) (\<lambda>_. schedule c))"

partial_function (option) wake_up_loop :: "i32 \<Rightarrow> ptr \<Rightarrow> kernel \<Rightarrow> (unit, kernel) outcome option" where
  "wake_up_loop wait p s = (case p of
     Null \<Rightarrow> Some (Inr ((), s))
   | ListHead \<Rightarrow> Some (Inl Out_of_bounds)
   | Item i \<Rightarrow>
       (case on_ready (append_list_tail i) (update_process i (\<lambda>p. p\<lparr>p_state := PROC_READY\<rparr>) s) of
          Inl h \<Rightarrow> Some (Inl h)
        | Inr (u, s) \<Rightarrow> (case on_wait (remove_list wait) s of
            Inl h \<Rightarrow> Some (Inl h)
          | Inr (p, s) \<Rightarrow> wake_up_loop wait p s)))"

definition wake_up :: "i32 \<Rightarrow> kernel \<Rightarrow> (unit, kernel) outcome" where
  "wake_up wait s = kbind (on_wait (remove_list wait) s) (\<lambda>p s.
     case wake_up_loop wait p s of None \<Rightarrow> Inl Spin | Some r \<Rightarrow> r)"

section \<open>Ending processes\<close>

definition exit :: "kernel \<Rightarrow> (unit, kernel) outcome" where
  "exit s =
     (let process = current_process s;
        s = update_process process (\<lambda>p. p\<lparr>p_state := PROC_KILLED, p_wait := p_pid p\<rparr>) s
      in kbind (on_kill (append_list_tail process) s) (\<lambda>_ s.
         kbind (wake_up (- 3) s) (\<lambda>_. schedule Exited)))"

definition zero_process :: Process where
  "zero_process = \<lparr>p_next = Null, p_pid = 0, p_wait = 0, p_state = PROC_UNUSED, p_context = 0,
     p_page_map = 0, p_stack = 0, p_file = (\<lambda>_. None), p_tf = 0\<rparr>"

definition reap :: "nat \<Rightarrow> kernel \<Rightarrow> (unit, kernel) outcome" where
  "reap process s =
     (let p = process_table s process in
      kbind (kassert (p_state p = PROC_KILLED) s) (\<lambda>_ s.
      kbind (kfree (p_stack p) s) (\<lambda>_ s.
      kbind (free_vm (p_page_map p) s) (\<lambda>_ s.
      Inr ((), update_process process (\<lambda>_. zero_process) s)))))"

text \<open>One turn of the loop of \<open>wait\<close>; after the \<open>sleep\<close> the process continues with the next turn.\<close>

definition wait :: "i32 \<Rightarrow> kernel \<Rightarrow> (unit progress, kernel) outcome" where
  "wait pid s =
     kbind (if \<not> is_list_empty (kill_list s) then on_kill (remove_list pid) s else Inr (Null, s)) (\<lambda>p s.
     case p of
       Item i \<Rightarrow> kbind (reap i s) (\<lambda>_ s. Inr (Done (), s))
     | ListHead \<Rightarrow> Inl Out_of_bounds
     | Null \<Rightarrow> kbind (sleep (- 3) (Wait_loop pid) s) (\<lambda>_ s. Inr (Switched, s)))"

section \<open>fork and exec\<close>

text \<open>One turn of the loop that counts the files the child shares with its parent.\<close>

definition share_file :: "nat \<Rightarrow> nat \<Rightarrow> kernel \<Rightarrow> (unit, kernel) outcome" where
  "share_file process k s = (case p_file (process_table s process) k of
     None \<Rightarrow> Inr ((), s)
   | Some d \<Rightarrow>
       let s = s\<lparr>file_desc_table := (file_desc_table s)
             (d := (file_desc_table s d)\<lparr>fd_count := fd_count (file_desc_table s d) + 1\<rparr>)\<rparr>
       in kbind (fcb_at d s) (\<lambda>f s. Inr ((), s\<lparr>fcb_table := (fcb_table s)
             (f := (fcb_table s f)\<lparr>fcb_count := fcb_count (fcb_table s f) + 1\<rparr>)\<rparr>)))"

definition fork :: "kernel \<Rightarrow> (i32, kernel) outcome" where
  "fork s =
     (let current = current_process s in
      kbind (alloc_new_process s) (\<lambda>process s.
      kbind (copy_uvm (p_page_map (process_table s process)) (p_page_map (process_table s current))
          (ucast PAGE_SIZE) s) (\<lambda>ok s.
      if \<not> ok then Inl Assert_failed
      else let s = update_process process (\<lambda>p. p\<lparr>p_file := p_file (process_table s current)\<rparr>) s in
        kbind (for_each [0..<100] (share_file process) s) (\<lambda>_ s.
        let tf = p_tf (process_table s process);
          s = s\<lparr>mem := memcpy (mem s) tf (p_tf (process_table s current)) (ucast TRAPFRAME_SIZE)\<rparr>;
          s = s\<lparr>mem := st64 (mem s) tf 0\<rparr>;
          s = update_process process (\<lambda>p. p\<lparr>p_state := PROC_READY\<rparr>) s
        in kbind (on_ready (append_list_tail process) s) (\<lambda>_ s.
           Inr (p_pid (process_table s process), s))))))"

definition exec :: "nat \<Rightarrow> cstring \<Rightarrow> kernel \<Rightarrow> (i32 progress, kernel) outcome" where
  "exec process path s =
     kbind (open_file process path s) (\<lambda>fd s.
     if fd = - 1 then kbind (exit s) (\<lambda>_ s. Inr (Switched, s))
     else kbind (fill_to 0x400000 0 (ucast PAGE_SIZE) s) (\<lambda>_ s.
       kbind (get_file_size process fd s) (\<lambda>n s.
       kbind (read_file process fd 0x400000 n s) (\<lambda>n s.
       if n = 0xffffffff then kbind (exit s) (\<lambda>_ s. Inr (Switched, s))
       else kbind (close_file process fd s) (\<lambda>_ s.
         let tf = p_tf (process_table s process) in
         Inr (Done 0, s\<lparr>mem := set_user_entry tf (memset (mem s) tf 0 (ucast TRAPFRAME_SIZE))\<rparr>))))))"

end
