(* ===== verification/Sched.thy ===== *)
theory Sched
  imports Proc
begin

text \<open>
  The scheduler invariant: every process of the table is the running one, or on exactly one of the
  ready, wait and kill queues, or the idle process waiting for its turn, or unused, and its
  \<open>state\<close> field says which. Every scheduling operation of process.c is shown to keep it and to act
  on the queues as on three lists.
\<close>

section \<open>Three queues in one table\<close>

definition queues_ok ::
    "proc_table \<Rightarrow> HeadList \<Rightarrow> HeadList \<Rightarrow> HeadList \<Rightarrow> nat list \<Rightarrow> nat list \<Rightarrow> nat list \<Rightarrow> bool" where
  "queues_ok t r w k R W K \<longleftrightarrow> queue_repr t r R \<and> queue_repr t w W \<and> queue_repr t k K \<and> distinct (R @ W @ K)"

lemma queues_ok_cong:
  "(\<And>i. p_next (t' i) = p_next (t i)) \<Longrightarrow> queues_ok t' r w k R W K = queues_ok t r w k R W K"
  using queue_repr_cong [of _ t' t] by (simp add: queues_ok_def)

text \<open>The contract of the queues is symmetric, so one lemma per operation serves all three.\<close>

lemma queues_ok_swap:
  "queues_ok t r w k R W K \<longleftrightarrow> queues_ok t w r k W R K"
  "queues_ok t r w k R W K \<longleftrightarrow> queues_ok t k w r K W R"
  by (auto simp: queues_ok_def)

lemma append_first:
  assumes "queues_ok t r w k R W K" "i \<notin> set (R @ W @ K)"
  shows "\<exists>r' t'. append_list_tail i (r, t) = Inr ((), r', t') \<and> queues_ok t' r' w k (R @ [i]) W K
    \<and> next_frame t t' UNIV"
proof -
  obtain r' t' where "append_list_tail i (r, t) = Inr ((), (r', t'))" "queue_repr t' r' (R @ [i])"
    and f: "next_frame t t' (insert i (set R))"
    using append_list_tail_repr [of t r R i] assms by (auto simp: queues_ok_def)
  moreover have "queue_repr t' w W" "queue_repr t' k K"
    using assms by (auto simp: queues_ok_def intro!: queue_repr_frame [OF f])
  ultimately show ?thesis
    using assms next_frame_mono [OF f, of UNIV] by (auto simp: queues_ok_def)
qed

lemma remove_head_first:
  assumes "queues_ok t r w k (x # R) W K"
  shows "\<exists>r'. remove_list_head (r, t) = Inr (Item x, r', t) \<and> queues_ok t r' w k R W K"
  using remove_list_head_repr [of t r "x # R"] assms by (auto simp: queues_ok_def)

text \<open>\<open>remove_list\<close> on the first queue: the first process with the key, and the other ones.\<close>

lemma remove_first:
  assumes "queues_ok t r w k R W K"
  shows "\<exists>r' t'. remove_list v (r, t)
      = Inr (case find (\<lambda>i. p_wait (t i) = v) R of None \<Rightarrow> Null | Some i \<Rightarrow> Item i, r', t')
    \<and> queues_ok t' r' w k (case find (\<lambda>i. p_wait (t i) = v) R of None \<Rightarrow> R | Some i \<Rightarrow> remove1 i R) W K
    \<and> next_frame t t' UNIV"
proof (cases "find (\<lambda>i. p_wait (t i) = v) R")
  case None
  then have "\<forall>x \<in> set R. p_wait (t x) \<noteq> v" by (simp add: find_None_iff)
  with None assms remove_list_none [of t r R v] show ?thesis by (simp add: queues_ok_def)
next
  case (Some i)
  then obtain bs as where R: "R = bs @ i # as" "\<forall>b \<in> set bs. p_wait (t b) \<noteq> v" "p_wait (t i) = v"
    using find_split by fastforce
  then have "i \<notin> set bs" using assms by (auto simp: queues_ok_def)
  then have rm: "remove1 i R = bs @ as" by (simp add: R(1) remove1_append)
  have "queue_repr t r (bs @ i # as)" using assms R(1) by (simp add: queues_ok_def)
  from remove_list_repr_found [OF this R(2,3)] obtain r' t' where
    "remove_list v (r, t) = Inr (Item i, (r', t'))" "queue_repr t' r' (bs @ as)"
    and f: "next_frame t t' (set bs)"
    by blast
  moreover have "queue_repr t' w W" "queue_repr t' k K"
    using assms R(1) by (auto simp: queues_ok_def intro!: queue_repr_frame [OF f])
  ultimately show ?thesis
    using Some rm assms R(1) next_frame_mono [OF f, of UNIV] by (auto simp: queues_ok_def)
qed

section \<open>The invariant\<close>

definition state_of :: "nat \<Rightarrow> nat list \<Rightarrow> nat list \<Rightarrow> nat list \<Rightarrow> nat \<Rightarrow> proc_state" where
  "state_of c R W K i = (if i = c then PROC_RUNNING else if i \<in> set R then PROC_READY
     else if i \<in> set W then PROC_SLEEP else if i \<in> set K then PROC_KILLED
     else if i = 0 then PROC_READY else PROC_UNUSED)"

definition sched_inv :: "kernel \<Rightarrow> nat list \<Rightarrow> nat list \<Rightarrow> nat list \<Rightarrow> bool" where
  "sched_inv s R W K \<longleftrightarrow>
     queues_ok (process_table s) (ready_list s) (wait_list s) (kill_list s) R W K
     \<and> current_process s < NUM_PROC \<and> current_process s \<notin> set (R @ W @ K)
     \<and> set (R @ W @ K) \<subseteq> {1..<NUM_PROC}
     \<and> (\<forall>i < NUM_PROC. p_state (process_table s i) = state_of (current_process s) R W K i)
     \<and> (\<forall>i < NUM_PROC. p_state (process_table s i) \<noteq> PROC_UNUSED \<longrightarrow> (p_pid (process_table s i) = 0 \<longleftrightarrow> i = 0))"

text \<open>What scheduling leaves alone: memory, heap, files, and all but three fields of a process.\<close>

definition sched_step :: "kernel \<Rightarrow> kernel \<Rightarrow> bool" where
  "sched_step s s' \<longleftrightarrow> mem s' = mem s \<and> free_memory s' = free_memory s \<and> kernel_end s' = kernel_end s
     \<and> io_in s' = io_in s \<and> io_n s' = io_n s \<and> io_out s' = io_out s
     \<and> fcb_page s' = fcb_page s \<and> file_desc_page s' = file_desc_page s
     \<and> fcb_table s' = fcb_table s \<and> file_desc_table s' = file_desc_table s \<and> pid_num s' = pid_num s
     \<and> trap_return s' = trap_return s \<and> ticks s' = ticks s \<and> timer_interval s' = timer_interval s
     \<and> key_buffer s' = key_buffer s
     \<and> (\<forall>i. \<exists>n st v. process_table s' i = (process_table s i)\<lparr>p_next := n, p_state := st, p_wait := v\<rparr>)"

lemma process_change: "\<exists>n st v. (p::Process) = p\<lparr>p_next := n, p_state := st, p_wait := v\<rparr>"
  by (intro exI [of _ "p_next p"] exI [of _ "p_state p"] exI [of _ "p_wait p"]) simp

lemma process_changes:
  "\<exists>n st v. p\<lparr>p_state := PROC_READY\<rparr> = (p::Process)\<lparr>p_next := n, p_state := st, p_wait := v\<rparr>"
  "\<exists>n st v. p\<lparr>p_state := x\<rparr> = (p::Process)\<lparr>p_next := n, p_state := st, p_wait := v\<rparr>"
  "\<exists>n st v. p\<lparr>p_state := x, p_wait := y\<rparr> = (p::Process)\<lparr>p_next := n, p_state := st, p_wait := v\<rparr>"
  by (intro exI [of _ "p_next p"] exI [of _ "p_wait p"] exI; simp)+

lemma sched_step_refl [simp]: "sched_step s s"
  by (simp add: sched_step_def process_change)

lemma sched_step_trans:
  assumes "sched_step s s'" "sched_step s' s''"
  shows "sched_step s s''"
proof -
  have "\<exists>n st v. process_table s'' i = (process_table s i)\<lparr>p_next := n, p_state := st, p_wait := v\<rparr>" for i
  proof -
    obtain n st v where 1: "process_table s' i = (process_table s i)\<lparr>p_next := n, p_state := st, p_wait := v\<rparr>"
      using assms(1) unfolding sched_step_def by blast
    obtain n' st' v' where "process_table s'' i = (process_table s' i)\<lparr>p_next := n', p_state := st', p_wait := v'\<rparr>"
      using assms(2) unfolding sched_step_def by blast
    with 1 have "process_table s'' i = (process_table s i)\<lparr>p_next := n', p_state := st', p_wait := v'\<rparr>" by simp
    then show ?thesis by blast
  qed
  with assms show ?thesis by (simp add: sched_step_def)
qed

lemma sched_step_fields:
  assumes "sched_step s s'"
  shows "mem s' = mem s" "free_memory s' = free_memory s" "kernel_end s' = kernel_end s"
    "fcb_table s' = fcb_table s" "file_desc_table s' = file_desc_table s"
    "ticks s' = ticks s" "key_buffer s' = key_buffer s" "pid_num s' = pid_num s"
    "p_file (process_table s' i) = p_file (process_table s i)"
    "p_pid (process_table s' i) = p_pid (process_table s i)"
    "p_page_map (process_table s' i) = p_page_map (process_table s i)"
    "p_stack (process_table s' i) = p_stack (process_table s i)"
    "p_tf (process_table s' i) = p_tf (process_table s i)"
proof -
  obtain n st v where "process_table s' i = (process_table s i)\<lparr>p_next := n, p_state := st, p_wait := v\<rparr>"
    using assms unfolding sched_step_def by blast
  then show "p_file (process_table s' i) = p_file (process_table s i)"
    "p_pid (process_table s' i) = p_pid (process_table s i)"
    "p_page_map (process_table s' i) = p_page_map (process_table s i)"
    "p_stack (process_table s' i) = p_stack (process_table s i)"
    "p_tf (process_table s' i) = p_tf (process_table s i)" by simp_all
qed (use assms in \<open>simp_all add: sched_step_def\<close>)

text \<open>Relinking queues and re-labelling a process are such steps.\<close>

lemma sched_step_relink:
  assumes "next_frame (process_table s) t UNIV"
  shows "sched_step s (s\<lparr>ready_list := l, process_table := t\<rparr>)"
    "sched_step s (s\<lparr>wait_list := l, process_table := t\<rparr>)"
    "sched_step s (s\<lparr>kill_list := l, process_table := t\<rparr>)"
proof -
  have "\<exists>n st v. t i = (process_table s i)\<lparr>p_next := n, p_state := st, p_wait := v\<rparr>" for i
  proof -
    obtain n where "t i = (process_table s i)\<lparr>p_next := n\<rparr>" using assms by (auto simp: next_frame_def)
    then have "t i = (process_table s i)\<lparr>p_next := n, p_state := p_state (process_table s i),
        p_wait := p_wait (process_table s i)\<rparr>" by simp
    then show ?thesis by blast
  qed
  then show "sched_step s (s\<lparr>ready_list := l, process_table := t\<rparr>)"
    "sched_step s (s\<lparr>wait_list := l, process_table := t\<rparr>)"
    "sched_step s (s\<lparr>kill_list := l, process_table := t\<rparr>)"
    by (simp_all add: sched_step_def)
qed

lemma sched_step_label:
  "sched_step s (update_process i (\<lambda>p. p\<lparr>p_state := x\<rparr>) s)"
  "sched_step s (update_process i (\<lambda>p. p\<lparr>p_state := x, p_wait := y p\<rparr>) s)"
  using process_changes by (auto simp: sched_step_def update_process_def process_change)

section \<open>Between two operations\<close>

text \<open>
  While an operation is under way, a process may be on no queue; \<open>st\<close> says which states the
  \<open>state\<close> fields show meanwhile.
\<close>

definition sched_mid :: "kernel \<Rightarrow> (nat \<Rightarrow> proc_state) \<Rightarrow> nat list \<Rightarrow> nat list \<Rightarrow> nat list \<Rightarrow> bool" where
  "sched_mid s st R W K \<longleftrightarrow>
     queues_ok (process_table s) (ready_list s) (wait_list s) (kill_list s) R W K
     \<and> set (R @ W @ K) \<subseteq> {1..<NUM_PROC}
     \<and> (\<forall>i < NUM_PROC. p_state (process_table s i) = st i)
     \<and> (\<forall>i < NUM_PROC. st i \<noteq> PROC_UNUSED \<longrightarrow> (p_pid (process_table s i) = 0 \<longleftrightarrow> i = 0))"

lemma sched_inv_mid:
  "sched_inv s R W K \<longleftrightarrow> sched_mid s (state_of (current_process s) R W K) R W K
     \<and> current_process s < NUM_PROC \<and> current_process s \<notin> set (R @ W @ K)"
  by (auto simp: sched_inv_def sched_mid_def)

lemma sched_mid_cong:
  "sched_mid s st R W K \<Longrightarrow> (\<And>i. i < NUM_PROC \<Longrightarrow> st i = st' i) \<Longrightarrow> sched_mid s st' R W K"
  by (auto simp: sched_mid_def)

definition same_cpu :: "kernel \<Rightarrow> kernel \<Rightarrow> bool" where
  "same_cpu s s' \<longleftrightarrow> current_process s' = current_process s \<and> conts s' = conts s \<and> ttbr0 s' = ttbr0 s"

lemma same_cpu_refl [simp]: "same_cpu s s" by (simp add: same_cpu_def)

lemma same_cpu_trans: "same_cpu s s' \<Longrightarrow> same_cpu s' s'' \<Longrightarrow> same_cpu s s''" by (simp add: same_cpu_def)

lemma mid_label:
  assumes "sched_mid s st R W K" "i < NUM_PROC" "st i \<noteq> PROC_UNUSED"
  shows "sched_mid (update_process i (\<lambda>p. p\<lparr>p_state := x\<rparr>) s) (st(i := x)) R W K"
    and "sched_mid (update_process i (\<lambda>p. p\<lparr>p_state := x, p_wait := y p\<rparr>) s) (st(i := x)) R W K"
  using assms
  by (auto simp: sched_mid_def update_process_def elim!: queues_ok_cong [THEN iffD2, rotated])

lemma mid_frame:
  assumes "sched_mid s st R W K" "next_frame (process_table s) t UNIV" "queues_ok t r w k R' W' K'"
    "set (R' @ W' @ K') \<subseteq> {1..<NUM_PROC}"
  shows "sched_mid (s\<lparr>ready_list := r, wait_list := w, kill_list := k, process_table := t\<rparr>) st R' W' K'"
  using assms next_frame_fields [OF assms(2)] by (simp add: sched_mid_def)

lemma mid_append_ready:
  assumes "sched_mid s st R W K" "i \<notin> set (R @ W @ K)" "0 < i" "i < NUM_PROC"
  shows "\<exists>s'. on_ready (append_list_tail i) s = Inr ((), s') \<and> sched_step s s' \<and> same_cpu s s'
    \<and> sched_mid s' st (R @ [i]) W K \<and> (\<forall>j. p_wait (process_table s' j) = p_wait (process_table s j))"
proof -
  have q: "queues_ok (process_table s) (ready_list s) (wait_list s) (kill_list s) R W K"
    using assms(1) by (simp add: sched_mid_def)
  from append_first [OF q assms(2)] obtain r t where
    a: "append_list_tail i (ready_list s, process_table s) = Inr ((), r, t)"
      "queues_ok t r (wait_list s) (kill_list s) (R @ [i]) W K" "next_frame (process_table s) t UNIV" by blast
  have "sched_mid (s\<lparr>ready_list := r, wait_list := wait_list s, kill_list := kill_list s, process_table := t\<rparr>)
      st (R @ [i]) W K"
    using assms by (intro mid_frame [OF _ a(3,2)]) (auto simp: sched_mid_def)
  then have "sched_mid (s\<lparr>ready_list := r, process_table := t\<rparr>) st (R @ [i]) W K" by simp
  with a sched_step_relink(1) [OF a(3)] next_frame_fields(2) [OF a(3)] show ?thesis
    by (intro exI [of _ "s\<lparr>ready_list := r, process_table := t\<rparr>"]) (simp add: on_ready_def same_cpu_def)
qed

lemma mid_append_wait:
  assumes "sched_mid s st R W K" "i \<notin> set (R @ W @ K)" "0 < i" "i < NUM_PROC"
  shows "\<exists>s'. on_wait (append_list_tail i) s = Inr ((), s') \<and> sched_step s s' \<and> same_cpu s s'
    \<and> sched_mid s' st R (W @ [i]) K \<and> (\<forall>j. p_wait (process_table s' j) = p_wait (process_table s j))"
proof -
  have q: "queues_ok (process_table s) (wait_list s) (ready_list s) (kill_list s) W R K"
    using assms(1) by (simp add: sched_mid_def queues_ok_swap(1))
  have "i \<notin> set (W @ R @ K)" using assms(2) by auto
  from append_first [OF q this] obtain l t where
    a: "append_list_tail i (wait_list s, process_table s) = Inr ((), l, t)"
      "queues_ok t (ready_list s) l (kill_list s) R (W @ [i]) K" "next_frame (process_table s) t UNIV"
    by (auto simp: queues_ok_swap(1))
  have "sched_mid (s\<lparr>ready_list := ready_list s, wait_list := l, kill_list := kill_list s, process_table := t\<rparr>)
      st R (W @ [i]) K"
    using assms by (intro mid_frame [OF _ a(3,2)]) (auto simp: sched_mid_def)
  then have "sched_mid (s\<lparr>wait_list := l, process_table := t\<rparr>) st R (W @ [i]) K" by simp
  with a sched_step_relink(2) [OF a(3)] next_frame_fields(2) [OF a(3)] show ?thesis
    by (intro exI [of _ "s\<lparr>wait_list := l, process_table := t\<rparr>"]) (simp add: on_wait_def same_cpu_def)
qed

lemma mid_append_kill:
  assumes "sched_mid s st R W K" "i \<notin> set (R @ W @ K)" "0 < i" "i < NUM_PROC"
  shows "\<exists>s'. on_kill (append_list_tail i) s = Inr ((), s') \<and> sched_step s s' \<and> same_cpu s s'
    \<and> sched_mid s' st R W (K @ [i]) \<and> (\<forall>j. p_wait (process_table s' j) = p_wait (process_table s j))"
proof -
  have q: "queues_ok (process_table s) (kill_list s) (wait_list s) (ready_list s) K W R"
    using assms(1) queues_ok_swap(2) by (auto simp: sched_mid_def)
  have "i \<notin> set (K @ W @ R)" using assms(2) by auto
  from append_first [OF q this] obtain l t where
    a: "append_list_tail i (kill_list s, process_table s) = Inr ((), l, t)"
      "queues_ok t (ready_list s) (wait_list s) l R W (K @ [i])" "next_frame (process_table s) t UNIV"
    using queues_ok_swap(2) by blast
  have "sched_mid (s\<lparr>ready_list := ready_list s, wait_list := wait_list s, kill_list := l, process_table := t\<rparr>)
      st R W (K @ [i])"
    using assms by (intro mid_frame [OF _ a(3,2)]) (auto simp: sched_mid_def)
  then have "sched_mid (s\<lparr>kill_list := l, process_table := t\<rparr>) st R W (K @ [i])" by simp
  with a sched_step_relink(3) [OF a(3)] next_frame_fields(2) [OF a(3)] show ?thesis
    by (intro exI [of _ "s\<lparr>kill_list := l, process_table := t\<rparr>"]) (simp add: on_kill_def same_cpu_def)
qed

lemma mid_remove_head:
  assumes "sched_mid s st (x # R) W K"
  shows "\<exists>s'. on_ready remove_list_head s = Inr (Item x, s') \<and> sched_step s s' \<and> same_cpu s s'
    \<and> sched_mid s' st R W K \<and> (\<forall>j. p_wait (process_table s' j) = p_wait (process_table s j))"
proof -
  have q: "queues_ok (process_table s) (ready_list s) (wait_list s) (kill_list s) (x # R) W K"
    using assms by (simp add: sched_mid_def)
  from remove_head_first [OF q] obtain r where
    a: "remove_list_head (ready_list s, process_table s) = Inr (Item x, r, process_table s)"
      "queues_ok (process_table s) r (wait_list s) (kill_list s) R W K" by blast
  have "sched_mid (s\<lparr>ready_list := r, wait_list := wait_list s, kill_list := kill_list s,
      process_table := process_table s\<rparr>) st R W K"
    using assms by (intro mid_frame [OF assms _ a(2)]) (auto simp: sched_mid_def)
  then have "sched_mid (s\<lparr>ready_list := r\<rparr>) st R W K" by simp
  moreover have "sched_step s (s\<lparr>ready_list := r\<rparr>)"
    using sched_step_relink(1) [of s "process_table s" r] by simp
  ultimately show ?thesis
    using a(1) by (intro exI [of _ "s\<lparr>ready_list := r\<rparr>"]) (simp add: on_ready_def same_cpu_def)
qed


lemma set_after_find:
  "set (case find P W of None \<Rightarrow> W | Some i \<Rightarrow> remove1 i W) \<subseteq> set W"
  using set_remove1_subset [of _ W] by (cases "find P W") auto

lemma mid_remove_wait:
  assumes "sched_mid s st R W K"
  shows "\<exists>s'. on_wait (remove_list v) s = Inr (case find (\<lambda>i. p_wait (process_table s i) = v) W of
        None \<Rightarrow> Null | Some i \<Rightarrow> Item i, s')
    \<and> sched_step s s' \<and> same_cpu s s'
    \<and> sched_mid s' st R (case find (\<lambda>i. p_wait (process_table s i) = v) W of None \<Rightarrow> W | Some i \<Rightarrow> remove1 i W) K
    \<and> (\<forall>j. p_wait (process_table s' j) = p_wait (process_table s j))"
proof -
  let ?f = "find (\<lambda>i. p_wait (process_table s i) = v) W"
  let ?W = "case ?f of None \<Rightarrow> W | Some i \<Rightarrow> remove1 i W"
  have q: "queues_ok (process_table s) (wait_list s) (ready_list s) (kill_list s) W R K"
    using assms by (simp add: sched_mid_def queues_ok_swap(1))
  from remove_first [OF q, of v] obtain l t where
    a: "remove_list v (wait_list s, process_table s) = Inr (case ?f of None \<Rightarrow> Null | Some i \<Rightarrow> Item i, l, t)"
      "queues_ok t (ready_list s) l (kill_list s) R ?W K" "next_frame (process_table s) t UNIV"
    by (auto simp: queues_ok_swap(1))
  have "set ?W \<subseteq> set W" by (rule set_after_find)
  then have "sched_mid (s\<lparr>ready_list := ready_list s, wait_list := l, kill_list := kill_list s, process_table := t\<rparr>)
      st R ?W K"
    using assms by (intro mid_frame [OF assms a(3,2)]) (auto simp: sched_mid_def)
  then have "sched_mid (s\<lparr>wait_list := l, process_table := t\<rparr>) st R ?W K" by simp
  with a sched_step_relink(2) [OF a(3)] next_frame_fields(2) [OF a(3)] show ?thesis
    by (intro exI [of _ "s\<lparr>wait_list := l, process_table := t\<rparr>"]) (simp add: on_wait_def same_cpu_def)
qed

lemma mid_remove_kill:
  assumes "sched_mid s st R W K"
  shows "\<exists>s'. on_kill (remove_list v) s = Inr (case find (\<lambda>i. p_wait (process_table s i) = v) K of
        None \<Rightarrow> Null | Some i \<Rightarrow> Item i, s')
    \<and> sched_step s s' \<and> same_cpu s s'
    \<and> sched_mid s' st R W (case find (\<lambda>i. p_wait (process_table s i) = v) K of None \<Rightarrow> K | Some i \<Rightarrow> remove1 i K)
    \<and> (\<forall>j. p_wait (process_table s' j) = p_wait (process_table s j))"
proof -
  let ?f = "find (\<lambda>i. p_wait (process_table s i) = v) K"
  let ?K = "case ?f of None \<Rightarrow> K | Some i \<Rightarrow> remove1 i K"
  have q: "queues_ok (process_table s) (kill_list s) (wait_list s) (ready_list s) K W R"
    using assms queues_ok_swap(2) by (auto simp: sched_mid_def)
  from remove_first [OF q, of v] obtain l t where
    a: "remove_list v (kill_list s, process_table s) = Inr (case ?f of None \<Rightarrow> Null | Some i \<Rightarrow> Item i, l, t)"
      "queues_ok t (ready_list s) (wait_list s) l R W ?K" "next_frame (process_table s) t UNIV"
    using queues_ok_swap(2) by blast
  have "set ?K \<subseteq> set K" by (rule set_after_find)
  then have "sched_mid (s\<lparr>ready_list := ready_list s, wait_list := wait_list s, kill_list := l, process_table := t\<rparr>)
      st R W ?K"
    using assms by (intro mid_frame [OF assms a(3,2)]) (auto simp: sched_mid_def)
  then have "sched_mid (s\<lparr>kill_list := l, process_table := t\<rparr>) st R W ?K" by simp
  with a sched_step_relink(3) [OF a(3)] next_frame_fields(2) [OF a(3)] show ?thesis
    by (intro exI [of _ "s\<lparr>kill_list := l, process_table := t\<rparr>"]) (simp add: on_kill_def same_cpu_def)
qed

section \<open>Choosing the next process\<close>

lemma is_list_empty_repr: "queue_repr t l xs \<Longrightarrow> is_list_empty l \<longleftrightarrow> xs = []"
  by (cases xs) (auto simp: queue_repr_def is_list_empty_def)

definition next_process :: "nat list \<Rightarrow> nat" where
  "next_process R = (case R of [] \<Rightarrow> 0 | x # _ \<Rightarrow> x)"

lemma run_process_mid:
  assumes "sched_mid s st R W K" "i < NUM_PROC" "st i \<noteq> PROC_UNUSED"
  shows "\<exists>s'. run_process i c s = Inr ((), s') \<and> sched_step s s' \<and> sched_mid s' (st(i := PROC_RUNNING)) R W K
    \<and> current_process s' = i \<and> conts s' = (conts s)(current_process s := c)
    \<and> ttbr0 s' = V2P (p_page_map (process_table s i))
    \<and> (\<forall>j. p_wait (process_table s' j) = p_wait (process_table s j))"
proof -
  let ?s = "update_process i (\<lambda>p. p\<lparr>p_state := PROC_RUNNING\<rparr>) s"
  have m: "sched_mid ?s (st(i := PROC_RUNNING)) R W K" by (rule mid_label(1) [OF assms])
  have "sched_step s ?s" by (rule sched_step_label)
  with m show ?thesis
    by (simp add: run_process_def Let_def switch_process_def switch_vm_def sched_mid_def sched_step_def)
      (simp add: update_process_def)
qed

lemma schedule_mid:
  assumes "sched_mid s st R W K" "st (next_process R) \<noteq> PROC_UNUSED"
  shows "\<exists>s'. schedule c s = Inr ((), s') \<and> sched_step s s'
    \<and> sched_mid s' (st(next_process R := PROC_RUNNING)) (tl R) W K
    \<and> current_process s' = next_process R \<and> conts s' = (conts s)(current_process s := c)
    \<and> ttbr0 s' = V2P (p_page_map (process_table s (next_process R)))
    \<and> (\<forall>j. p_wait (process_table s' j) = p_wait (process_table s j))"
proof (cases R)
  case Nil
  then have e: "is_list_empty (ready_list s)"
    using assms(1) is_list_empty_repr [of "process_table s" "ready_list s" "[]"]
    by (simp add: sched_mid_def queues_ok_def)
  have "(0::nat) < NUM_PROC" by (simp add: NUM_PROC_def)
  from run_process_mid [OF assms(1) this, of c] assms(2) e Nil show ?thesis
    by (auto simp: schedule_def next_process_def)
next
  case (Cons x xs)
  then have e: "\<not> is_list_empty (ready_list s)"
    using assms(1) is_list_empty_repr [of "process_table s" "ready_list s" R]
    by (simp add: sched_mid_def queues_ok_def)
  obtain s1 where s1: "on_ready remove_list_head s = Inr (Item x, s1)" "sched_step s s1" "same_cpu s s1"
    "sched_mid s1 st xs W K" "\<And>j. p_wait (process_table s1 j) = p_wait (process_table s j)"
    using mid_remove_head assms(1) Cons by blast
  have "x < NUM_PROC" using assms(1) Cons by (simp add: sched_mid_def)
  from run_process_mid [OF s1(4) this, of c] obtain s2 where s2: "run_process x c s1 = Inr ((), s2)"
    "sched_step s1 s2" "sched_mid s2 (st(x := PROC_RUNNING)) xs W K" "current_process s2 = x"
    "conts s2 = (conts s1)(current_process s1 := c)" "ttbr0 s2 = V2P (p_page_map (process_table s1 x))"
    "\<And>j. p_wait (process_table s2 j) = p_wait (process_table s1 j)"
    using assms(2) Cons by (auto simp: next_process_def)
  with s1 e Cons sched_step_trans [OF s1(2) s2(2)] sched_step_fields(11) [OF s1(2)] show ?thesis
    by (simp add: schedule_def next_process_def same_cpu_def)
qed


section \<open>Waking up\<close>

lemma find_filter:
  assumes "find P xs = Some i" "distinct xs"
  shows "filter P xs = i # filter P (remove1 i xs)"
    "filter (\<lambda>x. \<not> P x) (remove1 i xs) = filter (\<lambda>x. \<not> P x) xs" "i \<in> set xs" "i \<notin> set (remove1 i xs)"
proof -
  obtain bs as where xs: "xs = bs @ i # as" "\<forall>b \<in> set bs. \<not> P b" "P i"
    using find_split [OF assms(1)] by blast
  then have "i \<notin> set bs" using assms(2) by auto
  then have "remove1 i xs = bs @ as" using xs(1) by (simp add: remove1_append)
  with xs assms(2) show "filter P xs = i # filter P (remove1 i xs)"
    "filter (\<lambda>x. \<not> P x) (remove1 i xs) = filter (\<lambda>x. \<not> P x) xs" "i \<in> set xs" "i \<notin> set (remove1 i xs)"
    by simp_all
qed

text \<open>The states after the processes of \<open>X\<close> have become ready.\<close>

definition made_ready :: "nat set \<Rightarrow> (nat \<Rightarrow> proc_state) \<Rightarrow> nat \<Rightarrow> proc_state" where
  "made_ready X st i = (if i \<in> X then PROC_READY else st i)"

lemma made_ready_label: "made_ready X (st(i := PROC_READY)) = made_ready (insert i X) st"
  by (auto simp: made_ready_def fun_eq_iff)

lemma made_ready_empty [simp]: "made_ready {} st = st"
  by (simp add: made_ready_def fun_eq_iff)

definition waits_for :: "i32 \<Rightarrow> kernel \<Rightarrow> nat \<Rightarrow> bool" where
  "waits_for v s i \<longleftrightarrow> p_wait (process_table s i) = v"

lemma wake_up_loop_mid:
  assumes "sched_mid s st R W K" "i \<notin> set (R @ W @ K)" "0 < i" "i < NUM_PROC" "st i \<noteq> PROC_UNUSED"
    "\<forall>j \<in> set W. st j \<noteq> PROC_UNUSED"
  shows "\<exists>s'. wake_up_loop v (Item i) s = Some (Inr ((), s')) \<and> sched_step s s' \<and> same_cpu s s'
    \<and> sched_mid s' (made_ready (insert i (set (filter (waits_for v s) W))) st) (R @ i # filter (waits_for v s) W)
        (filter (\<lambda>j. \<not> waits_for v s j) W) K
    \<and> (\<forall>j. p_wait (process_table s' j) = p_wait (process_table s j))"
  using assms
proof (induction "length W" arbitrary: s st R W i)
  case (0 W s st R i)
  have W: "W = []" using 0 by simp
  let ?s1 = "update_process i (\<lambda>p. p\<lparr>p_state := PROC_READY\<rparr>) s"
  have m1: "sched_mid ?s1 (st(i := PROC_READY)) R W K" using 0 by (intro mid_label(1)) simp_all
  obtain s2 where s2: "on_ready (append_list_tail i) ?s1 = Inr ((), s2)" "sched_step ?s1 s2" "same_cpu ?s1 s2"
    "sched_mid s2 (st(i := PROC_READY)) (R @ [i]) W K"
    "\<And>j. p_wait (process_table s2 j) = p_wait (process_table ?s1 j)"
    using mid_append_ready [OF m1 0(3,4,5)] by blast
  obtain s3 where s3: "on_wait (remove_list v) s2 = Inr (Null, s3)" "sched_step s2 s3" "same_cpu s2 s3"
    "sched_mid s3 (st(i := PROC_READY)) (R @ [i]) W K"
    "\<And>j. p_wait (process_table s3 j) = p_wait (process_table s2 j)"
    using mid_remove_wait [OF s2(4), of v] W by auto
  have "same_cpu s ?s1" by (simp add: same_cpu_def update_process_def)
  have "p_wait (process_table s3 j) = p_wait (process_table s j)" for j
    using s2(5) s3(5) by (simp add: update_process_def)
  moreover have "same_cpu s s3" using \<open>same_cpu s ?s1\<close> s2(3) s3(3) same_cpu_trans by blast
  moreover have "sched_step s s3"
    using sched_step_trans [OF sched_step_trans [OF sched_step_label(1) s2(2)] s3(2)] .
  moreover have "wake_up_loop v (Item i) s = Some (Inr ((), s3))"
    using s2(1) s3(1) by (subst wake_up_loop.simps) (simp, subst wake_up_loop.simps, simp)
  moreover have "sched_mid s3 (made_ready (insert i (set (filter (waits_for v s) W))) st) (R @ i # filter (waits_for v s) W)
      (filter (\<lambda>j. \<not> waits_for v s j) W) K"
    using s3(4) W by (auto simp: made_ready_def elim: sched_mid_cong)
  ultimately show ?case by blast
next
  case (Suc n W s st R i)
  let ?s1 = "update_process i (\<lambda>p. p\<lparr>p_state := PROC_READY\<rparr>) s" and ?st = "st(i := PROC_READY)"
  have m1: "sched_mid ?s1 ?st R W K" using Suc.prems by (intro mid_label(1)) simp_all
  have w1: "p_wait (process_table ?s1 j) = p_wait (process_table s j)" for j by (simp add: update_process_def)
  obtain s2 where s2: "on_ready (append_list_tail i) ?s1 = Inr ((), s2)" "sched_step ?s1 s2" "same_cpu ?s1 s2"
    "sched_mid s2 ?st (R @ [i]) W K" "\<And>j. p_wait (process_table s2 j) = p_wait (process_table s j)"
    using mid_append_ready [OF m1 Suc.prems(2-4)] w1 by auto
  have P2: "waits_for v s2 = waits_for v s" using s2(5) by (simp add: waits_for_def fun_eq_iff)
  obtain s3 where s3: "on_wait (remove_list v) s2 = Inr (case find (waits_for v s) W of None \<Rightarrow> Null | Some j \<Rightarrow> Item j, s3)"
    "sched_step s2 s3" "same_cpu s2 s3"
    "sched_mid s3 ?st (R @ [i]) (case find (waits_for v s) W of None \<Rightarrow> W | Some j \<Rightarrow> remove1 j W) K"
    "\<And>j. p_wait (process_table s3 j) = p_wait (process_table s j)"
    using mid_remove_wait [OF s2(4), of v] s2(5) P2 unfolding waits_for_def [abs_def] by auto
  have "same_cpu s ?s1" by (simp add: same_cpu_def update_process_def)
  then have c: "same_cpu s s3" using s2(3) s3(3) same_cpu_trans by blast
  have st: "sched_step s s3"
    using sched_step_trans [OF sched_step_trans [OF sched_step_label(1) s2(2)] s3(2)] .
  have dW: "distinct W" using Suc.prems(1) by (simp add: sched_mid_def queues_ok_def)
  show ?case
  proof (cases "find (waits_for v s) W")
    case None
    then have "\<forall>j \<in> set W. \<not> waits_for v s j" by (simp add: find_None_iff)
    then have f: "filter (waits_for v s) W = []" "filter (\<lambda>j. \<not> waits_for v s j) W = W" by (simp_all add: filter_empty_conv)
    have "wake_up_loop v (Item i) s = Some (Inr ((), s3))"
      using s2(1) s3(1) None by (subst wake_up_loop.simps) (simp, subst wake_up_loop.simps, simp)
    moreover have "sched_mid s3 (made_ready (insert i (set (filter (waits_for v s) W))) st) (R @ i # filter (waits_for v s) W)
        (filter (\<lambda>j. \<not> waits_for v s j) W) K"
      using s3(4) None f by (auto simp: made_ready_def elim: sched_mid_cong)
    ultimately show ?thesis using c st s3(5) by blast
  next
    case (Some j)
    note f = find_filter [OF Some dW]
    have m3: "sched_mid s3 ?st (R @ [i]) (remove1 j W) K" using s3(4) Some by simp
    have len: "n = length (remove1 j W)" using Suc.hyps(2) f(3) by (simp add: length_remove1)
    have j: "j \<notin> set ((R @ [i]) @ remove1 j W @ K)" "0 < j" "j < NUM_PROC"
      using Suc.prems f(3,4) by (auto simp: sched_mid_def queues_ok_def)
    have "?st j \<noteq> PROC_UNUSED" "\<forall>k \<in> set (remove1 j W). ?st k \<noteq> PROC_UNUSED"
      using Suc.prems(6) f(3) set_remove1_subset [of j W] by auto
    from Suc.hyps(1) [OF len m3 j this] obtain s' where s': "wake_up_loop v (Item j) s3 = Some (Inr ((), s'))"
      "sched_step s3 s'" "same_cpu s3 s'"
      "sched_mid s' (made_ready (insert j (set (filter (waits_for v s3) (remove1 j W)))) ?st)
        ((R @ [i]) @ j # filter (waits_for v s3) (remove1 j W)) (filter (\<lambda>k. \<not> waits_for v s3 k) (remove1 j W)) K"
      "\<And>k. p_wait (process_table s' k) = p_wait (process_table s3 k)" by blast
    have P3: "waits_for v s3 = waits_for v s" using s3(5) by (simp add: waits_for_def fun_eq_iff)
    have "sched_mid s' (made_ready (insert i (set (filter (waits_for v s) W))) st) (R @ i # filter (waits_for v s) W)
        (filter (\<lambda>j. \<not> waits_for v s j) W) K"
      using s'(4) unfolding P3 by (simp add: f(1,2) made_ready_label insert_commute)
    moreover have "wake_up_loop v (Item i) s = Some (Inr ((), s'))"
      using s2(1) s3(1) Some s'(1) by (subst wake_up_loop.simps) simp
    ultimately show ?thesis
      using sched_step_trans [OF st s'(2)] same_cpu_trans [OF c s'(3)] s'(5) s3(5) by auto
  qed
qed

end
