(* ===== verification/Rounds.thy ===== *)
theory Rounds
  imports Sched
begin

text \<open>
  What the scheduling operations of process.c do to the three queues: \<open>yield\<close> serves the ready queue
  round robin, \<open>sleep\<close> and \<open>wake_up\<close> move processes between the queues by their wait value, and \<open>exit\<close>
  leaves a killed process for \<open>wait\<close>. Each keeps the scheduler invariant.
\<close>

lemma wake_up_mid:
  assumes "sched_mid s st R W K" "\<forall>j \<in> set W. st j \<noteq> PROC_UNUSED"
  shows "\<exists>s'. wake_up v s = Inr ((), s') \<and> sched_step s s' \<and> same_cpu s s'
    \<and> sched_mid s' (made_ready (set (filter (waits_for v s) W)) st) (R @ filter (waits_for v s) W)
        (filter (\<lambda>j. \<not> waits_for v s j) W) K
    \<and> (\<forall>j. p_wait (process_table s' j) = p_wait (process_table s j))"
proof -
  have dW: "distinct W" using assms(1) by (simp add: sched_mid_def queues_ok_def)
  obtain s1 where s1: "on_wait (remove_list v) s = Inr (case find (waits_for v s) W of None \<Rightarrow> Null | Some j \<Rightarrow> Item j, s1)"
    "sched_step s s1" "same_cpu s s1"
    "sched_mid s1 st R (case find (waits_for v s) W of None \<Rightarrow> W | Some j \<Rightarrow> remove1 j W) K"
    "\<And>j. p_wait (process_table s1 j) = p_wait (process_table s j)"
    using mid_remove_wait [OF assms(1), of v] unfolding waits_for_def [abs_def] by auto
  show ?thesis
  proof (cases "find (waits_for v s) W")
    case None
    then have "\<forall>j \<in> set W. \<not> waits_for v s j" by (simp add: find_None_iff)
    then have f: "filter (waits_for v s) W = []" "filter (\<lambda>j. \<not> waits_for v s j) W = W"
      by (simp_all add: filter_empty_conv)
    have "wake_up v s = Inr ((), s1)" using s1(1) None by (simp add: wake_up_def wake_up_loop.simps)
    with s1 None show ?thesis by (simp add: f del: set_filter)
  next
    case (Some j)
    note f = find_filter [OF Some dW]
    have m: "sched_mid s1 st R (remove1 j W) K" using s1(4) Some by simp
    have j: "j \<notin> set (R @ remove1 j W @ K)" "0 < j" "j < NUM_PROC" "st j \<noteq> PROC_UNUSED"
      using assms f(3,4) by (auto simp: sched_mid_def queues_ok_def)
    have "\<forall>k \<in> set (remove1 j W). st k \<noteq> PROC_UNUSED"
      using assms(2) set_remove1_subset [of j W] by auto
    from wake_up_loop_mid [OF m j this, of v] obtain s' where s': "wake_up_loop v (Item j) s1 = Some (Inr ((), s'))"
      "sched_step s1 s'" "same_cpu s1 s'"
      "sched_mid s' (made_ready (insert j (set (filter (waits_for v s1) (remove1 j W)))) st)
        (R @ j # filter (waits_for v s1) (remove1 j W)) (filter (\<lambda>k. \<not> waits_for v s1 k) (remove1 j W)) K"
      "\<And>k. p_wait (process_table s' k) = p_wait (process_table s1 k)" by blast
    have "waits_for v s1 = waits_for v s" using s1(5) by (simp add: waits_for_def fun_eq_iff)
    with s'(4) have "sched_mid s' (made_ready (set (filter (waits_for v s) W)) st) (R @ filter (waits_for v s) W)
        (filter (\<lambda>j. \<not> waits_for v s j) W) K" by (simp add: f(1,2))
    moreover have "wake_up v s = Inr ((), s')" using s1(1) Some s'(1) by (simp add: wake_up_def)
    ultimately show ?thesis
      using sched_step_trans [OF s1(2) s'(2)] same_cpu_trans [OF s1(3) s'(3)] s'(5) s1(5) by auto
  qed
qed

lemma inv_wake_up:
  assumes "sched_inv s R W K"
  shows "\<exists>s'. wake_up v s = Inr ((), s') \<and> sched_step s s' \<and> same_cpu s s'
    \<and> sched_inv s' (R @ filter (waits_for v s) W) (filter (\<lambda>j. \<not> waits_for v s j) W) K
    \<and> (\<forall>j. p_wait (process_table s' j) = p_wait (process_table s j))"
proof -
  let ?c = "current_process s" let ?st = "state_of ?c R W K"
  have m: "sched_mid s ?st R W K" and c: "?c < NUM_PROC" "?c \<notin> set (R @ W @ K)"
    using assms by (simp_all add: sched_inv_mid)
  have d: "set R \<inter> set W = {}" "set W \<inter> set K = {}" using m by (auto simp: sched_mid_def queues_ok_def)
  have "\<forall>j \<in> set W. ?st j \<noteq> PROC_UNUSED" by (auto simp: state_of_def)
  from wake_up_mid [OF m this, of v] obtain s' where s': "wake_up v s = Inr ((), s')" "sched_step s s'"
    "same_cpu s s'" "sched_mid s' (made_ready (set (filter (waits_for v s) W)) ?st) (R @ filter (waits_for v s) W)
        (filter (\<lambda>j. \<not> waits_for v s j) W) K"
    "\<And>j. p_wait (process_table s' j) = p_wait (process_table s j)" by blast
  have "sched_mid s' (state_of ?c (R @ filter (waits_for v s) W) (filter (\<lambda>j. \<not> waits_for v s j) W) K)
      (R @ filter (waits_for v s) W) (filter (\<lambda>j. \<not> waits_for v s j) W) K"
    using c(2) d by (intro sched_mid_cong [OF s'(4)]) (auto simp: made_ready_def state_of_def)
  with s' c show ?thesis by (auto simp: sched_inv_mid same_cpu_def)
qed

section \<open>Giving up the processor\<close>

text \<open>The state after the running process has given way to the next one on the ready queue.\<close>

definition switched :: "cont \<Rightarrow> kernel \<Rightarrow> nat list \<Rightarrow> kernel \<Rightarrow> bool" where
  "switched c s R s' \<longleftrightarrow> sched_step s s' \<and> current_process s' = next_process R
     \<and> conts s' = (conts s)(current_process s := c)
     \<and> ttbr0 s' = V2P (p_page_map (process_table s (next_process R)))"

lemma inv_switched:
  assumes "sched_mid s st R W K" "same_cpu s0 s" "sched_step s0 s" "schedule c s = Inr ((), s')"
    "\<forall>i < NUM_PROC. i \<noteq> next_process R \<longrightarrow> st i = state_of (next_process R) (tl R) W K i"
    "st (next_process R) \<noteq> PROC_UNUSED"
  shows "switched c s0 R s' \<and> sched_inv s' (tl R) W K
    \<and> (\<forall>j. p_wait (process_table s' j) = p_wait (process_table s j))"
proof -
  obtain s1 where s1: "schedule c s = Inr ((), s1)" "sched_step s s1"
    "sched_mid s1 (st(next_process R := PROC_RUNNING)) (tl R) W K" "current_process s1 = next_process R"
    "conts s1 = (conts s)(current_process s := c)"
    "ttbr0 s1 = V2P (p_page_map (process_table s (next_process R)))"
    "\<forall>j. p_wait (process_table s1 j) = p_wait (process_table s j)"
    using schedule_mid [OF assms(1,6), of c] by blast
  with assms(4) have s': "s' = s1" by simp
  have n: "next_process R < NUM_PROC" "next_process R \<notin> set (tl R @ W @ K)"
    using assms(1) by (cases R; auto simp: sched_mid_def queues_ok_def NUM_PROC_def next_process_def)+
  have "sched_mid s1 (state_of (next_process R) (tl R) W K) (tl R) W K"
    using assms(5) by (intro sched_mid_cong [OF s1(3)]) (auto simp: state_of_def)
  with s1 s' n sched_step_trans [OF assms(3) s1(2)] assms(2) sched_step_fields(11) [OF assms(3)] show ?thesis
    by (simp add: switched_def sched_inv_mid same_cpu_def)
qed

lemma inv_yield:
  assumes "sched_inv s R W K"
  shows "R = [] \<Longrightarrow> yield s = Inr (Done (), s)"
    and "R \<noteq> [] \<Longrightarrow> \<exists>s'. yield s = Inr (Switched, s') \<and> switched To_user s R s'
      \<and> sched_inv s' (tl R @ (if current_process s = 0 then [] else [current_process s])) W K
      \<and> (\<forall>j. p_wait (process_table s' j) = p_wait (process_table s j))"
proof -
  let ?c = "current_process s" let ?st = "state_of ?c R W K"
  have m: "sched_mid s ?st R W K" and c: "?c < NUM_PROC" "?c \<notin> set (R @ W @ K)"
    using assms by (simp_all add: sched_inv_mid)
  have e: "is_list_empty (ready_list s) \<longleftrightarrow> R = []"
    using is_list_empty_repr m by (auto simp: sched_mid_def queues_ok_def)
  show "R = [] \<Longrightarrow> yield s = Inr (Done (), s)" using e by (simp add: yield_def)
  assume R: "R \<noteq> []"
  let ?s1 = "update_process ?c (\<lambda>p. p\<lparr>p_state := PROC_READY\<rparr>) s" and ?st1 = "?st(?c := PROC_READY)"
  let ?R = "R @ (if ?c = 0 then [] else [?c])"
  have m1: "sched_mid ?s1 ?st1 R W K" using m c by (intro mid_label(1)) (simp_all add: state_of_def)
  have pid: "p_pid (process_table ?s1 ?c) = 0 \<longleftrightarrow> ?c = 0"
    using m c(1) by (simp add: sched_mid_def state_of_def update_process_def)
  have cp: "same_cpu s ?s1" by (simp add: same_cpu_def update_process_def)
  obtain s2 where s2: "(if p_pid (process_table ?s1 ?c) \<noteq> 0 then on_ready (append_list_tail ?c) ?s1
      else Inr ((), ?s1)) = Inr ((), s2)" "sched_step ?s1 s2" "same_cpu ?s1 s2" "sched_mid s2 ?st1 ?R W K"
    "\<And>j. p_wait (process_table s2 j) = p_wait (process_table ?s1 j)"
  proof (cases "?c = 0")
    case True
    show ?thesis by (rule that [of ?s1]) (use m1 True pid in simp_all)
  next
    case False
    then obtain s2 where "on_ready (append_list_tail ?c) ?s1 = Inr ((), s2)" "sched_step ?s1 s2" "same_cpu ?s1 s2"
      "sched_mid s2 ?st1 (R @ [?c]) W K" "\<And>j. p_wait (process_table s2 j) = p_wait (process_table ?s1 j)" using mid_append_ready [OF m1 c(2) _ c(1)] by auto
    then show ?thesis by (intro that [of s2]) (use False pid in simp_all)
  qed
  have n: "next_process ?R = next_process R" "tl ?R = tl R @ (if ?c = 0 then [] else [?c])"
    using R by (simp_all add: next_process_def split: list.split)
  have x: "next_process R \<in> set R" using R by (simp add: next_process_def split: list.split)
  have "?st1 (next_process ?R) \<noteq> PROC_UNUSED" using x c by (auto simp: n state_of_def)
  from schedule_mid [OF s2(4) this, of To_user] obtain s3 where s3: "schedule To_user s2 = Inr ((), s3)" by blast
  have st: "\<forall>i < NUM_PROC. i \<noteq> next_process ?R \<longrightarrow> ?st1 i = state_of (next_process ?R) (tl ?R) W K i"
  proof (intro allI impI)
    fix i assume i: "i < NUM_PROC" "i \<noteq> next_process ?R"
    have "i \<in> set R \<longleftrightarrow> i \<in> set (tl R)" using i(2) R n by (cases R) (simp_all add: next_process_def)
    with i c R show "?st1 i = state_of (next_process ?R) (tl ?R) W K i"
      unfolding n by (auto simp: state_of_def)
  qed
  have "switched To_user s ?R s3 \<and> sched_inv s3 (tl ?R) W K
      \<and> (\<forall>j. p_wait (process_table s3 j) = p_wait (process_table s2 j))"
    by (rule inv_switched [OF s2(4) same_cpu_trans [OF cp s2(3)] sched_step_trans [OF sched_step_label(1) s2(2)] s3 st
        \<open>?st1 (next_process ?R) \<noteq> PROC_UNUSED\<close>])
  moreover have "p_wait (process_table ?s1 j) = p_wait (process_table s j)" for j by (simp add: update_process_def)
  moreover have "yield s = Inr (Switched, s3)"
    using e R s2(1) s3 by (simp add: yield_def Let_def)
  ultimately show "\<exists>s'. yield s = Inr (Switched, s') \<and> switched To_user s R s'
      \<and> sched_inv s' (tl R @ (if ?c = 0 then [] else [?c])) W K
      \<and> (\<forall>j. p_wait (process_table s' j) = p_wait (process_table s j))"
    using s2(5) by (auto simp: switched_def n)
qed


lemma state_of_other:
  assumes "sched_inv s R W K" "i \<noteq> next_process R"
  shows "i \<in> set R \<longleftrightarrow> i \<in> set (tl R)"
  using assms(2) by (cases R) (simp_all add: next_process_def)

text \<open>\<open>sleep\<close> and \<open>exit\<close>, by a process other than the idle one.\<close>

lemma inv_sleep:
  assumes "sched_inv s R W K" "current_process s \<noteq> 0"
  shows "\<exists>s'. sleep v c s = Inr ((), s') \<and> switched c s R s' \<and> sched_inv s' (tl R) (W @ [current_process s]) K
    \<and> (\<forall>j. p_wait (process_table s' j) = (if j = current_process s then v else p_wait (process_table s j)))"
proof -
  let ?c = "current_process s" let ?st = "state_of ?c R W K"
  have m: "sched_mid s ?st R W K" and c: "?c < NUM_PROC" "?c \<notin> set (R @ W @ K)"
    using assms by (simp_all add: sched_inv_mid)
  let ?s1 = "update_process ?c (\<lambda>p. p\<lparr>p_state := PROC_SLEEP, p_wait := v\<rparr>) s" and ?st1 = "?st(?c := PROC_SLEEP)"
  have m1: "sched_mid ?s1 ?st1 R W K" using m c by (intro mid_label(2)) (simp_all add: state_of_def)
  have cp: "same_cpu s ?s1" by (simp add: same_cpu_def update_process_def)
  obtain s2 where s2: "on_wait (append_list_tail ?c) ?s1 = Inr ((), s2)" "sched_step ?s1 s2" "same_cpu ?s1 s2"
    "sched_mid s2 ?st1 R (W @ [?c]) K" "\<And>j. p_wait (process_table s2 j) = p_wait (process_table ?s1 j)" using mid_append_wait [OF m1 c(2) _ c(1)] assms(2) by auto
  have n: "next_process R \<noteq> ?c" using c(2) assms(2) by (auto simp: next_process_def split: list.split)
  then have u: "?st1 (next_process R) \<noteq> PROC_UNUSED"
    by (cases R) (auto simp: state_of_def next_process_def)
  from schedule_mid [OF s2(4) this, of c] obtain s3 where s3: "schedule c s2 = Inr ((), s3)" by blast
  have "\<forall>i < NUM_PROC. i \<noteq> next_process R \<longrightarrow> ?st1 i = state_of (next_process R) (tl R) (W @ [?c]) K i"
    using state_of_other [OF assms(1)] c n by (auto simp: state_of_def dest: list.set_sel(2))
  from inv_switched [OF s2(4) same_cpu_trans [OF cp s2(3)] sched_step_trans [OF sched_step_label(2) s2(2)] s3 this u]
  show ?thesis using s2(1,5) s3 by (auto simp: sleep_def Let_def update_process_def)
qed

lemma inv_exit:
  assumes "sched_inv s R W K" "current_process s \<noteq> 0"
  defines "R' \<equiv> R @ filter (waits_for (- 3) s) W" and "W' \<equiv> filter (\<lambda>j. \<not> waits_for (- 3) s j) W"
  shows "\<exists>s'. exit s = Inr ((), s') \<and> switched Exited s R' s'
    \<and> sched_inv s' (tl R') W' (K @ [current_process s])
    \<and> (\<forall>j. p_wait (process_table s' j)
          = (if j = current_process s then p_pid (process_table s j) else p_wait (process_table s j)))"
proof -
  let ?c = "current_process s" let ?st = "state_of ?c R W K" let ?K = "K @ [?c]"
  have m: "sched_mid s ?st R W K" and c: "?c < NUM_PROC" "?c \<notin> set (R @ W @ K)"
    using assms by (simp_all add: sched_inv_mid)
  let ?s1 = "update_process ?c (\<lambda>p. p\<lparr>p_state := PROC_KILLED, p_wait := p_pid p\<rparr>) s"
  let ?st1 = "?st(?c := PROC_KILLED)"
  have m1: "sched_mid ?s1 ?st1 R W K" using m c by (intro mid_label(2)) (simp_all add: state_of_def)
  have cp: "same_cpu s ?s1" by (simp add: same_cpu_def update_process_def)
  obtain s2 where s2: "on_kill (append_list_tail ?c) ?s1 = Inr ((), s2)" "sched_step ?s1 s2" "same_cpu ?s1 s2"
    "sched_mid s2 ?st1 R W ?K" "\<And>j. p_wait (process_table s2 j) = p_wait (process_table ?s1 j)"
    using mid_append_kill [OF m1 c(2) _ c(1)] assms(2) by auto
  have "\<forall>j \<in> set W. waits_for (- 3) s2 j = waits_for (- 3) s j"
    using c(2) by (auto simp: waits_for_def s2(5) update_process_def)
  then have f: "filter (waits_for (- 3) s2) W = filter (waits_for (- 3) s) W"
    "filter (\<lambda>j. \<not> waits_for (- 3) s2 j) W = filter (\<lambda>j. \<not> waits_for (- 3) s j) W"
    by (auto cong: filter_cong)
  have "\<forall>j \<in> set W. ?st1 j \<noteq> PROC_UNUSED" by (auto simp: state_of_def)
  from wake_up_mid [OF s2(4) this, of "- 3"] obtain s3 where s3: "wake_up (- 3) s2 = Inr ((), s3)" "sched_step s2 s3"
    "same_cpu s2 s3" "sched_mid s3 (made_ready (set (filter (waits_for (- 3) s) W)) ?st1) R' W' ?K"
    "\<And>j. p_wait (process_table s3 j) = p_wait (process_table s2 j)"
    unfolding f R'_def W'_def by blast
  define st3 where "st3 = made_ready (set (filter (waits_for (- 3) s) W)) ?st1"
  have m3: "sched_mid s3 st3 R' W' ?K" using s3(4) by (simp add: st3_def)
  have cp3: "same_cpu s s3" using cp s2(3) s3(3) same_cpu_trans by blast
  have step3: "sched_step s s3" using sched_step_trans [OF sched_step_trans [OF sched_step_label(2) s2(2)] s3(2)] .
  have d: "set R' \<inter> set W' = {}" "set R' \<inter> set ?K = {}" "set W' \<inter> set ?K = {}" "distinct R'" "0 \<notin> set R'"
    using s3(4) by (auto simp: sched_mid_def queues_ok_def)
  have R': "set R' \<subseteq> set R \<union> set W" by (auto simp: R'_def)
  have st: "st3 i = (if i = ?c then PROC_KILLED else if i \<in> set R' then PROC_READY else if i \<in> set W' then PROC_SLEEP
     else if i \<in> set K then PROC_KILLED else if i = 0 then PROC_READY else PROC_UNUSED)" for i
    using c(2) m by (auto simp: st3_def made_ready_def state_of_def R'_def W'_def sched_mid_def queues_ok_def)
  have n: "next_process R' \<noteq> ?c"
    using c(2) assms(2) R' by (cases R') (auto simp: next_process_def)
  have u: "st3 (next_process R') \<noteq> PROC_UNUSED"
    by (cases R') (auto simp: st next_process_def)
  from schedule_mid [OF m3 this, of Exited] obtain s4 where s4: "schedule Exited s3 = Inr ((), s4)" by blast
  have o: "i \<in> set R' \<longleftrightarrow> i \<in> set (tl R')" if "i \<noteq> next_process R'" for i
    using that by (cases R') (simp_all add: next_process_def)
  have cR: "?c \<notin> set R'" "?c \<notin> set W'" using c(2) R' by (auto simp: W'_def)
  have "\<forall>i < NUM_PROC. i \<noteq> next_process R' \<longrightarrow> st3 i = state_of (next_process R') (tl R') W' ?K i"
    using o cR n by (auto simp: st state_of_def)
  from inv_switched [OF m3 cp3 step3 s4 this u]
  show ?thesis using s2(1,5) s3(1,5) s4 by (auto simp: exit_def Let_def update_process_def)
qed


section \<open>Properties\<close>

text \<open>For the examples: process 1 runs, 2 and 3 are ready, 4 waits for a killed process, 5 is killed.\<close>

definition sample_table :: proc_table where
  "sample_table i = blank_process\<lparr>p_next := (if i = 2 then Item 3 else Null),
     p_pid := of_nat i, p_wait := (if i = 4 then - 3 else of_nat i),
     p_page_map := 0xffff000000400000 + of_nat i * PAGE_SIZE, p_state := state_of 1 [2, 3] [4] [5] i\<rparr>"

definition sample_kernel :: kernel where
  "sample_kernel = \<lparr>mem = (\<lambda>_. 0), free_memory = 0, kernel_end = 0xffff000000200000, ttbr0 = 0,
     io_in = (\<lambda>_ _. 0), io_n = (\<lambda>_. 0), io_out = [], process_table = sample_table,
     fcb_page = 0, file_desc_page = 0, fcb_table = (\<lambda>_. zero_FCB), file_desc_table = (\<lambda>_. zero_FileDesc),
     current_process = 1, ready_list = \<lparr>l_next = Item 2, l_tail = Item 3\<rparr>,
     wait_list = \<lparr>l_next = Item 4, l_tail = Item 4\<rparr>, kill_list = \<lparr>l_next = Item 5, l_tail = Item 5\<rparr>,
     pid_num = 6, conts = (\<lambda>_. To_user), trap_return = 0, ticks = 0, timer_interval = 0,
     key_buffer = \<lparr>kb_buffer = (\<lambda>_. 0), kb_front = 0, kb_end = 0, kb_size = 500\<rparr>\<rparr>"

lemma sample_sched_inv: "sched_inv sample_kernel [2, 3] [4] [5]"
proof -
  have "(of_nat i :: i32) \<noteq> 0" if "0 < i" "i < 10" for i
    using that by (auto simp: word_of_nat_eq_0_iff dest: dvd_imp_le)
  then show ?thesis
    by (auto simp: sched_inv_def queues_ok_def queue_repr_def sample_kernel_def sample_table_def NUM_PROC_def
        state_of_def blank_process_def)
qed

text \<open>
  \<open>yield\<close> serves the processes round robin. With nobody ready it returns and changes
  nothing. Otherwise the first ready process runs next, in its own address space; the caller goes
  to the end of the ready queue, unless it is the idle process, and will go on where it left;
  memory, files and the other queues stay as they are.
\<close>

theorem yield_is_round_robin:
  assumes "sched_inv s R W K"
  shows "case R of
      [] \<Rightarrow> yield s = Inr (Done (), s)
    | x # xs \<Rightarrow> \<exists>s'. yield s = Inr (Switched, s') \<and> current_process s' = x
        \<and> sched_inv s' (xs @ (if current_process s = 0 then [] else [current_process s])) W K
        \<and> conts s' = (conts s)(current_process s := To_user)
        \<and> ttbr0 s' = V2P (p_page_map (process_table s x)) \<and> sched_step s s'"
  using inv_yield [OF assms] by (cases R) (auto simp: switched_def next_process_def)

lemma yield_is_round_robin_witness:
  "\<exists>s'. yield sample_kernel = Inr (Switched, s') \<and> current_process s' = 2 \<and> sched_inv s' [3, 1] [4] [5]"
  using yield_is_round_robin [OF sample_sched_inv] by (auto simp: sample_kernel_def)

text \<open>Repeated timer ticks: every process that is given the processor yields it again.\<close>

primrec yields :: "nat \<Rightarrow> kernel \<Rightarrow> (unit, kernel) outcome" where
  "yields 0 s = Inr ((), s)"
| "yields (Suc n) s = kbind (yield s) (\<lambda>_ s. yields n s)"

lemma yields_reach:
  assumes "sched_inv s R W K" "k < length R"
  shows "\<exists>s'. yields (Suc k) s = Inr ((), s') \<and> current_process s' = R ! k \<and> (\<exists>R'. sched_inv s' R' W K)"
  using assms
proof (induction k arbitrary: s R)
  case 0
  then obtain x xs where "R = x # xs" by (cases R) auto
  with inv_yield(2) [OF 0(1)] show ?case by (auto simp: switched_def next_process_def)
next
  case (Suc k)
  then obtain x xs where R: "R = x # xs" by (cases R) auto
  then obtain s1 where s1: "yield s = Inr (Switched, s1)"
    "sched_inv s1 (xs @ (if current_process s = 0 then [] else [current_process s])) W K"
    using inv_yield(2) [OF Suc.prems(1)] by auto
  have k: "k < length xs" using Suc.prems(2) R by simp
  then obtain s' where "yields (Suc k) s1 = Inr ((), s')" "current_process s' = xs ! k" "\<exists>R'. sched_inv s' R' W K"
    using Suc.IH [OF s1(2)] by (auto simp: nth_append)
  with s1(1) R show ?case by auto
qed

text \<open>
  Property C20: no ready process starves. Whatever its place in the ready queue, it runs after at most
  as many yields as the queue is long; none of them fails, and the waiting and the killed
  processes stay where they are.
\<close>

theorem yield_starves_nobody:
  assumes "sched_inv s R W K" "x \<in> set R"
  shows "\<exists>n s'. n \<le> length R \<and> yields n s = Inr ((), s') \<and> current_process s' = x
    \<and> p_state (process_table s' x) = PROC_RUNNING \<and> (\<exists>R'. sched_inv s' R' W K)"
proof -
  obtain k where k: "k < length R" "R ! k = x" using assms(2) by (auto simp: in_set_conv_nth)
  obtain s' where s': "yields (Suc k) s = Inr ((), s')" "current_process s' = x" "\<exists>R'. sched_inv s' R' W K"
    using yields_reach [OF assms(1) k(1)] k(2) by auto
  then have "p_state (process_table s' x) = PROC_RUNNING" by (auto simp: sched_inv_def state_of_def)
  with s' k(1) show ?thesis by (intro exI [of _ "Suc k"] exI [of _ s']) simp
qed

lemma yield_starves_nobody_witness:
  "\<exists>n s'. n \<le> 2 \<and> yields n sample_kernel = Inr ((), s') \<and> current_process s' = 3"
  using yield_starves_nobody [OF sample_sched_inv, of 3] by (fastforce simp: numeral_2_eq_2)

text \<open>
  Property C21: \<open>sleep v\<close> puts the caller at the end of the wait queue under the key \<open>v\<close> and hands the
  processor on; \<open>wake_up v\<close> moves exactly the processes waiting under \<open>v\<close>, in the order in which they
  went to sleep, to the end of the ready queue, and nothing else.
\<close>

theorem sleep_and_wake_up:
  assumes "sched_inv s R W K"
  shows "(current_process s \<noteq> 0 \<longrightarrow> (\<exists>s'. sleep v c s = Inr ((), s') \<and> current_process s' = next_process R
      \<and> conts s' = (conts s)(current_process s := c) \<and> waits_for v s' (current_process s)
      \<and> sched_inv s' (tl R) (W @ [current_process s]) K \<and> sched_step s s'))
    \<and> (\<exists>s'. wake_up v s = Inr ((), s') \<and> current_process s' = current_process s \<and> conts s' = conts s
      \<and> ttbr0 s' = ttbr0 s \<and> sched_inv s' (R @ filter (waits_for v s) W) (filter (\<lambda>j. \<not> waits_for v s j) W) K
      \<and> sched_step s s')"
  using inv_sleep [OF assms, of v c] inv_wake_up [OF assms, of v]
  by (auto simp: switched_def same_cpu_def waits_for_def)

lemma sleep_and_wake_up_witness:
  "(\<exists>s'. sleep (- 2) (Key_read 0) sample_kernel = Inr ((), s') \<and> sched_inv s' [3] [4, 1] [5])
   \<and> (\<exists>s'. wake_up (- 3) sample_kernel = Inr ((), s') \<and> sched_inv s' [2, 3, 4] [] [5])"
proof -
  have "waits_for (- 3) sample_kernel 4" "current_process sample_kernel = 1"
    by (simp_all add: waits_for_def sample_kernel_def sample_table_def)
  then show ?thesis
    using sleep_and_wake_up [OF sample_sched_inv, of "- 2" "Key_read 0"]
      sleep_and_wake_up [OF sample_sched_inv, of "- 3"] by auto
qed

end
