(* ===== verification/Spaces.thy ===== *)
theory Spaces
  imports Uvm
begin

text \<open>
  The memory of a process: its stack page, its page tables and the page mapped at 0x400000
  (\<open>space_ok\<close>), what keeps it intact while others are changed, and how \<open>setup_uvm\<close> and
  \<open>copy_uvm\<close> (utils/memory.c) fill it or give every page back.
\<close>

section \<open>Pages that a change leaves alone\<close>

definition same_page :: "memory \<Rightarrow> memory \<Rightarrow> u64 \<Rightarrow> bool" where
  "same_page m m' p \<longleftrightarrow> (\<forall>x. in_range p 2097152 x \<longrightarrow> m' x = m x)"

lemma same_page_refl [simp]: "same_page m m p"
  by (simp add: same_page_def)

lemma same_page_trans: "same_page m m' p \<Longrightarrow> same_page m' m'' p \<Longrightarrow> same_page m m'' p"
  by (simp add: same_page_def)

lemma not_in_other_page:
  assumes "page_ok e p" "page_ok e q" "p \<noteq> q" "in_range p 2097152 x"
  shows "\<not> in_range q 2097152 x"
  using apart_neq [OF pages_apart [OF assms(1-3)]] assms(4) by (auto simp: in_range_add)

lemma within_page:
  assumes "heap_within U s s'" "page_ok e p" "\<forall>q \<in> U. page_ok e q" "p \<notin> U"
  shows "same_page (mem s) (mem s') p"
proof -
  have "\<not> in_range q 2097152 x" if "in_range p 2097152 x" "q \<in> U" for x q
    using not_in_other_page [OF assms(2) _ _ that(1), of q] assms(3,4) that(2) by blast
  then show ?thesis using heap_withinD(2) [OF assms(1)] by (auto simp: same_page_def)
qed

lemma page_below_volume:
  assumes "page_ok e p" "FS_BASE \<le> x"
  shows "\<not> in_range p 2097152 x"
  using page_ok_bounds(2) [OF assms(1)] assms(2) by (subst in_range_iff) (simp_all add: word_le_nat_alt)

lemma within_image:
  assumes "heap_within U s s'" "\<forall>q \<in> U. page_ok e q"
  shows "image_eq (mem s) (mem s')"
  unfolding image_eq_def using page_below_volume assms(2)
  by (intro allI impI heap_withinD(2) [OF assms(1)]) blast

lemma entry_page: "same_page m m' p \<Longrightarrow> i < 512 \<Longrightarrow> entry m' p i = entry m p i"
  unfolding entry_def same_page_def using in_page_entry by (intro rd_cong) blast

lemma ld64_page: "same_page m m' p \<Longrightarrow> ld64 m' p = ld64 m p"
  using entry_page [of m m' p 0] by (simp add: ld64_entry)

lemma heap_inv_pages:
  assumes "heap_inv s ps" "\<forall>p \<in> set ps. same_page (mem s) m p"
  shows "heap_inv (s\<lparr>mem := m\<rparr>) ps"
  using assms by (intro heap_inv_mem) (auto simp: ld64_page)

section \<open>The space of a process\<close>

definition user_page :: "memory \<Rightarrow> table_map \<Rightarrow> u64" where
  "user_page m T = mapped_page (leaf m T 0x400000)"

definition user_block :: "memory \<Rightarrow> table_map \<Rightarrow> bool" where
  "user_block m T \<longleftrightarrow> leaf m T 0x400000 = V2P (user_page m T) OR user_attributes OR BLOCK_ENTRY"

text \<open>\<open>addr_space m e pgd T\<close>: tables rooted at \<open>pgd\<close> that map exactly one page of their own at 0x400000, for the program to use.\<close>

definition addr_space :: "memory \<Rightarrow> u64 \<Rightarrow> u64 \<Rightarrow> table_map \<Rightarrow> bool" where
  "addr_space m e pgd T \<longleftrightarrow> tables m e T \<and> T Pgd = Some pgd \<and> dom T \<subseteq> table_path 0x400000 \<and> bit (leaf m T 0x400000) 0
     \<and> (\<forall>v. bit (leaf m T v) 0 \<longrightarrow> same_slot 0x400000 v) \<and> page_ok e (user_page m T) \<and> user_page m T \<notin> ran T
     \<and> user_block m T"

definition space_pages :: "memory \<Rightarrow> table_map \<Rightarrow> u64 set" where
  "space_pages m T = insert (user_page m T) (ran T)"

lemma leaf_page:
  assumes "\<And>t p. T t = Some p \<Longrightarrow> same_page m m' p"
  shows "leaf m' T v = leaf m T v"
  using assms entry_page by (auto simp: leaf_def split: option.split)

lemma tables_page:
  assumes "tables m e T" "\<And>t p. T t = Some p \<Longrightarrow> same_page m m' p"
  shows "tables m' e T"
  using assms(2) entry_page by (intro tables_cong [OF assms(1)]) blast

lemma addr_space_page:
  assumes "addr_space m e pgd T" "\<forall>p \<in> ran T. same_page m m' p"
  shows "addr_space m' e pgd T" "user_page m' T = user_page m T" "space_pages m' T = space_pages m T"
proof -
  have same: "same_page m m' p" if "T t = Some p" for t p using assms(2) that by (auto simp: ran_def)
  have lf: "leaf m' T v = leaf m T v" for v by (rule leaf_page) (rule same)
  then show u: "user_page m' T = user_page m T" by (simp add: user_page_def)
  then show "space_pages m' T = space_pages m T" by (simp add: space_pages_def)
  have "tables m e T" using assms(1) by (simp add: addr_space_def)
  then have "tables m' e T" by (rule tables_page) (rule same)
  moreover have "user_block m T \<Longrightarrow> user_block m' T" by (simp add: user_block_def lf u)
  ultimately show "addr_space m' e pgd T" using assms(1) lf u by (simp add: addr_space_def)
qed

lemma space_pages_ok:
  assumes "addr_space m e pgd T" "p \<in> space_pages m T"
  shows "page_ok e p"
proof (cases "p = user_page m T")
  case True
  with assms(1) show ?thesis by (simp add: addr_space_def)
next
  case False
  with assms(2) obtain t where "T t = Some p" by (auto simp: space_pages_def ran_def)
  with assms(1) tablesD(2) [of m e T t p] show ?thesis by (simp add: addr_space_def)
qed

text \<open>Three tables and the page itself.\<close>

lemma space_pages_card:
  assumes "addr_space m e pgd T"
  shows "finite (space_pages m T)" "card (space_pages m T) = 4"
proof -
  have T: "tables m e T" "dom T \<subseteq> table_path 0x400000" "bit (leaf m T 0x400000) 0" "user_page m T \<notin> ran T"
    using assms by (simp_all add: addr_space_def)
  have "T (pmd_of 0x400000) \<noteq> None" using T(3) by (auto simp: leaf_def split: option.splits)
  moreover from this have "T (parent (pmd_of 0x400000)) \<noteq> None" using tablesD(4) [OF T(1), of "pmd_of 0x400000"] by auto
  ultimately have d: "dom T = table_path 0x400000" using T(2) assms by (auto simp: table_path_def addr_space_def)
  have "inj_on (\<lambda>t. the (T t)) (dom T)" using tablesD(1) [OF T(1)] by (auto simp: inj_on_def)
  moreover have r: "ran T = (\<lambda>t. the (T t)) ` dom T" by (force simp: ran_def dom_def)
  ultimately have "card (ran T) = card (dom T)" by (simp add: card_image)
  moreover have "card (dom T) = 3" unfolding d by (simp add: table_path_def)
  moreover have "finite (ran T)" unfolding r d by (simp add: table_path_def)
  ultimately show "finite (space_pages m T)" "card (space_pages m T) = 4" using T(4) by (simp_all add: space_pages_def)
qed

lemma pgd_in_space: "addr_space m e pgd T \<Longrightarrow> pgd \<in> space_pages m T"
  by (auto simp: addr_space_def space_pages_def ran_def)

lemma heap_pages_ok: "heap_inv s ps \<Longrightarrow> p \<in> set ps \<Longrightarrow> page_ok (kernel_end s) p"
  by (simp add: heap_inv_def)

text \<open>Taking an address space down gives back what it consists of.\<close>

lemma free_vm_space:
  assumes "heap_inv s ps" "addr_space (mem s) (kernel_end s) pgd T" "space_pages (mem s) T \<inter> set ps = {}"
  shows "\<exists>s' ps'. free_vm pgd s = Inr ((), s') \<and> heap_inv s' ps' \<and> set ps' = set ps \<union> space_pages (mem s) T
     \<and> heap_within (set ps \<union> space_pages (mem s) T) s s'"
proof -
  have vm: "vm_inv s T ps" using assms by (auto simp: vm_inv_def addr_space_def space_pages_def)
  have "T Pgd = Some pgd" "leaf_owned s T ps 0x400000" "leaf_pages (mem s) T 0x400000 = [user_page (mem s) T]"
    using assms(2,3) by (auto simp: addr_space_def leaf_owned_def leaf_pages_def user_page_def space_pages_def)
  with free_vm_returns_pages [OF vm] show ?thesis
    by (auto simp: space_pages_def Un_insert_right)
qed

text \<open>The same for an address space that maps nothing yet.\<close>

lemma free_vm_empty:
  assumes "vm_inv s T ps" "T Pgd = Some pgd" "\<not> bit (leaf (mem s) T 0x400000) 0"
  shows "\<exists>s' ps'. free_vm pgd s = Inr ((), s') \<and> heap_inv s' ps' \<and> set ps' = set ps \<union> ran T
     \<and> heap_within (set ps \<union> ran T) s s'"
  using free_vm_returns_pages [OF assms(1,2)] assms(3) by (auto simp: leaf_owned_def leaf_pages_def)

section \<open>Mapping a fresh page\<close>

definition attach_page :: "u64 \<Rightarrow> 'a heap_scheme \<Rightarrow> (u64 option, 'a heap_scheme) outcome" where
  "attach_page pgd s = kbind (kalloc s) (\<lambda>page s.
     if page = 0 then Inr (None, s)
     else let s = s\<lparr>mem := memset (mem s) page 0 (ucast PAGE_SIZE)\<rparr> in
       kbind (map_page pgd 0x400000 (V2P page) (ENTRY_V OR USER OR NORMAL_MEMORY OR ENTRY_ACCESSED) s)
         (\<lambda>status s. if status then Inr (Some page, s)
           else kbind (kfree page s) (\<lambda>_ s. kbind (free_vm pgd s) (\<lambda>_ s. Inr (None, s)))))"

text \<open>
  The common start of \<open>setup_uvm\<close> and \<open>copy_uvm\<close>: either the new address space owns a cleared
  page, or every page is back and the new root table with them.
\<close>

lemma attach_page_spec:
  assumes "vm_inv s [Pgd \<mapsto> pgd] ps"
  shows "\<exists>r s'. attach_page pgd s = Inr (r, s') \<and> heap_within (insert pgd (set ps)) s s'
     \<and> (3 \<le> length ps \<longrightarrow> r \<noteq> None)
     \<and> (case r of
          None \<Rightarrow> \<exists>ps'. heap_inv s' ps' \<and> set ps' = (if ps = [] then {} else insert pgd (set ps))
        | Some page \<Rightarrow> \<exists>T ps'. heap_inv s' ps' \<and> addr_space (mem s') (kernel_end s') pgd T
            \<and> user_page (mem s') T = page \<and> space_pages (mem s') T \<inter> set ps' = {}
            \<and> space_pages (mem s') T \<union> set ps' = insert pgd (set ps)
            \<and> (\<forall>x. in_range page 2097152 x \<longrightarrow> mem s' x = 0))"
proof (cases ps)
  case Nil
  with assms kalloc_Nil [of s] have "attach_page pgd s = Inr (None, s)"
    by (simp add: attach_page_def vm_inv_def)
  with Nil assms show ?thesis by (intro exI [of _ None] exI [of _ s]) (auto simp: vm_inv_def)
next
  case (Cons q qs)
  note attr = user_attributes_def [symmetric]
  let ?T = "[Pgd \<mapsto> pgd]" let ?U = "insert pgd (set ps)"
  let ?s1 = "s\<lparr>free_memory := ld64 (mem s) q, mem := memset (mem s) q 0 (ucast PAGE_SIZE)\<rparr>"
  have inv: "vm_inv s ?T (q # qs)" using assms Cons by simp
  note a = alloc_beside_tables [OF inv]
  have q0: "q \<noteq> 0" using page_ok_bounds(4) [OF a(4)] .
  have lf: "leaf (mem ?s1) ?T 0x400000 = 0" by (simp add: leaf_def)
  have zero: "mem ?s1 x = 0" if "in_range q 2097152 x" for x
    using that by (simp add: memset_eq PAGE_SIZE_def)
  have w1: "heap_within ?U s ?s1"
    using heap_within_memset [of ?U s "s\<lparr>free_memory := ld64 (mem s) q\<rparr>" q] Cons by simp
  obtain r s2 T' ps2 where m: "map_page pgd 0x400000 (V2P q) user_attributes ?s1 = Inr (r, s2)"
    "heap_within (set qs \<union> ran ?T) ?s1 s2" "vm_inv s2 T' ps2" "?T \<subseteq>\<^sub>m T'" "set ps2 \<union> ran T' = set qs \<union> ran ?T"
    "2 \<le> length qs \<longrightarrow> r" "leaf_pages (mem s2) T' 0x400000 = (if r then [q] else [])"
    "r \<longrightarrow> leaf (mem s2) T' 0x400000 = V2P q OR user_attributes OR BLOCK_ENTRY" "dom T' \<subseteq> dom ?T \<union> table_path 0x400000"
    "\<forall>w. \<not> same_slot 0x400000 w \<longrightarrow> leaf (mem s2) T' w = leaf (mem ?s1) ?T w"
    using map_user_page [OF a(2), of pgd q] lf a(4,5,6) by auto
  have other: "\<forall>v. bit (leaf (mem s2) T' v) 0 \<longrightarrow> same_slot 0x400000 v"
  proof (intro allI impI)
    fix v assume "bit (leaf (mem s2) T' v) 0"
    moreover have "leaf (mem ?s1) ?T v = 0" by (simp add: leaf_def)
    ultimately show "same_slot 0x400000 v" using m(10) by (cases "same_slot 0x400000 v") auto
  qed
  have dom: "dom T' \<subseteq> table_path 0x400000" using m(9) by (auto simp: table_path_def)
  have w2: "heap_within ?U s s2" using Cons by (intro heap_within_join [OF w1 m(2)]) auto
  have ke: "kernel_end s2 = kernel_end s"
    using heap_step_kernel_end [OF heap_withinD(1) [OF w2]] .
  have pgd: "T' Pgd = Some pgd" using m(4) by (auto simp: map_le_def)
  show ?thesis
  proof (cases r)
    case True
    have lf2: "leaf (mem s2) T' 0x400000 = V2P q OR user_attributes OR BLOCK_ENTRY" using m(8) True by simp
    have up: "user_page (mem s2) T' = q"
      using mapped_page_user [OF a(4)] by (simp add: user_page_def lf2)
    have qout: "q \<notin> ran T' \<union> set ps2" using a(5,6) m(5) by auto
    have "user_block (mem s2) T'" by (simp add: user_block_def up lf2)
    then have sp: "addr_space (mem s2) (kernel_end s2) pgd T'"
      using vm_invD(2) [OF m(3)] pgd user_block_valid [of q] up a(4) qout ke dom other
      by (simp add: addr_space_def lf2)
    have ok: "\<forall>p \<in> set qs \<union> ran ?T. page_ok (kernel_end s) p"
      using vm_invD(1,2) [OF inv] tablesD(2) [of _ _ ?T Pgd] by (auto simp: heap_inv_def)
    have "same_page (mem ?s1) (mem s2) q"
      using a(5,6) by (intro within_page [OF m(2) a(4) ok]) auto
    then have "\<forall>x. in_range q 2097152 x \<longrightarrow> mem s2 x = 0" using zero by (simp add: same_page_def)
    moreover have "attach_page pgd s = Inr (Some q, s2)"
      using a(1) q0 m(1) True by (simp add: attach_page_def attr Let_def)
    moreover have "space_pages (mem s2) T' \<union> set ps2 = ?U" "space_pages (mem s2) T' \<inter> set ps2 = {}"
      using up m(3,5) qout Cons by (auto simp: space_pages_def vm_inv_def)
    ultimately show ?thesis
      using w2 sp up vm_invD(1) [OF m(3)]
      by (intro exI [of _ "Some q"] exI [of _ s2]) auto
  next
    case False
    have "q \<notin> set ps2" "q \<notin> ran T'" using a(5,6) m(5) by auto
    then obtain s3 where s3: "kfree q s2 = Inr ((), s3)" "heap_within {q} s2 s3" "vm_inv s3 T' (q # ps2)"
      and ent: "\<And>t p i. T' t = Some p \<Longrightarrow> i < 512 \<Longrightarrow> entry (mem s3) p i = entry (mem s2) p i"
      using kfree_beside_tables [OF m(3), of q] a(4) ke by auto
    have "leaf (mem s3) T' 0x400000 = leaf (mem s2) T' 0x400000"
      using ent by (simp add: leaf_def split: option.split)
    then have "\<not> bit (leaf (mem s3) T' 0x400000) 0"
      using m(7) False by (auto simp: leaf_pages_def split: if_splits)
    from free_vm_empty [OF s3(3) pgd this] obtain s4 ps4 where s4: "free_vm pgd s3 = Inr ((), s4)"
      "heap_inv s4 ps4" "set ps4 = set (q # ps2) \<union> ran T'" "heap_within (set (q # ps2) \<union> ran T') s3 s4" by blast
    have set: "set (q # ps2) \<union> ran T' = ?U" using m(5) Cons by auto
    have "heap_within ?U s s4"
      using s4(4) unfolding set
      by (intro heap_within_join [OF w2 heap_within_trans [OF s3(2)]]) (auto simp: Cons)
    moreover have "attach_page pgd s = Inr (None, s4)"
      using a(1) q0 m(1) False s3(1) s4(1) by (simp add: attach_page_def attr Let_def)
    moreover have "\<not> 3 \<le> length ps" using m(6) False Cons by auto
    ultimately show ?thesis
      using s4(2,3) set Cons by (intro exI [of _ None] exI [of _ s4]) auto
  qed
qed


section \<open>setup_uvm and copy_uvm\<close>

lemma kbind_assoc: "kbind (kbind r f) g = kbind r (\<lambda>x s. kbind (f x s) g)"
  by (cases r) auto

lemma kbind_if: "kbind (if b then r else r') f = (if b then kbind r f else kbind r' f)"
  by simp

lemma setup_uvm_attach:
  "setup_uvm i p s = kbind (attach_page (p_page_map (process_table s i)) s) (\<lambda>r s'. case r of
     None \<Rightarrow> Inr (False, s')
   | Some page \<Rightarrow> kbind (open_file i p s') (\<lambda>fd s'.
       if fd = - 1 then kbind (free_vm (p_page_map (process_table s i)) s') (\<lambda>_ s. Inr (False, s))
       else kbind (get_file_size i fd s') (\<lambda>n s'. kbind (read_file i fd page n s') (\<lambda>r s'.
         if r \<noteq> n then kbind (free_vm (p_page_map (process_table s i)) s') (\<lambda>_ s. Inr (False, s))
         else kbind (close_file i fd s') (\<lambda>_ s. Inr (True, s))))))"
  by (simp add: setup_uvm_def attach_page_def Let_def kbind_assoc kbind_if if_distrib [of "\<lambda>r. kbind r f" for f]
      cong: if_cong)

lemma copy_uvm_attach:
  "copy_uvm dst src n s = kbind (attach_page dst s) (\<lambda>r s'. case r of
     None \<Rightarrow> Inr (False, s')
   | Some page \<Rightarrow> kbind (find_pud_entry src 0x400000 0 0 s') (\<lambda>pd s'.
       if pd = 0 then kbind (free_vm dst s') (\<lambda>_ s. Inr (False, s))
       else if entry (mem s') pd (pmd_index 0x400000) AND ENTRY_V \<noteq> 1 then Inl Assert_failed
       else Inr (True, s'\<lparr>mem := memcpy (mem s') page
              (P2V (PTE_ADDR (entry (mem s') pd (pmd_index 0x400000)))) n\<rparr>)))"
  by (simp add: copy_uvm_def attach_page_def Let_def kbind_assoc kbind_if pmd_index_def cong: if_cong)

lemma leaf_walk:
  assumes "heap_inv s ps" "addr_space (mem s) (kernel_end s) pgd T" "space_pages (mem s) T \<inter> set ps = {}"
  shows "\<exists>q. find_pud_entry pgd 0x400000 a b s = Inr (q, s) \<and> q \<noteq> 0
     \<and> entry (mem s) q (pmd_index 0x400000) = leaf (mem s) T 0x400000"
proof -
  have vm: "vm_inv s T ps" using assms by (auto simp: vm_inv_def addr_space_def space_pages_def)
  have T: "T Pgd = Some pgd" "bit (leaf (mem s) T 0x400000) 0" using assms(2) by (auto simp: addr_space_def)
  then obtain q where q: "T (pmd_of 0x400000) = Some q"
    by (cases "T (pmd_of 0x400000)") (auto simp: leaf_def)
  then have "q \<noteq> 0" using tablesD(2) [OF vm_invD(2) [OF vm]] page_ok_bounds(4) by blast
  with q find_pud_entry_hit [OF vm T(1) q] show ?thesis by (auto simp: leaf_def)
qed

text \<open>Writing to the mapped page.\<close>

lemma write_user_page:
  assumes "heap_inv s ps" "addr_space (mem s) (kernel_end s) pgd T" "space_pages (mem s) T \<inter> set ps = {}"
    "heap_within {user_page (mem s) T} s (s\<lparr>mem := m\<rparr>)"
  shows "heap_inv (s\<lparr>mem := m\<rparr>) ps" "addr_space m (kernel_end s) pgd T" "user_page m T = user_page (mem s) T"
    "space_pages m T = space_pages (mem s) T"
proof -
  have u: "page_ok (kernel_end s) (user_page (mem s) T)" "user_page (mem s) T \<notin> ran T" "user_page (mem s) T \<notin> set ps"
    using assms(2,3) by (auto simp: addr_space_def space_pages_def)
  have same: "same_page (mem s) m p" if "page_ok (kernel_end s) p" "p \<noteq> user_page (mem s) T" for p
    using within_page [OF assms(4) that(1)] u(1) that(2) by simp
  have "\<forall>p \<in> ran T. same_page (mem s) m p"
    using same u(2) space_pages_ok [OF assms(2)] by (auto simp: space_pages_def)
  from addr_space_page [OF assms(2) this]
  show "addr_space m (kernel_end s) pgd T" "user_page m T = user_page (mem s) T"
    "space_pages m T = space_pages (mem s) T" .
  show "heap_inv (s\<lparr>mem := m\<rparr>) ps"
    using same u(3) heap_pages_ok [OF assms(1)] by (intro heap_inv_pages [OF assms(1)]) auto
qed

lemma within_written:
  assumes "p \<in> U" "\<forall>x. in_range a (length xs) x \<longrightarrow> in_range p 2097152 x"
  shows "heap_within U s (s\<lparr>mem := written (mem s) a xs\<rparr>)"
proof -
  have "written (mem s) a xs x = mem s x" if "\<forall>q \<in> U. \<not> in_range q 2097152 x" for x
    using assms that by (intro written_outside) blast
  then show ?thesis by (simp add: heap_within_def)
qed

lemma copy_uvm_spec:
  fixes s :: "'a heap_scheme"
  assumes "vm_inv s [Pgd \<mapsto> dst] ps" "addr_space (mem s) (kernel_end s) src S"
    "space_pages (mem s) S \<inter> insert dst (set ps) = {}"
  shows "\<exists>b s'. copy_uvm dst src (ucast PAGE_SIZE) s = Inr (b, s') \<and> heap_within (insert dst (set ps)) s s'
     \<and> (3 \<le> length ps \<longrightarrow> b)
     \<and> (if b then \<exists>T ps'. heap_inv s' ps' \<and> addr_space (mem s') (kernel_end s') dst T
            \<and> space_pages (mem s') T \<inter> set ps' = {} \<and> space_pages (mem s') T \<union> set ps' = insert dst (set ps)
            \<and> bytes (mem s') (user_page (mem s') T) 2097152 = bytes (mem s) (user_page (mem s) S) 2097152
        else \<exists>ps'. heap_inv s' ps' \<and> set ps' = (if ps = [] then {} else insert dst (set ps)))"
proof -
  let ?U = "insert dst (set ps)" and ?src = "user_page (mem s) S"
  obtain r s1 where at: "attach_page dst s = Inr (r, s1)" "heap_within ?U s s1" "3 \<le> length ps \<longrightarrow> r \<noteq> None"
    and c: "case r of None \<Rightarrow> \<exists>ps'. heap_inv s1 ps' \<and> set ps' = (if ps = [] then {} else ?U)
      | Some page \<Rightarrow> \<exists>T ps'. heap_inv s1 ps' \<and> addr_space (mem s1) (kernel_end s1) dst T
            \<and> user_page (mem s1) T = page \<and> space_pages (mem s1) T \<inter> set ps' = {}
            \<and> space_pages (mem s1) T \<union> set ps' = ?U \<and> (\<forall>x. in_range page 2097152 x \<longrightarrow> mem s1 x = 0)"
    using attach_page_spec [OF assms(1)] by blast
  have ke: "kernel_end s1 = kernel_end s" using heap_step_kernel_end [OF heap_withinD(1) [OF at(2)]] .
  show ?thesis
  proof (cases r)
    case None
    with at c show ?thesis by (intro exI [of _ False] exI [of _ s1]) (simp add: copy_uvm_attach)
  next
    case (Some page)
    with c obtain T ps' where T: "heap_inv s1 ps'" "addr_space (mem s1) (kernel_end s1) dst T"
      "user_page (mem s1) T = page" "space_pages (mem s1) T \<inter> set ps' = {}" "space_pages (mem s1) T \<union> set ps' = ?U" by auto
    have Uok: "\<forall>p \<in> ?U. page_ok (kernel_end s) p"
      using vm_invD(1,2) [OF assms(1)] tablesD(2) [of _ _ "[Pgd \<mapsto> dst]" Pgd] by (auto simp: heap_inv_def)
    have same: "same_page (mem s) (mem s1) p" if "p \<in> space_pages (mem s) S" for p
      using within_page [OF at(2) space_pages_ok [OF assms(2) that] Uok] assms(3) that by blast
    have S: "addr_space (mem s1) (kernel_end s1) src S" "user_page (mem s1) S = ?src"
      "space_pages (mem s1) S = space_pages (mem s) S"
      using addr_space_page [OF assms(2), of "mem s1"] same ke by (auto simp: space_pages_def)
    have "space_pages (mem s1) S \<inter> set ps' = {}" using assms(3) T(5) S(3) by auto
    from leaf_walk [OF T(1) S(1) this] obtain q where q: "find_pud_entry src 0x400000 0 0 s1 = Inr (q, s1)" "q \<noteq> 0"
      "entry (mem s1) q (pmd_index 0x400000) = leaf (mem s1) S 0x400000" by blast
    have v: "leaf (mem s1) S 0x400000 AND ENTRY_V = 1"
      using S(1) by (simp add: addr_space_def ENTRY_V_def and_one_eq odd_iff_mod_2_eq_one bit_0)
    have sp: "P2V (PTE_ADDR (leaf (mem s1) S 0x400000)) = ?src" using S(2) by (simp add: user_page_def mapped_page_def)
    have ok: "page_ok (kernel_end s) page" "page_ok (kernel_end s) ?src"
      using space_pages_ok [OF T(2), of page] T(3) ke space_pages_ok [OF assms(2), of ?src]
      by (simp_all add: space_pages_def)
    have "page \<noteq> ?src" using assms(3) T(3,5) by (auto simp: space_pages_def)
    with pages_apart [OF ok] have "forward_ok page ?src 2097152" by (auto simp: forward_ok_def apart_def)
    then have cp: "memcpy (mem s1) page ?src (ucast PAGE_SIZE) = written (mem s1) page (bytes (mem s1) ?src 2097152)"
      using memcpy_forward [of page ?src "ucast PAGE_SIZE" "mem s1"] by (simp add: copied_written PAGE_SIZE_def)
    let ?xs = "bytes (mem s1) ?src 2097152" let ?m = "written (mem s1) page ?xs"
    have w2: "heap_within {user_page (mem s1) T} s1 (s1\<lparr>mem := ?m\<rparr>)"
      by (rule within_written [of page]) (simp_all add: T(3))
    note wr = write_user_page [OF T(1,2,4) w2]
    have "unat page + 2097152 \<le> 2 ^ 64" using page_ok_bounds(2) [OF ok(1)] by simp
    then have b: "bytes ?m page 2097152 = ?xs"
      using written_nth [of _ ?xs page "mem s1"] by (intro nth_equalityI) simp_all
    have xs: "?xs = bytes (mem s) ?src 2097152"
    proof -
      have "mem s1 (?src + of_nat k) = mem s (?src + of_nat k)" if "k < 2097152" for k
        using same [of ?src] that unfolding same_page_def space_pages_def
        by (auto simp: in_range_add)
      then show ?thesis by (simp add: bytes_def)
    qed
    have "copy_uvm dst src (ucast PAGE_SIZE) s = Inr (True, s1\<lparr>mem := ?m\<rparr>)"
      using at(1) Some q v sp cp by (simp add: copy_uvm_attach)
    moreover have "heap_within ?U s (s1\<lparr>mem := ?m\<rparr>)"
      using T(3,5) by (intro heap_within_join [OF at(2) w2]) (auto simp: space_pages_def)
    moreover have "\<exists>T ps'. heap_inv (s1\<lparr>mem := ?m\<rparr>) ps' \<and> addr_space ?m (kernel_end s1) dst T
        \<and> space_pages ?m T \<inter> set ps' = {} \<and> space_pages ?m T \<union> set ps' = ?U
        \<and> bytes ?m (user_page ?m T) 2097152 = bytes (mem s) ?src 2097152"
      using wr T(3,4,5) b xs by (intro exI [of _ T] exI [of _ ps']) simp
    ultimately show ?thesis by (intro exI [of _ True] exI [of _ "s1\<lparr>mem := ?m\<rparr>"]) simp
  qed
qed

section \<open>Loading a program\<close>

definition program_bytes :: "memory \<Rightarrow> nat \<Rightarrow> u32 list \<Rightarrow> u8 list" where
  "program_bytes m e cl = take (unat (dir_file_size (dir_entry m e))) (chain_bytes m cl)"

text \<open>
  The directory entry \<open>e\<close> is a non-empty file in the chain \<open>cl\<close> that fits into one page, and the
  control block, when in use, shows the entry.
\<close>

definition loadable :: "'a files_scheme \<Rightarrow> nat \<Rightarrow> u32 list \<Rightarrow> bool" where
  "loadable s e cl \<longleftrightarrow> (let d = dir_entry (mem s) e; f = fcb_table s e in
     fat_chain (mem s) (ucast (dir_cluster d)) cl \<and> 0 < dir_file_size d
     \<and> unat (dir_file_size d) \<le> 2097152 \<and> unat (dir_file_size d) \<le> length (chain_bytes (mem s) cl)
     \<and> (fcb_count f \<noteq> 0 \<longrightarrow> cluster_index f = ucast (dir_cluster d) \<and> file_size f = dir_file_size d))"

lemma files_ok_cong:
  assumes "files_ok s" "\<And>j. p_file (process_table s' j) = p_file (process_table s j)"
    "\<And>d. fcb (file_desc_table s' d) = fcb (file_desc_table s d)"
    "\<And>d. fd_count (file_desc_table s' d) = fd_count (file_desc_table s d)"
    "\<And>f. fcb_count (fcb_table s' f) = fcb_count (fcb_table s f)"
  shows "files_ok s'"
  using assms by (simp add: files_ok_def holders_def)

lemma loadable_opened:
  assumes "loadable s e cl"
  shows "file_chain (after_open s i fd d e) e cl"
    "file_bytes (after_open s i fd d e) e cl = program_bytes (mem s) e cl"
    "file_size (fcb_table (after_open s i fd d e) e) = dir_file_size (dir_entry (mem s) e)"
  using assms
  by (simp_all add: loadable_def Let_def file_chain_def file_bytes_def program_bytes_def after_open_def set_file_def
      filled_FCB_def)

lemma dir_entry_image:
  assumes "image_eq m m'" "i < 65536"
  shows "dir_entry m' i = dir_entry m i"
  unfolding dir_entry_def root_directory_image [OF assms(1)]
proof (rule load_DirEntry_shift)
  fix j :: nat assume "j < 32"
  have "unat (32 * of_nat i + of_nat j :: u64) \<le> 2097152 + 32"
    using \<open>j < 32\<close> assms(2) unat_of_nat_small [of "32 * i + j", where ?'a = 64] by simp
  then have "far (8589934592 + (2097152 + 32)) (get_root_directory m + (32 * of_nat i + of_nat j))"
    by (intro far_add [OF far_root]) simp_all
  from far_image [OF this assms(1)]
  show "m' (get_root_directory m + 32 * of_nat i + of_nat j) = m (get_root_directory m + 32 * of_nat i + of_nat j)"
    by (simp add: add.assoc)
qed

lemma lookup_image:
  assumes "image_eq m m'"
  shows "lookup m' p = lookup m p"
  using dir_entry_image [OF assms] root_count_less [of m] root_count_image [OF assms]
  by (auto simp: lookup_def intro!: first_index_cong)

lemma loadable_image:
  assumes "image_eq (mem s) (mem s')" "fcb_table s' = fcb_table s" "e < 65536" "loadable s e cl"
  shows "loadable s' e cl" "program_bytes (mem s') e cl = program_bytes (mem s) e cl"
proof -
  note img = dir_entry_image [OF assms(1,3)] fat_chain_image [OF assms(1)]
  have c: "chain_bytes (mem s') cl = chain_bytes (mem s) cl"
    using assms(4) by (intro chain_bytes_image [OF assms(1)]) (auto simp: loadable_def Let_def)
  then show "loadable s' e cl" "program_bytes (mem s') e cl = program_bytes (mem s) e cl"
    using assms(2,4) by (simp_all add: loadable_def program_bytes_def img)
qed

text \<open>A step that leaves all but memory, the free list and the two file tables as it was.\<close>

definition files_step :: "'a files_scheme \<Rightarrow> 'a files_scheme \<Rightarrow> bool" where
  "files_step s s' \<longleftrightarrow> s' = s\<lparr>mem := mem s', free_memory := free_memory s', fcb_table := fcb_table s',
     file_desc_table := file_desc_table s'\<rparr>"

lemma files_stepI [intro]:
  "s' = s\<lparr>mem := m, free_memory := f, fcb_table := a, file_desc_table := b\<rparr> \<Longrightarrow> files_step s s'"
  by (simp add: files_step_def)

lemma files_stepE:
  assumes "files_step s s'"
  obtains m f a b where "s' = s\<lparr>mem := m, free_memory := f, fcb_table := a, file_desc_table := b\<rparr>"
  using assms unfolding files_step_def by blast

lemma files_step_refl [simp]: "files_step s s"
  by (simp add: files_step_def)

lemma files_step_trans:
  assumes "files_step s s'" "files_step s' s''"
  shows "files_step s s''"
proof -
  obtain m f a b where "s' = s\<lparr>mem := m, free_memory := f, fcb_table := a, file_desc_table := b\<rparr>"
    using files_stepE [OF assms(1)] .
  moreover obtain m' f' a' b' where "s'' = s'\<lparr>mem := m', free_memory := f', fcb_table := a', file_desc_table := b'\<rparr>"
    using files_stepE [OF assms(2)] .
  ultimately show ?thesis by (intro files_stepI [where m = m' and f = f' and a = a' and b = b']) simp
qed

lemma heap_step_files: "heap_step s s' \<Longrightarrow> files_step s s'"
  by (elim heap_stepE) (auto intro!: files_stepI [where a = "fcb_table s" and b = "file_desc_table s"])

text \<open>The counts of the control blocks are as before; at most one descriptor was taken, and not given back.\<close>

definition one_leak :: "'a files_scheme \<Rightarrow> 'a files_scheme \<Rightarrow> bool" where
  "one_leak s s' \<longleftrightarrow> (\<forall>f. fcb_count (fcb_table s' f) = fcb_count (fcb_table s f))
     \<and> (\<exists>d. \<forall>x. file_desc_table s' x = file_desc_table s x \<or> x = d \<and> fd_count (file_desc_table s' x) = 1)"

lemma one_leak_same: "fcb_table s' = fcb_table s \<Longrightarrow> file_desc_table s' = file_desc_table s \<Longrightarrow> one_leak s s'"
  by (simp add: one_leak_def)

lemma one_leak_cong: "fcb_table s = fcb_table t \<Longrightarrow> file_desc_table s = file_desc_table t \<Longrightarrow> one_leak s s' = one_leak t s'"
  by (simp add: one_leak_def)

text \<open>
  Opening, reading from the start and closing a file, into a buffer resolved to \<open>a\<close>; between the opening
  and the reading, memory outside the volume may change to \<open>m\<close>.
\<close>

lemma open_load_close_at:
  assumes "0 \<notin> set p" "lookup (mem s) p = Some e" "free_fd s i = Some fd" "free_desc s = Some d"
    "loadable s e cl" "files_ok s" "i < 10" "sint (fcb_count (fcb_table s e)) < 2 ^ 31 - 1"
    "image_eq (mem s) m" "resolves (s\<lparr>mem := m\<rparr>) buf a (unat (dir_file_size (dir_entry (mem s) e)))"
    "unat a + unat (dir_file_size (dir_entry (mem s) e)) \<le> unat FS_BASE"
  defines "n \<equiv> dir_file_size (dir_entry (mem s) e)"
  shows "\<exists>s1 s2 s3. open_file i (cstr p) s = Inr (of_nat fd, s1) \<and> mem s1 = mem s \<and> ttbr0 s1 = ttbr0 s
     \<and> get_file_size i (of_nat fd) (s1\<lparr>mem := m\<rparr>) = Inr (n, s1\<lparr>mem := m\<rparr>)
     \<and> read_file i (of_nat fd) buf n (s1\<lparr>mem := m\<rparr>) = Inr (n, s2) \<and> close_file i (of_nat fd) s2 = Inr ((), s3)
     \<and> mem s3 = written m a (program_bytes (mem s) e cl) \<and> free_memory s3 = free_memory s
     \<and> kernel_end s3 = kernel_end s \<and> files_step s s3 \<and> process_table s3 = process_table s \<and> files_ok s3
     \<and> one_leak s s3"
proof -
  let ?xs = "program_bytes (mem s) e cl" let ?t = "s\<lparr>mem := m\<rparr>"
  let ?s1 = "after_open s i fd d e" let ?t1 = "after_open ?t i fd d e"
  let ?s2 = "after_read ?t1 d a ?xs n" let ?s3 = "after_close ?s2 i fd e"
  have fd: "fd < 100" "p_file (process_table s i) fd = None" using assms(3) by (simp_all add: free_fd_Some)
  have d: "fcb (file_desc_table s d) = None" using assms(4) by (simp add: free_desc_Some)
  have e: "e < 65536" using lookup_less [OF assms(2)] root_count_less [of "mem s"] by simp
  have img: "image_eq (mem s) (mem ?t)" using assms(9) by simp
  have t1: "?s1\<lparr>mem := m\<rparr> = ?t1"
    using dir_entry_image [OF assms(9) e] by (simp add: after_open_def set_file_def filled_FCB_def Let_def)
  note ld = loadable_image [OF img _ e assms(5)]
  have ldt: "loadable ?t e cl" "program_bytes (mem ?t) e cl = ?xs" using ld by simp_all
  note l = loadable_opened [OF ldt(1), of i fd d]
  have n: "0 < n" "unat n \<le> 2097152" "length ?xs = unat n"
    using assms(5) by (simp_all add: loadable_def Let_def program_bytes_def n_def)
  have nt: "file_size (fcb_table ?t1 e) = n" using l(3) dir_entry_image [OF assms(9) e] by (simp add: n_def)
  have op: "open_file i (cstr p) s = Inr (of_nat fd, ?s1)" by (simp add: open_file_cases [OF assms(1)] assms(2-4))
  have opd: "opened ?t1 i (of_nat fd) d e" by (rule after_open_opened [OF fd(1)])
  have size: "get_file_size i (of_nat fd) ?t1 = Inr (n, ?t1)"
    using opened_at [OF opd] nt by (simp add: get_file_size_def)
  have pos: "position (file_desc_table ?t1 d) = 0" by (simp add: after_open_fields)
  have "resolves ?t1 buf a (unat n)"
    using assms(10) by (subst resolves_cong [of _ ?t]) (simp_all add: after_open_def set_file_def n_def)
  moreover have "unat (get_cluster_size (mem ?t1)) < 2 ^ 24" by (rule unat_cluster_size_less)
  ultimately have rd: "read_file i (of_nat fd) buf n ?t1 = Inr (n, ?s2)"
    using read_file_slice [OF opd l(1) n(1)] pos n assms(11) l(2) ldt(2) nt
    by (simp add: n_def [symmetric])
  have ok1: "files_ok ?s1" using assms(3,6,7,8) d by (intro files_ok_open) simp_all
  have ok2: "files_ok ?s2"
    by (rule files_ok_cong [OF ok1]) (simp_all add: after_read_def t1 [symmetric])
  have opd2: "opened ?s2 i (of_nat fd) d e" using opd by (simp add: opened_def after_read_def)
  note cl = files_ok_close [OF ok2 assms(7) opd2]
  have nat: "nat (sint (of_nat fd :: i32)) = fd" using sint_fd [OF fd(1)] by simp
  have tbl: "process_table ?s3 = process_table s"
    using clear_empty_file [OF fd(2)] by (simp add: after_close_def after_read_def after_open_def set_file_def)
  moreover have "files_step s ?s3"
    unfolding files_step_def using tbl
    by (intro files.equality) (simp_all add: after_close_def after_read_def after_open_def set_file_def)
  moreover have "mem ?s3 = written m a ?xs" "free_memory ?s3 = free_memory s" "kernel_end ?s3 = kernel_end s"
    "mem ?s1 = mem s" "ttbr0 ?s1 = ttbr0 s"
    by (simp_all add: after_close_def after_read_def after_open_def set_file_def)
  moreover have "one_leak s ?s3"
    unfolding one_leak_def
    by (simp add: after_close_def after_read_def after_open_def set_file_def filled_FCB_def Let_def)
  ultimately show ?thesis
    using op size rd cl unfolding nat t1 [symmetric]
    by (intro exI [of _ ?s1] exI [of _ ?s2] exI [of _ ?s3]) (simp add: t1)
qed

lemma open_load_close:
  assumes "0 \<notin> set p" "lookup (mem s) p = Some e" "free_fd s i = Some fd" "free_desc s = Some d"
    "loadable s e cl" "files_ok s" "i < 10" "sint (fcb_count (fcb_table s e)) < 2 ^ 31 - 1"
    "page_ok (kernel_end s) page"
  defines "n \<equiv> dir_file_size (dir_entry (mem s) e)"
  shows "\<exists>s1 s2 s3. open_file i (cstr p) s = Inr (of_nat fd, s1) \<and> get_file_size i (of_nat fd) s1 = Inr (n, s1)
     \<and> read_file i (of_nat fd) page n s1 = Inr (n, s2) \<and> close_file i (of_nat fd) s2 = Inr ((), s3)
     \<and> mem s3 = written (mem s) page (program_bytes (mem s) e cl) \<and> free_memory s3 = free_memory s
     \<and> kernel_end s3 = kernel_end s \<and> files_step s s3 \<and> process_table s3 = process_table s \<and> files_ok s3
     \<and> one_leak s s3"
proof -
  note b = page_ok_bounds [OF assms(9)]
  have n: "unat n \<le> 2097152" using assms(5) by (simp add: loadable_def Let_def n_def)
  have "resolves (s\<lparr>mem := mem s\<rparr>) page page (unat n)"
    using b n by (intro resolves_kernel) (simp_all add: word_le_nat_alt)
  moreover have "unat page + unat n \<le> unat FS_BASE" using b n by simp
  ultimately obtain s1 s2 s3 where s: "open_file i (cstr p) s = Inr (of_nat fd, s1)" "mem s1 = mem s"
    "get_file_size i (of_nat fd) (s1\<lparr>mem := mem s\<rparr>) = Inr (n, s1\<lparr>mem := mem s\<rparr>)"
    "read_file i (of_nat fd) page n (s1\<lparr>mem := mem s\<rparr>) = Inr (n, s2)" "close_file i (of_nat fd) s2 = Inr ((), s3)"
    "mem s3 = written (mem s) page (program_bytes (mem s) e cl)" "free_memory s3 = free_memory s"
    "kernel_end s3 = kernel_end s" "files_step s s3" "process_table s3 = process_table s" "files_ok s3"
    "one_leak s s3"
    using open_load_close_at [OF assms(1-8) image_eq_refl, of page page] unfolding n_def by blast
  have "s1\<lparr>mem := mem s\<rparr> = s1" using s(2) [symmetric] by simp
  with s show ?thesis by (intro exI [of _ s1] exI [of _ s2] exI [of _ s3]) simp
qed

text \<open>The pages outside \<open>U\<close>, as far as they are heap pages, are the same in both states.\<close>

definition keeps_pages :: "u64 set \<Rightarrow> 'a heap_scheme \<Rightarrow> 'a heap_scheme \<Rightarrow> bool" where
  "keeps_pages U s s' \<longleftrightarrow> kernel_end s' = kernel_end s \<and> image_eq (mem s) (mem s')
     \<and> (\<forall>q. page_ok (kernel_end s) q \<and> q \<notin> U \<longrightarrow> same_page (mem s) (mem s') q)"

lemma keeps_pages_within:
  assumes "heap_within U s s'" "\<forall>q \<in> U. page_ok (kernel_end s) q"
  shows "keeps_pages U s s'"
  using within_page [OF assms(1) _ assms(2)] within_image [OF assms]
    heap_step_kernel_end [OF heap_withinD(1) [OF assms(1)]]
  by (simp add: keeps_pages_def)

lemma keeps_pages_trans:
  "keeps_pages U s s' \<Longrightarrow> keeps_pages V s' s'' \<Longrightarrow> U \<union> V \<subseteq> W \<Longrightarrow> keeps_pages W s s''"
  unfolding keeps_pages_def using same_page_trans image_eq_trans
  by (metis (no_types, lifting) Un_iff subsetD)

lemma keeps_pages_written:
  assumes "page_ok (kernel_end s) p" "length xs \<le> 2097152" "mem s' = written (mem s) p xs"
    "kernel_end s' = kernel_end s"
  shows "keeps_pages {p} s s'"
proof -
  have "in_range p 2097152 x" if "in_range p (length xs) x" for x
    using that assms(2) by (simp add: in_range_def)
  then have "heap_within {p} s (s\<lparr>mem := written (mem s) p xs\<rparr>)" by (intro within_written) auto
  from keeps_pages_within [OF this] assms show ?thesis by (simp add: keeps_pages_def)
qed

lemma heap_inv_same: "mem s' = mem s \<Longrightarrow> free_memory s' = free_memory s \<Longrightarrow> kernel_end s' = kernel_end s \<Longrightarrow>
    heap_inv s' ps = heap_inv s ps"
  by (simp add: heap_inv_def)

lemma setup_uvm_spec:
  fixes s :: "'a files_scheme"
  assumes "vm_inv s [Pgd \<mapsto> pgd] ps" "p_page_map (process_table s i) = pgd" "i < 10" "0 \<notin> set p" "files_ok s"
    "\<forall>f. sint (fcb_count (fcb_table s f)) < 2 ^ 31 - 1" "\<forall>e. lookup (mem s) p = Some e \<longrightarrow> loadable s e cl"
  shows "\<exists>b s'. setup_uvm i (cstr p) s = Inr (b, s') \<and> keeps_pages (insert pgd (set ps)) s s'
     \<and> process_table s' = process_table s \<and> files_step s s' \<and> files_ok s'
     \<and> one_leak s s'
     \<and> (3 \<le> length ps \<and> lookup (mem s) p \<noteq> None \<and> free_fd s i \<noteq> None \<and> free_desc s \<noteq> None \<longrightarrow> b)
     \<and> (if b then \<exists>T ps' e. heap_inv s' ps' \<and> addr_space (mem s') (kernel_end s') pgd T
            \<and> space_pages (mem s') T \<inter> set ps' = {} \<and> space_pages (mem s') T \<union> set ps' = insert pgd (set ps)
            \<and> lookup (mem s) p = Some e
            \<and> bytes (mem s') (user_page (mem s') T) 2097152
               = program_bytes (mem s) e cl @ replicate (2097152 - length (program_bytes (mem s) e cl)) 0
        else \<exists>ps'. heap_inv s' ps' \<and> set ps' = (if ps = [] then {} else insert pgd (set ps)))"
proof -
  let ?U = "insert pgd (set ps)"
  obtain r s1 where at: "attach_page pgd s = Inr (r, s1)" "heap_within ?U s s1" "3 \<le> length ps \<longrightarrow> r \<noteq> None"
    and c: "case r of None \<Rightarrow> \<exists>ps'. heap_inv s1 ps' \<and> set ps' = (if ps = [] then {} else ?U)
      | Some page \<Rightarrow> \<exists>T ps'. heap_inv s1 ps' \<and> addr_space (mem s1) (kernel_end s1) pgd T
            \<and> user_page (mem s1) T = page \<and> space_pages (mem s1) T \<inter> set ps' = {}
            \<and> space_pages (mem s1) T \<union> set ps' = ?U \<and> (\<forall>x. in_range page 2097152 x \<longrightarrow> mem s1 x = 0)"
    using attach_page_spec [OF assms(1)] by blast
  have Uok: "\<forall>p \<in> ?U. page_ok (kernel_end s) p"
    using vm_invD(1,2) [OF assms(1)] tablesD(2) [of _ _ "[Pgd \<mapsto> pgd]" Pgd] by (auto simp: heap_inv_def)
  note k1 = keeps_pages_within [OF at(2) Uok]
  have img: "image_eq (mem s) (mem s1)" and ke: "kernel_end s1 = kernel_end s" using k1 by (simp_all add: keeps_pages_def)
  obtain m f where s1: "s1 = s\<lparr>mem := m, free_memory := f\<rparr>" using heap_stepE [OF heap_withinD(1) [OF at(2)]] .
  have st1: "files_step s s1" by (rule heap_step_files [OF heap_withinD(1) [OF at(2)]])
  have same: "process_table s1 = process_table s" "fcb_table s1 = fcb_table s"
    "file_desc_table s1 = file_desc_table s" by (simp_all add: s1)
  have ok1: "files_ok s1" by (rule files_ok_cong [OF assms(5)]) (simp_all add: same)
  have fr: "free_fd s1 i = free_fd s i" "free_desc s1 = free_desc s" by (simp_all add: free_fd_def free_desc_def same)
  have lk: "lookup (mem s1) p = lookup (mem s) p" by (rule lookup_image [OF img])
  show ?thesis
  proof (cases r)
    case None
    with at c same ok1 k1 st1 one_leak_same [OF same(2,3)] show ?thesis
      by (intro exI [of _ False] exI [of _ s1]) (simp add: setup_uvm_attach assms(2))
  next
    case (Some page)
    with c obtain T ps' where T: "heap_inv s1 ps'" "addr_space (mem s1) (kernel_end s1) pgd T"
      "user_page (mem s1) T = page" "space_pages (mem s1) T \<inter> set ps' = {}" "space_pages (mem s1) T \<union> set ps' = ?U"
      "\<forall>x. in_range page 2097152 x \<longrightarrow> mem s1 x = 0" by auto
    have pok: "page_ok (kernel_end s1) page" using T(2,3) by (auto simp: addr_space_def)
    show ?thesis
    proof (cases "free_fd s i = None \<or> free_desc s = None \<or> lookup (mem s) p = None")
      case True
      then have op: "open_file i (cstr p) s1 = Inr (- 1, s1)"
        using fr lk by (auto simp: open_file_cases [OF assms(4)] split: option.split)
      obtain s2 ps2 where f: "free_vm pgd s1 = Inr ((), s2)" "heap_inv s2 ps2"
        "set ps2 = set ps' \<union> space_pages (mem s1) T" "heap_within (set ps' \<union> space_pages (mem s1) T) s1 s2"
        using free_vm_space [OF T(1,2,4)] by blast
      have set: "set ps' \<union> space_pages (mem s1) T = ?U" "set ps2 = ?U" using T(5) f(3) by auto
      obtain m' f' where s2: "s2 = s1\<lparr>mem := m', free_memory := f'\<rparr>" using heap_stepE [OF heap_withinD(1) [OF f(4)]] .
      have st2: "files_step s s2"
        by (rule files_step_trans [OF st1 heap_step_files [OF heap_withinD(1) [OF f(4)]]])
      have same2: "process_table s2 = process_table s" "fcb_table s2 = fcb_table s"
        "file_desc_table s2 = file_desc_table s" by (simp_all add: s2 same)
      have "heap_within ?U s s2" using f(4) set by (intro heap_within_join [OF at(2) f(4)]) auto
      note k2 = keeps_pages_within [OF this Uok]
      have "files_ok s2" by (rule files_ok_cong [OF assms(5)]) (simp_all add: same2)
      moreover have "setup_uvm i (cstr p) s = Inr (False, s2)"
        using at(1) Some op f(1) by (simp add: setup_uvm_attach assms(2))
      moreover have "ps \<noteq> []" 
      proof
        assume "ps = []"
        then have "attach_page pgd s = Inr (None, s)"
          using assms(1) kalloc_Nil [of s] by (simp add: attach_page_def vm_inv_def)
        with at(1) Some show False by simp
      qed
      ultimately show ?thesis
        using f(2) set(2) same2 k2 st2 True one_leak_same [OF same2(2,3)] by (intro exI [of _ False] exI [of _ s2]) auto
    next
      case False
      then obtain fd d e where fd: "free_fd s1 i = Some fd" "free_desc s1 = Some d" "lookup (mem s1) p = Some e"
        using fr lk by auto
      have e: "e < 65536" using lookup_less [OF fd(3)] root_count_less [of "mem s1"] by simp
      have ld: "loadable s e cl" using assms(7) fd(3) lk by simp
      note ld1 = loadable_image [OF img same(2) e ld]
      let ?n = "dir_file_size (dir_entry (mem s1) e)" and ?xs = "program_bytes (mem s) e cl"
      have room: "sint (fcb_count (fcb_table s1 e)) < 2 ^ 31 - 1" using assms(6) same by simp
      obtain t2 t3 t4 where t: "open_file i (cstr p) s1 = Inr (of_nat fd, t2)" "get_file_size i (of_nat fd) t2 = Inr (?n, t2)"
        "read_file i (of_nat fd) page ?n t2 = Inr (?n, t3)" "close_file i (of_nat fd) t3 = Inr ((), t4)"
        "mem t4 = written (mem s1) page ?xs" "free_memory t4 = free_memory s1" "kernel_end t4 = kernel_end s1"
        "files_step s1 t4" "process_table t4 = process_table s" "files_ok t4"
        "one_leak s1 t4"
        using open_load_close [OF assms(4) fd(3,1,2) ld1(1) ok1 assms(3) room pok] ld1(2) same by auto
      have fd100: "fd < 100" using fd(1) by (simp add: free_fd_Some)
      have "(of_nat fd :: i32) \<noteq> - 1"
      proof
        assume "(of_nat fd :: i32) = - 1"
        then have "sint (of_nat fd :: i32) = sint (- 1 :: i32)" by simp
        then show False using sint_fd [OF fd100] by simp
      qed
      with at(1) Some t have run: "setup_uvm i (cstr p) s = Inr (True, t4)"
        by (simp add: setup_uvm_attach assms(2))
      have len: "length ?xs \<le> 2097152" using ld by (simp add: program_bytes_def loadable_def Let_def)
      have k2: "keeps_pages {page} s1 t4" by (rule keeps_pages_written [OF pok len t(5,7)])
      have "page \<in> ?U" using T(3,5) by (auto simp: space_pages_def)
      then have k: "keeps_pages ?U s t4" by (intro keeps_pages_trans [OF k1 k2]) auto
      have "heap_within {user_page (mem s1) T} s1 (s1\<lparr>mem := mem t4\<rparr>)"
        unfolding t(5) using len by (intro within_written [of page]) (auto simp: T(3) in_range_def)
      note wr = write_user_page [OF T(1,2,4) this]
      have heap: "heap_inv t4 ps'"
        using wr(1) t(6,7) heap_inv_same [of t4 "s1\<lparr>mem := mem t4\<rparr>" ps'] by simp
      have pb: "unat page + 2097152 \<le> 2 ^ 64" using page_ok_bounds(2) [OF pok] by simp
      have byt: "bytes (mem t4) page 2097152 = ?xs @ replicate (2097152 - length ?xs) 0" (is "_ = ?ys")
      proof (rule nth_equalityI)
        show "length (bytes (mem t4) page 2097152) = length ?ys" using len by simp
        fix k assume "k < length (bytes (mem t4) page 2097152)"
        then have k: "k < 2097152" by simp
        have in_p: "in_range page 2097152 (page + of_nat k)" using k by (auto simp: in_range_add)
        have u: "unat (of_nat k :: u64) = k" using k by (intro unat_of_nat_small) simp
        then have "mem t4 (page + of_nat k) = ?ys ! k"
          using T(6) in_p k unfolding t(5) written_def in_range_def by (simp add: nth_append)
        then show "bytes (mem t4) page 2097152 ! k = ?ys ! k" using k by simp
      qed
      have "\<exists>T ps' e. heap_inv t4 ps' \<and> addr_space (mem t4) (kernel_end t4) pgd T
          \<and> space_pages (mem t4) T \<inter> set ps' = {} \<and> space_pages (mem t4) T \<union> set ps' = ?U
          \<and> lookup (mem s) p = Some e
          \<and> bytes (mem t4) (user_page (mem t4) T) 2097152
             = program_bytes (mem s) e cl @ replicate (2097152 - length (program_bytes (mem s) e cl)) 0"
        using wr(2-4) T(3-5) t(7) heap byt fd(3) lk
        by (intro exI [of _ T] exI [of _ ps'] exI [of _ e]) simp
      with run t(9-11) k files_step_trans [OF st1 t(8)] one_leak_cong [OF same(2,3)] show ?thesis
        by (intro exI [of _ True] exI [of _ t4]) simp
    qed
  qed
qed

end
