(* ===== verification/Processes.thy ===== *)
theory Processes
  imports Rounds Spaces
begin

text \<open>
  The kernel invariant: the scheduler invariant, and every live process with a stack, page tables
  and a user page of its own, all of them off the free list; open files counted; process ids
  distinct; the running process in its own address space. \<open>fork\<close>, \<open>exec\<close>, \<open>exit\<close>, \<open>wait\<close>, \<open>sleep\<close>,
  \<open>wake_up\<close> and \<open>yield\<close> (process/process.c) keep it.
\<close>

section \<open>The invariant\<close>

definition live :: "kernel \<Rightarrow> nat set" where
  "live s = {i. 0 < i \<and> i < NUM_PROC \<and> p_state (process_table s i) \<noteq> PROC_UNUSED}"

definition process_ok :: "memory \<Rightarrow> u64 \<Rightarrow> Process \<Rightarrow> table_map \<Rightarrow> bool" where
  "process_ok m e p T \<longleftrightarrow> addr_space m e (p_page_map p) T \<and> page_ok e (p_stack p)
     \<and> p_stack p \<notin> space_pages m T \<and> p_tf p = p_stack p + PAGE_SIZE - TRAPFRAME_SIZE"

definition owned :: "memory \<Rightarrow> Process \<Rightarrow> table_map \<Rightarrow> u64 set" where
  "owned m p T = insert (p_stack p) (space_pages m T)"

definition memory_ok :: "'a files_scheme \<Rightarrow> nat set \<Rightarrow> (nat \<Rightarrow> table_map) \<Rightarrow> u64 list \<Rightarrow> bool" where
  "memory_ok s L T ps \<longleftrightarrow> heap_inv s ps
     \<and> (\<forall>i \<in> L. process_ok (mem s) (kernel_end s) (process_table s i) (T i)
          \<and> owned (mem s) (process_table s i) (T i) \<inter> set ps = {})
     \<and> (\<forall>i \<in> L. \<forall>j \<in> L. i \<noteq> j \<longrightarrow>
          owned (mem s) (process_table s i) (T i) \<inter> owned (mem s) (process_table s j) (T j) = {})"

definition pids_ok :: "kernel \<Rightarrow> nat set \<Rightarrow> bool" where
  "pids_ok s L \<longleftrightarrow> 0 < sint (pid_num s) \<and> inj_on (\<lambda>i. p_pid (process_table s i)) L
     \<and> (\<forall>i \<in> L. 0 < sint (p_pid (process_table s i)) \<and> sint (p_pid (process_table s i)) < sint (pid_num s))"

definition kernel_inv ::
    "kernel \<Rightarrow> nat list \<Rightarrow> nat list \<Rightarrow> nat list \<Rightarrow> (nat \<Rightarrow> table_map) \<Rightarrow> u64 list \<Rightarrow> bool" where
  "kernel_inv s R W K T ps \<longleftrightarrow> sched_inv s R W K \<and> memory_ok s (live s) T ps \<and> files_ok s \<and> pids_ok s (live s)
     \<and> (\<forall>k \<in> set K. p_wait (process_table s k) = p_pid (process_table s k))
     \<and> ttbr0 s = V2P (p_page_map (process_table s (current_process s)))"

lemma live_queues:
  assumes "sched_inv s R W K"
  shows "live s = insert (current_process s) (set (R @ W @ K)) - {0}"
proof -
  let ?c = "current_process s"
  have st: "p_state (process_table s i) = state_of ?c R W K i" if "i < NUM_PROC" for i
    using assms that by (simp add: sched_inv_def)
  have u: "state_of ?c R W K i \<noteq> PROC_UNUSED \<longleftrightarrow> i = ?c \<or> i \<in> set (R @ W @ K) \<or> i = 0" for i
    by (simp add: state_of_def)
  have b: "?c < NUM_PROC" "set (R @ W @ K) \<subseteq> {1..<NUM_PROC}" using assms by (simp_all only: sched_inv_def)
  show ?thesis
  proof (rule set_eqI)
    fix i show "i \<in> live s \<longleftrightarrow> i \<in> insert ?c (set (R @ W @ K)) - {0}"
      using st [of i] u [of i] b by (cases "i < NUM_PROC") (auto simp only: live_def mem_Collect_eq insert_iff Diff_iff empty_iff atLeastLessThan_iff subset_iff)
  qed
qed

lemma owned_ok: "process_ok m e p T \<Longrightarrow> q \<in> owned m p T \<Longrightarrow> page_ok e q"
  using space_pages_ok by (auto simp: process_ok_def owned_def)

lemma memory_okD:
  assumes "memory_ok s L T ps" "i \<in> L"
  shows "heap_inv s ps" "process_ok (mem s) (kernel_end s) (process_table s i) (T i)"
    "owned (mem s) (process_table s i) (T i) \<inter> set ps = {}"
    "j \<in> L \<Longrightarrow> i \<noteq> j \<Longrightarrow>
       owned (mem s) (process_table s i) (T i) \<inter> owned (mem s) (process_table s j) (T j) = {}"
  using assms by (simp_all add: memory_ok_def)

text \<open>A process whose tables are untouched keeps its space.\<close>

lemma process_ok_page:
  assumes "process_ok m e p T" "\<forall>q \<in> owned m p T. same_page m m' q"
  shows "process_ok m' e p T" "owned m' p T = owned m p T"
proof -
  have "\<forall>q \<in> ran T. same_page m m' q" using assms(2) by (auto simp: owned_def space_pages_def)
  moreover have "addr_space m e (p_page_map p) T" using assms(1) by (simp add: process_ok_def)
  ultimately show "process_ok m' e p T" "owned m' p T = owned m p T"
    using addr_space_page [of m e "p_page_map p" T m'] assms(1) by (simp_all add: process_ok_def owned_def)
qed

text \<open>
  The processes of \<open>L\<close> are as they were when only pages outside all of them were changed and the
  new free list avoids them.
\<close>

lemma memory_ok_keeps:
  assumes "memory_ok s L T ps" "keeps_pages U s s'" "heap_inv s' ps'"
    "\<forall>i \<in> L. process_table s' i = process_table s i"
    "\<forall>i \<in> L. owned (mem s) (process_table s i) (T i) \<inter> (U \<union> set ps') = {}"
  shows "memory_ok s' L T ps'"
    and "\<forall>i \<in> L. owned (mem s') (process_table s' i) (T i) = owned (mem s) (process_table s i) (T i)"
proof -
  have ke: "kernel_end s' = kernel_end s" using assms(2) by (simp add: keeps_pages_def)
  have *: "process_ok (mem s') (kernel_end s') (process_table s' i) (T i)"
    "owned (mem s') (process_table s' i) (T i) = owned (mem s) (process_table s i) (T i)" if "i \<in> L" for i
  proof -
    have i: "process_ok (mem s) (kernel_end s) (process_table s i) (T i)" using assms(1) that by (simp add: memory_ok_def)
    have "\<forall>q \<in> owned (mem s) (process_table s i) (T i). same_page (mem s) (mem s') q"
      using owned_ok [OF i] assms(2,5) that by (auto simp: keeps_pages_def)
    from process_ok_page [OF i this] assms(4) that ke
    show "process_ok (mem s') (kernel_end s') (process_table s' i) (T i)"
      "owned (mem s') (process_table s' i) (T i) = owned (mem s) (process_table s i) (T i)" by simp_all
  qed
  then show "\<forall>i \<in> L. owned (mem s') (process_table s' i) (T i) = owned (mem s) (process_table s i) (T i)" by blast
  have "owned (mem s') (process_table s' i) (T i) \<inter> set ps' = {}" if "i \<in> L" for i
    using *(2) [OF that] assms(5) that by auto
  moreover have "owned (mem s') (process_table s' i) (T i) \<inter> owned (mem s') (process_table s' j) (T j) = {}"
    if "i \<in> L" "j \<in> L" "i \<noteq> j" for i j
    using *(2) that assms(1) by (simp add: memory_ok_def)
  ultimately show "memory_ok s' L T ps'" unfolding memory_ok_def using assms(3) *(1) by blast
qed

lemma memory_ok_fields:
  assumes "memory_ok s L T ps" "mem s' = mem s" "free_memory s' = free_memory s" "kernel_end s' = kernel_end s"
    "\<And>i. p_page_map (process_table s' i) = p_page_map (process_table s i)"
    "\<And>i. p_stack (process_table s' i) = p_stack (process_table s i)"
    "\<And>i. p_tf (process_table s' i) = p_tf (process_table s i)"
  shows "memory_ok s' L T ps"
proof -
  have "process_ok (mem s') (kernel_end s') (process_table s' i) (T i)
      \<longleftrightarrow> process_ok (mem s) (kernel_end s) (process_table s i) (T i)"
    "owned (mem s') (process_table s' i) (T i) = owned (mem s) (process_table s i) (T i)" for i
    by (simp_all only: process_ok_def owned_def assms(2-))
  with assms(1) heap_inv_same [OF assms(2-4), of ps] show ?thesis by (simp add: memory_ok_def)
qed

lemma kernel_inv_sched_step:
  assumes "kernel_inv s R W K T ps" "sched_step s s'" "sched_inv s' R' W' K'"
    "insert (current_process s') (set (R' @ W' @ K')) - {0} = insert (current_process s) (set (R @ W @ K)) - {0}"
    "ttbr0 s' = V2P (p_page_map (process_table s (current_process s')))"
    "\<forall>k \<in> set K'. p_wait (process_table s' k) = p_pid (process_table s' k)"
  shows "kernel_inv s' R' W' K' T ps"
proof -
  note f = sched_step_fields [OF assms(2)]
  have i: "sched_inv s R W K" using assms(1) by (simp add: kernel_inv_def)
  have l: "live s' = live s" using live_queues [OF i] live_queues [OF assms(3)] assms(4) by simp
  have inv: "memory_ok s (live s) T ps" "files_ok s" "pids_ok s (live s)"
    using assms(1) by (simp_all only: kernel_inv_def)
  have "memory_ok s' (live s) T ps" by (rule memory_ok_fields [OF inv(1)]) (rule f)+
  moreover have "files_ok s'" by (rule files_ok_cong [OF inv(2)]) (simp_all only: f)
  moreover have "pids_ok s' (live s)" using inv(3) by (simp add: pids_ok_def f)
  ultimately show ?thesis using assms(3,5,6) by (simp add: kernel_inv_def l f)
qed

lemma kernel_invD:
  assumes "kernel_inv s R W K T ps"
  shows "sched_inv s R W K" "memory_ok s (live s) T ps" "files_ok s" "pids_ok s (live s)"
    "k \<in> set K \<Longrightarrow> p_wait (process_table s k) = p_pid (process_table s k)"
    "ttbr0 s = V2P (p_page_map (process_table s (current_process s)))" "heap_inv s ps"
    "i \<in> live s \<Longrightarrow> process_ok (mem s) (kernel_end s) (process_table s i) (T i)"
  using assms by (auto simp: kernel_inv_def memory_ok_def)

lemma kernel_inv_current:
  assumes "kernel_inv s R W K T ps"
  shows "current_process s < NUM_PROC" "current_process s \<notin> set (R @ W @ K)" "set (R @ W @ K) \<subseteq> {1..<NUM_PROC}"
    "distinct (R @ W @ K)"
  using kernel_invD(1) [OF assms] by (auto simp: sched_inv_def queues_ok_def)

section \<open>Scheduling\<close>

lemma next_process_set: "insert (next_process R) (set (tl R)) - {0} = set R - {0}"
  by (cases R) (auto simp: next_process_def)

lemma kernel_yield_switch:
  assumes "kernel_inv s R W K T ps" "R \<noteq> []"
  shows "\<exists>s'. yield s = Inr (Switched, s') \<and> switched To_user s R s'
    \<and> kernel_inv s' (tl R @ (if current_process s = 0 then [] else [current_process s])) W K T ps"
proof -
  obtain s' where s': "yield s = Inr (Switched, s')" "switched To_user s R s'"
    "sched_inv s' (tl R @ (if current_process s = 0 then [] else [current_process s])) W K"
    "\<forall>j. p_wait (process_table s' j) = p_wait (process_table s j)"
    using inv_yield(2) [OF kernel_invD(1) [OF assms(1)] assms(2)] by blast
  have st: "sched_step s s'" using s'(2) by (simp add: switched_def)
  have "kernel_inv s' (tl R @ (if current_process s = 0 then [] else [current_process s])) W K T ps"
    using s'(2,4) next_process_set [of R] kernel_invD(5) [OF assms(1)] sched_step_fields(10) [OF st]
    by (intro kernel_inv_sched_step [OF assms(1) st s'(3)]) (auto simp: switched_def)
  with s' show ?thesis by blast
qed

lemma kernel_yield:
  assumes "kernel_inv s R W K T ps"
  shows "\<exists>r s' R'. yield s = Inr (r, s') \<and> kernel_inv s' R' W K T ps \<and> sched_step s s'"
proof (cases "R = []")
  case True
  with inv_yield(1) [OF kernel_invD(1) [OF assms]] assms show ?thesis by auto
next
  case False
  from kernel_yield_switch [OF assms this] show ?thesis by (auto simp: switched_def)
qed

lemma kernel_wake_up:
  assumes "kernel_inv s R W K T ps"
  shows "\<exists>s'. wake_up v s = Inr ((), s') \<and> sched_step s s' \<and> same_cpu s s'
    \<and> kernel_inv s' (R @ filter (waits_for v s) W) (filter (\<lambda>j. \<not> waits_for v s j) W) K T ps
    \<and> (\<forall>j. p_wait (process_table s' j) = p_wait (process_table s j))"
proof -
  obtain s' where s': "wake_up v s = Inr ((), s')" "sched_step s s'" "same_cpu s s'"
    "sched_inv s' (R @ filter (waits_for v s) W) (filter (\<lambda>j. \<not> waits_for v s j) W) K"
    "\<forall>j. p_wait (process_table s' j) = p_wait (process_table s j)"
    using inv_wake_up [OF kernel_invD(1) [OF assms], of v] by blast
  have "kernel_inv s' (R @ filter (waits_for v s) W) (filter (\<lambda>j. \<not> waits_for v s j) W) K T ps"
    using s'(3,5) kernel_invD(5,6) [OF assms] sched_step_fields(10) [OF s'(2)]
    by (intro kernel_inv_sched_step [OF assms s'(2,4)]) (auto simp: same_cpu_def)
  with s' show ?thesis by blast
qed

lemma kernel_sleep:
  assumes "kernel_inv s R W K T ps" "current_process s \<noteq> 0"
  shows "\<exists>s'. sleep v c s = Inr ((), s') \<and> switched c s R s' \<and> waits_for v s' (current_process s)
    \<and> kernel_inv s' (tl R) (W @ [current_process s]) K T ps
    \<and> (\<forall>j. j \<noteq> current_process s \<longrightarrow> p_wait (process_table s' j) = p_wait (process_table s j))"
proof -
  obtain s' where s': "sleep v c s = Inr ((), s')" "switched c s R s'"
    "sched_inv s' (tl R) (W @ [current_process s]) K"
    "\<forall>j. p_wait (process_table s' j) = (if j = current_process s then v else p_wait (process_table s j))"
    using inv_sleep [OF kernel_invD(1) [OF assms(1)] assms(2), of v c] by blast
  have st: "sched_step s s'" using s'(2) by (simp add: switched_def)
  have "current_process s \<notin> set K" using kernel_inv_current(2) [OF assms(1)] by simp
  then have "kernel_inv s' (tl R) (W @ [current_process s]) K T ps"
    using s'(2,4) next_process_set [of R] kernel_invD(5) [OF assms(1)] sched_step_fields(10) [OF st]
    by (intro kernel_inv_sched_step [OF assms(1) st s'(3)]) (auto simp: switched_def)
  with s' show ?thesis by (simp add: waits_for_def)
qed

lemma kernel_exit:
  assumes "kernel_inv s R W K T ps" "current_process s \<noteq> 0"
  defines "R' \<equiv> R @ filter (waits_for (- 3) s) W" and "W' \<equiv> filter (\<lambda>j. \<not> waits_for (- 3) s j) W"
  shows "\<exists>s'. exit s = Inr ((), s') \<and> switched Exited s R' s'
    \<and> kernel_inv s' (tl R') W' (K @ [current_process s]) T ps"
proof -
  obtain s' where s': "exit s = Inr ((), s')" "switched Exited s R' s'"
    "sched_inv s' (tl R') W' (K @ [current_process s])"
    "\<forall>j. p_wait (process_table s' j)
          = (if j = current_process s then p_pid (process_table s j) else p_wait (process_table s j))"
    using inv_exit [OF kernel_invD(1) [OF assms(1)] assms(2)] unfolding R'_def W'_def by blast
  have st: "sched_step s s'" using s'(2) by (simp add: switched_def)
  have "set R' \<union> set W' = set R \<union> set W" by (auto simp: R'_def W'_def)
  then have "kernel_inv s' (tl R') W' (K @ [current_process s]) T ps"
    using s'(2,4) next_process_set [of R'] kernel_invD(5) [OF assms(1)] sched_step_fields(10) [OF st]
    by (intro kernel_inv_sched_step [OF assms(1) st s'(3)]) (auto simp: switched_def)
  with s' show ?thesis by blast
qed


section \<open>Collecting a killed process\<close>

lemma files_ok_drop:
  assumes "files_ok s"
    "\<And>j k. j < 10 \<Longrightarrow> k < 100 \<Longrightarrow>
       p_file (process_table s' j) k = None \<or> p_file (process_table s' j) k = p_file (process_table s j) k"
    "file_desc_table s' = file_desc_table s" "fcb_table s' = fcb_table s"
  shows "files_ok s'"
proof -
  have "holders s' f \<subseteq> holders s f" for f
  proof
    fix x assume "x \<in> holders s' f"
    then obtain j k d where x: "x = (j, k)" "j < 10" "k < 100" "p_file (process_table s' j) k = Some d"
      "fcb (file_desc_table s d) = Some f" using assms(3) by (auto simp: holders_def)
    then have "p_file (process_table s j) k = Some d" using assms(2) [OF x(2,3)] x(4) by auto
    with x show "x \<in> holders s f" by (simp add: holders_def)
  qed
  then have "card (holders s' f) \<le> card (holders s f)" for f by (intro card_mono) simp_all
  then have "int (card (holders s' f)) \<le> sint (fcb_count (fcb_table s' f))" for f
    using files_okD(3) [OF assms(1), of f] assms(4) by (metis nat_int_comparison(3) order_trans)
  moreover have "fcb (file_desc_table s' d) \<noteq> None"
    if "j < 10" "k < 100" "p_file (process_table s' j) k = Some d" for j k d
    using assms(2) [OF that(1,2)] files_okD(1) [OF assms(1) that(1,2)] that(3) assms(3) by auto
  ultimately show ?thesis using files_okD(2) [OF assms(1)] assms(3) unfolding files_ok_def by auto
qed

text \<open>\<open>reap\<close> gives back the stack, the tables and the user page of a killed process.\<close>

lemma reap_returns:
  fixes s :: kernel
  assumes "memory_ok s L T ps" "i \<in> L" "p_state (process_table s i) = PROC_KILLED"
  shows "\<exists>s' ps'. reap i s = Inr ((), s') \<and> heap_inv s' ps'
     \<and> set ps' = set ps \<union> owned (mem s) (process_table s i) (T i)
     \<and> keeps_pages (set ps \<union> owned (mem s) (process_table s i) (T i)) s s'
     \<and> (\<exists>m f. s' = update_process i (\<lambda>_. zero_process) (s\<lparr>mem := m, free_memory := f\<rparr>))"
proof -
  let ?p = "process_table s i" let ?O = "owned (mem s) ?p (T i)"
  have inv: "heap_inv s ps" "process_ok (mem s) (kernel_end s) ?p (T i)" "?O \<inter> set ps = {}"
    using assms(1,2) by (simp_all add: memory_ok_def)
  have st: "page_ok (kernel_end s) (p_stack ?p)" "p_stack ?p \<notin> set ps" "p_stack ?p \<notin> space_pages (mem s) (T i)"
    and sp: "addr_space (mem s) (kernel_end s) (p_page_map ?p) (T i)"
    using inv by (auto simp: process_ok_def owned_def)
  note fr = kfree_page [OF inv(1) st(1,2)]
  let ?s1 = "s\<lparr>mem := st64 (mem s) (p_stack ?p) (free_memory s), free_memory := p_stack ?p\<rparr>"
  have w1: "heap_within {p_stack ?p} s ?s1"
    using heap_within_set_entry [of "{p_stack ?p}" s s "p_stack ?p" 0 "free_memory s"] by (simp add: st64_set_entry)
  have "same_page (mem s) (mem ?s1) q" if "q \<in> space_pages (mem s) (T i)" for q
    using st that by (intro within_page [OF w1 space_pages_ok [OF sp that]]) auto
  then have sp1: "addr_space (mem ?s1) (kernel_end ?s1) (p_page_map ?p) (T i)"
    "space_pages (mem ?s1) (T i) = space_pages (mem s) (T i)"
    using addr_space_page [OF sp, of "mem ?s1"] by (auto simp: space_pages_def)
  have "space_pages (mem ?s1) (T i) \<inter> set (p_stack ?p # ps) = {}"
    using inv(3) st(3) sp1(2) by (auto simp: owned_def)
  from free_vm_space [OF fr(2) sp1(1) this] obtain s2 ps2 where s2: "free_vm (p_page_map ?p) ?s1 = Inr ((), s2)"
    "heap_inv s2 ps2" "set ps2 = insert (p_stack ?p) (set ps) \<union> space_pages (mem s) (T i)"
    "heap_within (insert (p_stack ?p) (set ps) \<union> space_pages (mem s) (T i)) ?s1 s2"
    unfolding sp1(2) list.set by blast
  have w: "heap_within (set ps \<union> ?O) s s2"
    by (rule heap_within_join [OF w1 s2(4)]) (auto simp: owned_def)
  have ok: "\<forall>q \<in> set ps \<union> ?O. page_ok (kernel_end s) q"
    using owned_ok [OF inv(2)] heap_pages_ok [OF inv(1)] by blast
  let ?s3 = "update_process i (\<lambda>_. zero_process) s2"
  have "reap i s = Inr ((), ?s3)" using assms(3) fr(1) s2(1) by (simp add: reap_def Let_def)
  moreover have "heap_inv ?s3 ps2" using s2(2) by (simp add: heap_inv_def update_process_def)
  moreover have "set ps2 = set ps \<union> ?O" using s2(3) by (auto simp: owned_def)
  moreover have "keeps_pages (set ps \<union> ?O) s ?s3"
    using keeps_pages_within [OF w ok] by (simp add: keeps_pages_def update_process_def)
  moreover obtain m f where "s2 = s\<lparr>mem := m, free_memory := f\<rparr>" using heap_stepE [OF heap_withinD(1) [OF w]] .
  then have "\<exists>m f. ?s3 = update_process i (\<lambda>_. zero_process) (s\<lparr>mem := m, free_memory := f\<rparr>)" by blast
  ultimately show ?thesis by blast
qed

lemma kernel_wait_found:
  assumes "kernel_inv s R W K T ps" "find (waits_for pid s) K = Some i"
  shows "\<exists>s' ps'. wait pid s = Inr (Done (), s') \<and> kernel_inv s' R W (remove1 i K) T ps'
     \<and> set ps' = set ps \<union> owned (mem s) (process_table s i) (T i) \<and> process_table s' i = zero_process
     \<and> current_process s' = current_process s \<and> conts s' = conts s
     \<and> (\<forall>j \<in> live s'. owned (mem s') (process_table s' j) (T j) = owned (mem s) (process_table s j) (T j))
     \<and> live s' = live s - {i} \<and> key_buffer s' = key_buffer s
     \<and> (\<forall>j. j \<noteq> i \<longrightarrow> p_tf (process_table s' j) = p_tf (process_table s j))
     \<and> keeps_pages (set ps \<union> owned (mem s) (process_table s i) (T i)) s s'"
proof -
  let ?c = "current_process s" define K' where "K' = remove1 i K"
  let ?O = "owned (mem s) (process_table s i) (T i)"
  note inv = kernel_invD [OF assms(1)] and cur = kernel_inv_current [OF assms(1)]
  have dK: "distinct K" using cur(4) by simp
  note f = find_filter [OF assms(2) dK, folded K'_def]
  have i: "i \<in> live s" "i \<noteq> ?c" "i \<noteq> 0" "i < NUM_PROC" "i \<notin> set R" "i \<notin> set W"
    using f(3) cur live_queues [OF inv(1)] by auto
  have ne: "\<not> is_list_empty (kill_list s)"
    using f(3) inv(1) is_list_empty_repr [of "process_table s" "kill_list s" K]
    by (auto simp: sched_inv_def queues_ok_def)
  have m: "sched_mid s (state_of ?c R W K) R W K" using inv(1) by (simp add: sched_inv_mid)
  obtain s1 where s1: "on_kill (remove_list pid) s = Inr (Item i, s1)" "sched_step s s1" "same_cpu s s1"
    "sched_mid s1 (state_of ?c R W K) R W K'" "\<forall>j. p_wait (process_table s1 j) = p_wait (process_table s j)"
    using mid_remove_kill [OF m, of pid] assms(2) unfolding waits_for_def [abs_def] K'_def by auto
  note st = sched_step_fields [OF s1(2)]
  have mem1: "memory_ok s1 (live s) T ps" by (rule memory_ok_fields [OF inv(2)]) (rule st)+
  have O1: "owned (mem s1) (process_table s1 j) (T j) = owned (mem s) (process_table s j) (T j)" for j
    by (simp add: owned_def st)
  have "p_state (process_table s1 i) = PROC_KILLED"
    using s1(4) i f(3) by (simp add: sched_mid_def state_of_def)
  from reap_returns [OF mem1 i(1) this] obtain s2 ps2 m2 f2 where s2: "reap i s1 = Inr ((), s2)" "heap_inv s2 ps2"
    "set ps2 = set ps \<union> ?O" "keeps_pages (set ps \<union> ?O) s1 s2"
    "s2 = update_process i (\<lambda>_. zero_process) (s1\<lparr>mem := m2, free_memory := f2\<rparr>)" unfolding O1 by blast
  have tbl: "process_table s2 j = (if j = i then zero_process else process_table s1 j)" for j
    by (simp add: s2(5) update_process_def)
  have c2: "current_process s2 = ?c" "conts s2 = conts s" "ttbr0 s2 = ttbr0 s" "pid_num s2 = pid_num s"
    "file_desc_table s2 = file_desc_table s" "fcb_table s2 = fcb_table s"
    "ready_list s2 = ready_list s1" "wait_list s2 = wait_list s1" "kill_list s2 = kill_list s1"
    using s1(3) st by (simp_all add: s2(5) update_process_def same_cpu_def)
  have q: "queues_ok (process_table s2) (ready_list s1) (wait_list s1) (kill_list s1) R W K'"
  proof -
    have "queue_repr (process_table s2) l xs = queue_repr (process_table s1) l xs" if "i \<notin> set xs" for l xs
      using that by (intro queue_repr_cong) (auto simp: tbl)
    with s1(4) i(5,6) f(4) show ?thesis by (simp add: sched_mid_def queues_ok_def)
  qed
  have setK: "set K = insert i (set K')" using f(3) dK unfolding K'_def by (auto simp: set_remove1_eq)
  have sch: "sched_inv s2 R W K'"
  proof -
    have "p_state (process_table s2 j) = state_of ?c R W K' j" if "j < NUM_PROC" for j
    proof (cases "j = i")
      case True
      with i f(4) show ?thesis by (simp add: tbl state_of_def zero_process_def)
    next
      case False
      then have "state_of ?c R W K j = state_of ?c R W K' j" using setK by (simp add: state_of_def)
      with False s1(4) that show ?thesis by (simp add: tbl sched_mid_def)
    qed
    moreover have "p_state (process_table s2 j) \<noteq> PROC_UNUSED \<longrightarrow> (p_pid (process_table s2 j) = 0 \<longleftrightarrow> j = 0)"
      if "j < NUM_PROC" for j
    proof (cases "j = i")
      case False
      with s1(4) that show ?thesis by (simp add: tbl sched_mid_def)
    qed (simp add: tbl zero_process_def)
    ultimately show ?thesis using q cur(1,2,3) c2 setK by (auto simp: sched_inv_def)
  qed
  have lv: "live s2 = live s - {i}"
    unfolding live_queues [OF inv(1)] live_queues [OF sch] c2(1) using setK i(2,3,5,6) f(4) by auto
  have same: "\<forall>j \<in> live s2. process_table s2 j = process_table s1 j" using lv tbl by simp
  have disj: "owned (mem s1) (process_table s1 j) (T j) \<inter> (set ps \<union> ?O \<union> set ps2) = {}" if "j \<in> live s2" for j
  proof -
    have j: "j \<in> live s" "j \<noteq> i" using that lv by simp_all
    from memory_okD(3) [OF inv(2) j(1)] memory_okD(4) [OF inv(2) j(1) i(1) j(2)]
    show ?thesis unfolding O1 s2(3) by blast
  qed
  have "memory_ok s1 (live s2) T ps" using mem1 lv by (auto simp: memory_ok_def)
  from memory_ok_keeps [OF this s2(4,2) same] disj have mem2: "memory_ok s2 (live s2) T ps2"
    "\<forall>j \<in> live s2. owned (mem s2) (process_table s2 j) (T j) = owned (mem s) (process_table s j) (T j)"
    by (auto simp: O1)
  have "files_ok s2"
    by (rule files_ok_drop [OF inv(3)]) (simp_all add: tbl c2 st zero_process_def)
  moreover have "pids_ok s2 (live s2)"
    using inv(4) tbl unfolding pids_ok_def c2 lv by (auto simp: st inj_on_def)
  moreover have "\<forall>k \<in> set K'. p_wait (process_table s2 k) = p_pid (process_table s2 k)"
    using inv(5) setK s1(5) st tbl f(4) by auto
  moreover have "ttbr0 s2 = V2P (p_page_map (process_table s2 (current_process s2)))"
    using inv(6) i(2) by (simp add: c2 tbl st)
  ultimately have "kernel_inv s2 R W K' T ps2" using sch mem2(1) by (simp add: kernel_inv_def)
  moreover have "wait pid s = Inr (Done (), s2)" using ne s1(1) s2(1) by (simp add: wait_def)
  moreover have "keeps_pages (set ps \<union> ?O) s s2" using s2(4) by (simp add: keeps_pages_def st)
  ultimately show ?thesis using s2(3) tbl c2(1,2) mem2(2) lv st unfolding K'_def [symmetric]
    by (intro exI [of _ s2] exI [of _ ps2]) (simp add: s2(5) update_process_def)
qed


lemma kernel_wait_none:
  assumes "kernel_inv s R W K T ps" "find (waits_for pid s) K = None" "current_process s \<noteq> 0"
  shows "\<exists>s'. wait pid s = Inr (Switched, s') \<and> sched_step s s' \<and> current_process s' = next_process R
     \<and> conts s' = (conts s)(current_process s := Wait_loop pid) \<and> waits_for (- 3) s' (current_process s)
     \<and> kernel_inv s' (tl R) (W @ [current_process s]) K T ps"
proof -
  note inv = kernel_invD [OF assms(1)]
  have "\<exists>s1. (if \<not> is_list_empty (kill_list s) then on_kill (remove_list pid) s else Inr (Null, s)) = Inr (Null, s1)
      \<and> sched_step s s1 \<and> same_cpu s s1 \<and> sched_mid s1 (state_of (current_process s) R W K) R W K
      \<and> (\<forall>j. p_wait (process_table s1 j) = p_wait (process_table s j))"
  proof (cases "is_list_empty (kill_list s)")
    case True
    with inv(1) show ?thesis by (intro exI [of _ s]) (simp add: sched_inv_mid)
  next
    case False
    have m: "sched_mid s (state_of (current_process s) R W K) R W K" using inv(1) by (simp add: sched_inv_mid)
    from mid_remove_kill [OF m, of pid] assms(2) False show ?thesis unfolding waits_for_def [abs_def] by auto
  qed
  then obtain s1 where s1: "(if \<not> is_list_empty (kill_list s) then on_kill (remove_list pid) s else Inr (Null, s)) = Inr (Null, s1)"
    "sched_step s s1" "same_cpu s s1" "sched_mid s1 (state_of (current_process s) R W K) R W K"
    "\<forall>j. p_wait (process_table s1 j) = p_wait (process_table s j)" by blast
  have c: "current_process s1 = current_process s" "conts s1 = conts s" "ttbr0 s1 = ttbr0 s"
    using s1(3) by (simp_all add: same_cpu_def)
  have "sched_inv s1 R W K" using s1(4) c kernel_inv_current [OF assms(1)] by (simp add: sched_inv_mid)
  then have k1: "kernel_inv s1 R W K T ps"
    using c s1(5) inv(5,6) sched_step_fields(10) [OF s1(2)]
    by (intro kernel_inv_sched_step [OF assms(1) s1(2)]) auto
  then obtain s2 where s2: "sleep (- 3) (Wait_loop pid) s1 = Inr ((), s2)" "switched (Wait_loop pid) s1 R s2"
    "waits_for (- 3) s2 (current_process s)" "kernel_inv s2 (tl R) (W @ [current_process s]) K T ps"
    using kernel_sleep [OF k1, of "- 3" "Wait_loop pid"] assms(3) c by auto
  then show ?thesis
    using s1(1) c sched_step_trans [OF s1(2)]
    by (intro exI [of _ s2]) (simp add: wait_def switched_def)
qed

section \<open>Creating a process\<close>

text \<open>
  The state of \<open>alloc_new_process\<close> before the root table is allocated, and its memory: only the new
  stack page \<open>q\<close> is written.
\<close>

definition new_frame :: "u64 \<Rightarrow> u64 \<Rightarrow> memory \<Rightarrow> memory" where
  "new_frame q ret m = set_user_entry (q + PAGE_SIZE - TRAPFRAME_SIZE)
     (st64 (memset m q 0 (ucast PAGE_SIZE)) (q + PAGE_SIZE - TRAPFRAME_SIZE - 12 * 8 + 11 * 8) ret)"

lemma frame_in_page:
  assumes "page_ok e q"
  shows "k + n \<le> 288 \<Longrightarrow> \<exists>j. q + PAGE_SIZE - TRAPFRAME_SIZE + of_nat k = q + of_nat j \<and> j + n \<le> 2097152"
    and "\<exists>j. q + PAGE_SIZE - TRAPFRAME_SIZE - 12 * 8 + 11 * 8 = q + of_nat j \<and> j + 8 \<le> 2097152"
proof -
  show "\<exists>j. q + PAGE_SIZE - TRAPFRAME_SIZE + of_nat k = q + of_nat j \<and> j + n \<le> 2097152" if "k + n \<le> 288"
    using that by (intro exI [of _ "2096864 + k"]) (simp add: PAGE_SIZE_def TRAPFRAME_SIZE_def)
  show "\<exists>j. q + PAGE_SIZE - TRAPFRAME_SIZE - 12 * 8 + 11 * 8 = q + of_nat j \<and> j + 8 \<le> 2097152"
    by (intro exI [of _ "2096856"]) (simp add: PAGE_SIZE_def TRAPFRAME_SIZE_def)
qed

lemma st64_in_page:
  assumes "\<not> in_range q 2097152 x" "j + 8 \<le> 2097152"
  shows "st64 m (q + of_nat j) v x = m x"
proof (rule wr_other)
  fix i :: nat assume "i < 8"
  then have "in_range q 2097152 (q + of_nat j + of_nat i)"
    using assms(2) by (subst in_range_add) (auto intro!: exI [of _ "j + i"])
  with assms(1) show "x \<noteq> q + of_nat j + of_nat i" by auto
qed

lemma new_frame_outside:
  assumes "page_ok e q" "\<not> in_range q 2097152 x"
  shows "new_frame q ret m x = m x"
proof -
  let ?tf = "q + PAGE_SIZE - TRAPFRAME_SIZE"
  obtain a b c d where f: "?tf + 272 = q + of_nat a" "a + 8 \<le> 2097152" "?tf + 248 = q + of_nat b" "b + 8 \<le> 2097152"
    "?tf + 280 = q + of_nat c" "c + 8 \<le> 2097152" "?tf - 12 * 8 + 11 * 8 = q + of_nat d" "d + 8 \<le> 2097152"
    using frame_in_page(1) [OF assms(1), of 272 8] frame_in_page(1) [OF assms(1), of 248 8]
      frame_in_page(1) [OF assms(1), of 280 8] frame_in_page(2) [OF assms(1)] by auto
  show ?thesis
    unfolding new_frame_def set_user_entry_def f
    by (simp only: st64_in_page [OF assms(2)] f(2,4,6,8) memset_outside [OF assms(2)])
qed


definition new_process :: "i32 \<Rightarrow> u64 \<Rightarrow> u64 \<Rightarrow> Process \<Rightarrow> Process" where
  "new_process pid q g p = p\<lparr>p_stack := q, p_state := PROC_INIT, p_pid := pid,
     p_context := q + PAGE_SIZE - TRAPFRAME_SIZE - 12 * 8, p_tf := q + PAGE_SIZE - TRAPFRAME_SIZE, p_page_map := g\<rparr>"

lemma alloc_new_process_spec:
  assumes "find_unused_process s = Some i" "heap_inv s (q # g # ps)"
  shows "\<exists>m f. let s' = update_process i (new_process (pid_num s) q g)
        (s\<lparr>mem := m, free_memory := f, pid_num := pid_num s + 1, conts := (conts s)(i := To_user)\<rparr>)
      in alloc_new_process s = Inr (i, s') \<and> vm_inv s' [Pgd \<mapsto> g] ps \<and> keeps_pages {q, g} s s'
        \<and> same_page (new_frame q (trap_return s) (mem s)) m q"
proof -
  have ok: "page_ok (kernel_end s) q" "page_ok (kernel_end s) g" "q \<noteq> g" "q \<notin> set ps" "g \<notin> set ps"
    using assms(2) by (auto simp: heap_inv_def)
  note k1 = kalloc_Cons [OF assms(2)]
  let ?f1 = "ld64 (mem s) q" let ?m1 = "new_frame q (trap_return s) (mem s)"
  let ?f2 = "ld64 ?m1 g" let ?m2 = "memset ?m1 g 0 (ucast PAGE_SIZE)"
  have w1: "heap_within {q} s (s\<lparr>free_memory := ?f1, mem := ?m1\<rparr>)"
    using new_frame_outside [OF ok(1)] by (simp add: heap_within_def)
  have "\<forall>p \<in> set (g # ps). same_page (mem s) ?m1 p"
    using within_page [OF w1] heap_pages_ok [OF assms(2)] ok by auto
  then have h1: "heap_inv (s\<lparr>free_memory := ?f1, mem := ?m1\<rparr>) (g # ps)"
    using heap_inv_pages [OF k1(2), of ?m1] by simp
  define s3 where "s3 = update_process i (\<lambda>p. p\<lparr>p_stack := q, p_state := PROC_INIT, p_pid := pid_num s,
      p_context := q + PAGE_SIZE - TRAPFRAME_SIZE - 12 * 8, p_tf := q + PAGE_SIZE - TRAPFRAME_SIZE\<rparr>)
      (s\<lparr>free_memory := ?f1, mem := ?m1, pid_num := pid_num s + 1\<rparr>)"
  have h3: "heap_inv s3 (g # ps)" using h1 by (simp add: s3_def update_process_def heap_inv_def)
  have k2: "kalloc t = Inr (g, t\<lparr>free_memory := ?f2\<rparr>)"
    if "mem t = ?m1" "free_memory t = ?f1" "kernel_end t = kernel_end s" for t :: kernel
    using kalloc_Cons(1) [of t g ps] h1 that by (simp add: heap_inv_def)
  let ?s' = "update_process i (new_process (pid_num s) q g)
      (s\<lparr>mem := ?m2, free_memory := ?f2, pid_num := pid_num s + 1, conts := (conts s)(i := To_user)\<rparr>)"
  have s3: "mem s3 = ?m1" "kernel_end s3 = kernel_end s" by (simp_all add: s3_def update_process_def)
  have nz: "q \<noteq> 0" "g \<noteq> 0" using ok page_ok_bounds(4) by blast+
  have run: "alloc_new_process s = Inr (i, ?s')"
    using k1(1) k2 nz assms(1)
    by (simp add: alloc_new_process_def Let_def s3_def update_process_def new_frame_def new_process_def)
  have vm: "vm_inv ?s' [Pgd \<mapsto> g] ps"
    using new_page_map(1) [OF h3] by (simp add: s3 vm_inv_def heap_inv_def update_process_def)
  have "heap_within {g} (s\<lparr>free_memory := ?f1, mem := ?m1\<rparr>) (s\<lparr>free_memory := ?f1, mem := ?m2\<rparr>)"
    using heap_within_memset [OF heap_within_refl, of g "{g}" "s\<lparr>free_memory := ?f1, mem := ?m1\<rparr>"] by simp
  from heap_within_trans [OF w1 this] have w: "heap_within {q, g} s (s\<lparr>free_memory := ?f1, mem := ?m2\<rparr>)"
    by (simp add: insert_commute)
  have "keeps_pages {q, g} s ?s'"
    using keeps_pages_within [OF w] ok by (simp add: keeps_pages_def update_process_def)
  moreover have "same_page ?m1 ?m2 q"
    using not_in_other_page [OF ok(1,2,3)] memset_outside by (simp add: same_page_def)
  ultimately show ?thesis
    using run vm by (intro exI [of _ ?m2] exI [of _ ?f2]) (simp add: Let_def)
qed

lemma alloc_new_process_fails:
  assumes "find_unused_process s \<noteq> None" "heap_inv s ps" "length ps < 2"
  shows "alloc_new_process s = Inl Assert_failed"
proof -
  obtain i where i: "find_unused_process s = Some i" using assms(1) by blast
  show ?thesis
  proof (cases ps)
    case Nil
    with i assms(2) kalloc_Nil [of s] show ?thesis by (simp add: alloc_new_process_def)
  next
    case (Cons q qs)
    then have h: "heap_inv s [q]" using assms(2,3) by simp
    then have ok: "page_ok (kernel_end s) q" by (simp add: heap_inv_def)
    note k1 = kalloc_Cons [OF h]
    have "kalloc (t::kernel) = Inr (0, t)" if "free_memory t = ld64 (mem s) q" for t
      using k1(2) that by (intro kalloc_Nil) (simp add: heap_inv_def)
    with k1(1) i page_ok_bounds(4) [OF ok] show ?thesis
      by (simp add: alloc_new_process_def Let_def update_process_def)
  qed
qed

end
