(* ===== verification/Fork.thy ===== *)
theory Fork
  imports Processes
begin

text \<open>
  \<open>fork\<close> (process/process.c): the child gets a stack, tables and a copy of the user page of its own,
  shares the open files, and joins the ready queue; the kernel invariant holds again with the
  child in it.
\<close>

section \<open>Sharing the open files\<close>

text \<open>The child with only the slots in \<open>ks\<close> counted.\<close>

definition ghost :: "nat \<Rightarrow> nat list \<Rightarrow> kernel \<Rightarrow> kernel" where
  "ghost i ks s = update_process i (\<lambda>p. p\<lparr>p_file := (\<lambda>k. if k < 100 \<and> k \<notin> set ks then None else p_file p k)\<rparr>) s"

lemma ghost_fields:
  "p_file (process_table (ghost i ks s) j) k
     = (if j = i \<and> k < 100 \<and> k \<notin> set ks then None else p_file (process_table s j) k)"
  "file_desc_table (ghost i ks s) = file_desc_table s" "fcb_table (ghost i ks s) = fcb_table s"
  by (simp_all add: ghost_def update_process_def)

lemma ghost_all: "{..<100} \<subseteq> set ks \<Longrightarrow> ghost i ks s = s"
  by (auto simp: ghost_def update_process_def fun_eq_iff intro!: kernel.equality ext Process.equality)

definition counts_below :: "int \<Rightarrow> kernel \<Rightarrow> bool" where
  "counts_below n s \<longleftrightarrow> (\<forall>f. sint (fcb_count (fcb_table s f)) < n)
     \<and> (\<forall>d. fcb (file_desc_table s d) \<noteq> None \<longrightarrow>
          0 < sint (fd_count (file_desc_table s d)) \<and> sint (fd_count (file_desc_table s d)) < n)"

text \<open>The control block, the position and everything else but the counts stay.\<close>

definition only_counts :: "kernel \<Rightarrow> kernel \<Rightarrow> bool" where
  "only_counts s s' \<longleftrightarrow> (\<exists>a b. s' = s\<lparr>fcb_table := a, file_desc_table := b\<rparr>
     \<and> (\<forall>f. \<exists>n. a f = (fcb_table s f)\<lparr>fcb_count := n\<rparr>)
     \<and> (\<forall>d. \<exists>n. b d = (file_desc_table s d)\<lparr>fd_count := n\<rparr>))"

lemma only_counts_refl: "only_counts s s"
proof -
  have "\<exists>n. f = f\<lparr>fcb_count := n\<rparr>" for f :: FCB by (intro exI [of _ "fcb_count f"]) simp
  moreover have "\<exists>n. d = d\<lparr>fd_count := n\<rparr>" for d :: FileDesc by (intro exI [of _ "fd_count d"]) simp
  ultimately show ?thesis
    unfolding only_counts_def by (intro exI [of _ "fcb_table s"] exI [of _ "file_desc_table s"]) simp
qed

lemma only_counts_fields:
  assumes "only_counts s s'"
  shows "fcb (file_desc_table s' d) = fcb (file_desc_table s d)"
    "position (file_desc_table s' d) = position (file_desc_table s d)"
    "process_table s' = process_table s" "mem s' = mem s" "free_memory s' = free_memory s"
    "kernel_end s' = kernel_end s"
proof -
  obtain a b where s': "s' = s\<lparr>fcb_table := a, file_desc_table := b\<rparr>"
    and b: "\<forall>d. \<exists>n. b d = (file_desc_table s d)\<lparr>fd_count := n\<rparr>"
    using assms unfolding only_counts_def by blast
  obtain n where "b d = (file_desc_table s d)\<lparr>fd_count := n\<rparr>" using b by blast
  then show "fcb (file_desc_table s' d) = fcb (file_desc_table s d)"
    "position (file_desc_table s' d) = position (file_desc_table s d)" by (simp_all add: s')
  show "process_table s' = process_table s" "mem s' = mem s" "free_memory s' = free_memory s"
    "kernel_end s' = kernel_end s" by (simp_all add: s')
qed

definition count_up :: "nat \<Rightarrow> nat \<Rightarrow> kernel \<Rightarrow> kernel" where
  "count_up d f s = s\<lparr>file_desc_table := (file_desc_table s)
       (d := (file_desc_table s d)\<lparr>fd_count := fd_count (file_desc_table s d) + 1\<rparr>),
     fcb_table := (fcb_table s)(f := (fcb_table s f)\<lparr>fcb_count := fcb_count (fcb_table s f) + 1\<rparr>)\<rparr>"

lemma share_file_open:
  assumes "p_file (process_table s i) k = Some d" "fcb (file_desc_table s d) = Some f"
  shows "share_file i k s = Inr ((), count_up d f s)"
  using assms by (simp add: share_file_def fcb_at_def count_up_def Let_def)

lemma only_counts_up: "only_counts s s' \<Longrightarrow> only_counts s (count_up d f s')"
proof -
  assume "only_counts s s'"
  then obtain a b where s': "s' = s\<lparr>fcb_table := a, file_desc_table := b\<rparr>"
    and a: "\<And>f. \<exists>n. a f = (fcb_table s f)\<lparr>fcb_count := n\<rparr>"
    and b: "\<And>d. \<exists>n. b d = (file_desc_table s d)\<lparr>fd_count := n\<rparr>"
    unfolding only_counts_def by blast
  let ?a = "a(f := (a f)\<lparr>fcb_count := fcb_count (a f) + 1\<rparr>)"
  let ?b = "b(d := (b d)\<lparr>fd_count := fd_count (b d) + 1\<rparr>)"
  have "\<exists>n. ?a e = (fcb_table s e)\<lparr>fcb_count := n\<rparr>" for e using a [of e] by (cases "e = f") auto
  moreover have "\<exists>n. ?b e = (file_desc_table s e)\<lparr>fd_count := n\<rparr>" for e using b [of e] by (cases "e = d") auto
  moreover have "count_up d f s' = s\<lparr>fcb_table := ?a, file_desc_table := ?b\<rparr>" by (simp add: count_up_def s')
  ultimately show ?thesis unfolding only_counts_def by blast
qed

lemma counts_below_up:
  assumes "counts_below n s" "n < 2 ^ 31 - 1" "fcb (file_desc_table s d) = Some f" "0 \<le> sint (fcb_count (fcb_table s f))"
  shows "counts_below (n + 1) (count_up d f s)"
proof -
  have f: "sint (fcb_count (fcb_table s e)) < n" for e using assms(1) by (simp add: counts_below_def)
  have d: "0 < sint (fd_count (file_desc_table s e)) \<and> sint (fd_count (file_desc_table s e)) < n"
    if "fcb (file_desc_table s e) \<noteq> None" for e using assms(1) that by (simp add: counts_below_def)
  have "sint (fcb_count (fcb_table s f) + 1) = sint (fcb_count (fcb_table s f)) + 1"
    using f [of f] assms(2,4) by (subst sint_add_small) simp_all
  moreover have "sint (fd_count (file_desc_table s d) + 1) = sint (fd_count (file_desc_table s d)) + 1"
    using d [of d] assms(2,3) by (subst sint_add_small) simp_all
  ultimately have "sint (fcb_count (fcb_table (count_up d f s) e)) < n + 1"
    "fcb (file_desc_table s e) \<noteq> None \<longrightarrow> 0 < sint (fd_count (file_desc_table (count_up d f s) e))
       \<and> sint (fd_count (file_desc_table (count_up d f s) e)) < n + 1" for e
    using f [of e] f [of f] d [of e] d [of d] assms(3) by (auto simp: count_up_def)
  moreover have "fcb (file_desc_table (count_up d f s) e) = fcb (file_desc_table s e)" for e
    by (simp add: count_up_def)
  ultimately show ?thesis by (simp add: counts_below_def)
qed

lemma counts_below_mono: "counts_below n s \<Longrightarrow> n \<le> m \<Longrightarrow> counts_below m s"
  unfolding counts_below_def by (meson less_le_trans)

lemma files_ok_share:
  assumes "files_ok (ghost i ks s)" "counts_below n s" "n < 2 ^ 31 - 1" "i < 10" "k < 100"
    "p_file (process_table s i) k = Some d" "fcb (file_desc_table s d) = Some f"
  shows "files_ok (ghost i (ks @ [k]) (count_up d f s))"
proof -
  let ?g = "ghost i ks s" let ?g' = "ghost i (ks @ [k]) (count_up d f s)"
  have tbl: "fcb (file_desc_table ?g' e) = fcb (file_desc_table ?g e)" for e by (simp add: ghost_fields count_up_def)
  have pf: "p_file (process_table ?g' j) m = p_file (process_table ?g j) m" if "(j, m) \<noteq> (i, k)" for j m
    using that by (auto simp: ghost_fields count_up_def)
  have new: "p_file (process_table ?g' i) k = Some d" using assms(6) by (simp add: ghost_fields count_up_def)
  have sub: "holders ?g' e \<subseteq> (if e = f then insert (i, k) (holders ?g e) else holders ?g e)" for e
  proof
    fix x assume x: "x \<in> holders ?g' e"
    show "x \<in> (if e = f then insert (i, k) (holders ?g e) else holders ?g e)"
    proof (cases "x = (i, k)")
      case True
      with x new tbl assms(7) have "e = f" by (auto simp: holders_def ghost_fields)
      with True show ?thesis by simp
    next
      case False
      with x pf tbl show ?thesis by (auto simp: holders_def)
    qed
  qed
  have c: "0 \<le> sint (fcb_count (fcb_table s f))" "sint (fcb_count (fcb_table s f)) < n"
    using files_okD(3) [OF assms(1), of f] assms(2) by (simp_all add: ghost_fields counts_below_def)
  have cnt: "sint (fcb_count (fcb_table s f) + 1) = sint (fcb_count (fcb_table s f)) + 1"
    using c assms(3) by (subst sint_add_small) simp_all
  have "int (card (holders ?g' e)) \<le> sint (fcb_count (fcb_table ?g' e))" for e
  proof (cases "e = f")
    case True
    have "card (holders ?g' e) \<le> card (insert (i, k) (holders ?g e))" using sub [of e] True by (intro card_mono) auto
    also have "\<dots> \<le> Suc (card (holders ?g e))" by (rule card_insert_le_m1) simp_all
    finally show ?thesis using files_okD(3) [OF assms(1), of e] True cnt by (simp add: ghost_fields count_up_def)
  next
    case False
    have "card (holders ?g' e) \<le> card (holders ?g e)" using sub [of e] False by (intro card_mono) auto
    then show ?thesis using files_okD(3) [OF assms(1), of e] False by (simp add: ghost_fields count_up_def)
  qed
  moreover have "fcb (file_desc_table ?g' e) \<noteq> None"
    if "j < 10" "m < 100" "p_file (process_table ?g' j) m = Some e" for j m e
  proof (cases "(j, m) = (i, k)")
    case True
    with that(3) new assms(7) tbl show ?thesis by (simp add: ghost_fields)
  next
    case False
    with that files_okD(1) [OF assms(1) that(1,2)] pf tbl show ?thesis by simp
  qed
  moreover have "fd_count (file_desc_table ?g' e) \<noteq> 0" if "fcb (file_desc_table ?g' e) \<noteq> None" for e
    using counts_below_up [OF assms(2,3,7) c(1)] that by (auto simp: counts_below_def ghost_fields)
  ultimately show ?thesis unfolding files_ok_def by blast
qed

lemma share_files:
  assumes "files_ok (ghost i [] s)" "counts_below (2 ^ 31 - 101) s" "i < 10" "c < 10" "c \<noteq> i"
    "p_file (process_table s i) = p_file (process_table s c)"
  shows "\<exists>s'. for_each [0..<100] (share_file i) s = Inr ((), s') \<and> only_counts s s' \<and> files_ok s'"
proof -
  let ?I = "\<lambda>ks s'. only_counts s s' \<and> files_ok (ghost i ks s') \<and> counts_below (2 ^ 31 - 101 + int (length ks)) s'"
  have "\<exists>s'. for_each [0..<100] (share_file i) s = Inr ((), s') \<and> ?I [0..<100] s'"
  proof (rule for_each_prefix)
    show "?I [] s" using assms(1,2) by (simp add: only_counts_refl)
    fix ks k rest s1 assume xs: "[0..<100] = ks @ k # rest" and I: "?I ks s1"
    from xs have "length ks < length [0..<100]" by simp
    then have len: "length ks < 100" by simp
    have k: "k < 100" using xs by (metis atLeastLessThan_iff in_set_conv_decomp set_upt)
    note oc = only_counts_fields [of s s1]
    show "\<exists>s'. share_file i k s1 = Inr ((), s') \<and> ?I (ks @ [k]) s'"
    proof (cases "p_file (process_table s1 i) k")
      case None
      then have "ghost i (ks @ [k]) s1 = ghost i ks s1"
        by (auto simp: ghost_def update_process_def fun_eq_iff intro!: kernel.equality ext Process.equality)
      with None I show ?thesis 
        by (intro exI [of _ s1]) (auto simp: share_file_def intro: counts_below_mono)
    next
      case (Some d)
      then have "p_file (process_table (ghost i ks s1) c) k = Some d"
        using I oc assms(5,6) by (simp add: ghost_fields)
      then have "fcb (file_desc_table s1 d) \<noteq> None"
        using I files_okD(1) [of "ghost i ks s1" c k d] assms(4) k by (simp add: ghost_fields)
      then obtain f where f: "fcb (file_desc_table s1 d) = Some f" by blast
      have n: "2 ^ 31 - 101 + int (length ks) < 2 ^ 31 - 1" using len by simp
      have cb: "counts_below (2 ^ 31 - 101 + int (length ks)) s1" using I by simp
      have "0 \<le> sint (fcb_count (fcb_table s1 f))"
        using I files_okD(3) [of "ghost i ks s1" f] by (simp add: ghost_fields)
      from counts_below_up [OF cb n f this] have "counts_below (2 ^ 31 - 101 + int (length (ks @ [k]))) (count_up d f s1)"
        by (simp add: add.assoc)
      moreover have "files_ok (ghost i (ks @ [k]) (count_up d f s1))"
        using I by (intro files_ok_share [OF _ cb n assms(3) k Some f]) simp
      ultimately show ?thesis
        using share_file_open [OF Some f] only_counts_up [of s s1 d f] I by (intro exI [of _ "count_up d f s1"]) simp
    qed
  qed
  then obtain s' where "for_each [0..<100] (share_file i) s = Inr ((), s')" "?I [0..<100] s'" by blast
  moreover have "ghost i [0..<100] s' = s'" by (rule ghost_all) auto
  ultimately show ?thesis by auto
qed


section \<open>The child\<close>

lemma free_slot:
  assumes "sched_inv s R W K" "find_unused_process s = Some i"
  shows "i < NUM_PROC" "i \<noteq> 0" "i \<noteq> current_process s" "i \<notin> set (R @ W @ K)" "i \<notin> live s"
proof -
  have i: "i < NUM_PROC" "p_state (process_table s i) = PROC_UNUSED"
    using assms(2) by (auto simp: find_unused_process_def first_index_Some)
  then have "state_of (current_process s) R W K i = PROC_UNUSED" using assms(1) by (simp add: sched_inv_def)
  then have "i \<noteq> 0 \<and> i \<noteq> current_process s \<and> i \<notin> set (R @ W @ K)" by (auto simp: state_of_def split: if_splits)
  with i show "i < NUM_PROC" "i \<noteq> 0" "i \<noteq> current_process s" "i \<notin> set (R @ W @ K)" "i \<notin> live s"
    by (simp_all add: live_def)
qed

lemma memory_ok_insert:
  assumes "memory_ok s L T ps" "i \<notin> L" "process_ok (mem s) (kernel_end s) (process_table s i) S"
    "owned (mem s) (process_table s i) S \<inter> set ps = {}"
    "\<forall>j \<in> L. owned (mem s) (process_table s j) (T j) \<inter> owned (mem s) (process_table s i) S = {}"
  shows "memory_ok s (insert i L) (T(i := S)) ps"
proof -
  have "T(i := S)= (\<lambda>j. if j = i then S else T j)" by auto
  with assms show ?thesis unfolding memory_ok_def by (auto simp: Int_commute)
qed

text \<open>What a new process with stack \<open>q\<close> and root table \<open>g\<close> owns, next to the processes of \<open>L\<close>.\<close>

lemma memory_ok_new:
  assumes "memory_ok s L T ps" "i \<notin> L" "ps = q # g # ps1" "keeps_pages (set ps) s s'" "heap_inv s' ps'"
    "\<forall>j \<in> L. process_table s' j = process_table s j" "addr_space (mem s') (kernel_end s') g S"
    "space_pages (mem s') S \<inter> set ps' = {}" "space_pages (mem s') S \<union> set ps' = insert g (set ps1)"
    "p_stack (process_table s' i) = q" "p_page_map (process_table s' i) = g"
    "p_tf (process_table s' i) = q + PAGE_SIZE - TRAPFRAME_SIZE"
  shows "memory_ok s' (insert i L) (T(i := S)) ps'" "set ps' \<union> owned (mem s') (process_table s' i) S = set ps"
proof -
  have heap: "heap_inv s ps" using assms(1) by (simp add: memory_ok_def)
  have q: "page_ok (kernel_end s) q" "q \<notin> set ps1" "q \<noteq> g" using heap assms(3) by (auto simp: heap_inv_def)
  have own: "owned (mem s') (process_table s' i) S = insert q (space_pages (mem s') S)"
    by (simp add: owned_def assms(10))
  have qS: "q \<notin> space_pages (mem s') S" "q \<notin> set ps'" using assms(9) q(2,3) by auto
  have sets: "set ps' \<subseteq> set ps" "insert q (space_pages (mem s') S) \<subseteq> set ps" using assms(3,9) by auto
  show "set ps' \<union> owned (mem s') (process_table s' i) S = set ps" using assms(3,9) own by auto
  have av: "owned (mem s) (process_table s j) (T j) \<inter> set ps = {}" if "j \<in> L" for j
    using memory_okD(3) [OF assms(1) that] .
  then have "\<forall>j \<in> L. owned (mem s) (process_table s j) (T j) \<inter> (set ps \<union> set ps') = {}" using sets(1) by blast
  note m = memory_ok_keeps [OF assms(1,4,5,6) this]
  have "kernel_end s' = kernel_end s" using assms(4) by (simp add: keeps_pages_def)
  then have p: "process_ok (mem s') (kernel_end s') (process_table s' i) S"
    using assms(7,10-12) q(1) qS(1) by (simp add: process_ok_def)
  show "memory_ok s' (insert i L) (T(i := S)) ps'"
  proof (rule memory_ok_insert [OF m(1) assms(2) p])
    show "owned (mem s') (process_table s' i) S \<inter> set ps' = {}" using own qS(2) assms(8) by simp
    show "\<forall>j \<in> L. owned (mem s') (process_table s' j) (T j) \<inter> owned (mem s') (process_table s' i) S = {}"
      using m(2) own av sets(2) by blast
  qed
qed

text \<open>The child's frame: the parent's with 0 as the result in \<open>x0\<close>.\<close>

definition child_frame :: "u64 \<Rightarrow> u64 \<Rightarrow> memory \<Rightarrow> memory" where
  "child_frame tf src m = st64 (memcpy m tf src (ucast TRAPFRAME_SIZE)) tf 0"

lemma child_frame_spec:
  assumes "page_ok e q" "page_ok e r" "q \<noteq> r"
  defines "tf \<equiv> q + PAGE_SIZE - TRAPFRAME_SIZE" and "src \<equiv> r + PAGE_SIZE - TRAPFRAME_SIZE"
  shows "\<not> in_range q 2097152 x \<Longrightarrow> child_frame tf src m x = m x"
    and "ld64 (child_frame tf src m) tf = 0"
    and "8 \<le> k \<Longrightarrow> k < 288 \<Longrightarrow> child_frame tf src m (tf + of_nat k) = m (src + of_nat k)"
proof -
  have tf: "tf = q + of_nat 2096864" and src: "src = r + of_nat 2096864"
    by (simp_all add: tf_def src_def PAGE_SIZE_def TRAPFRAME_SIZE_def)
  have ap: "apart tf 288 src 288"
    using apart_within [OF pages_apart [OF assms(1-3)], of 2096864 288 2096864 288] by (simp add: tf src)
  have size: "unat (ucast TRAPFRAME_SIZE :: u32) = 288" by (simp add: TRAPFRAME_SIZE_def)
  have "forward_ok tf src 288" using ap by (auto simp: forward_ok_def apart_def)
  then have cp: "memcpy m tf src (ucast TRAPFRAME_SIZE) = copied m tf src 288"
    using memcpy_forward [of tf src "ucast TRAPFRAME_SIZE" m] size by simp
  have in_tf: "in_range q 2097152 y" if y: "in_range tf 288 y" for y
  proof -
    obtain j where "j < 288" "y = q + of_nat (2096864 + j)"
      using y by (auto simp: in_range_add tf add.assoc)
    then show ?thesis by (auto simp: in_range_add intro!: exI [of _ "2096864 + j"])
  qed
  show "child_frame tf src m x = m x" if x: "\<not> in_range q 2097152 x"
  proof -
    have "st64 m' tf 0 x = m' x" for m' using st64_in_page [OF x, of 2096864] by (simp add: tf)
    with x in_tf [of x] show ?thesis by (auto simp: child_frame_def cp copied_def)
  qed
  show "ld64 (child_frame tf src m) tf = 0" by (simp add: child_frame_def)
  show "child_frame tf src m (tf + of_nat k) = m (src + of_nat k)" if k: "8 \<le> k" "k < 288"
  proof -
    have b: "unat tf + 288 \<le> 2 ^ 64" using ap by (simp add: apart_def)
    have ne: "tf + of_nat k \<noteq> tf + of_nat j" if "j < 8" for j
    proof
      assume "tf + of_nat k = tf + of_nat j"
      then have "unat (of_nat k :: u64) = unat (of_nat j :: u64)" by simp
      then show False using k that by (simp add: unat_of_nat_small)
    qed
    then have "st64 m' tf 0 (tf + of_nat k) = m' (tf + of_nat k)" for m' by (intro wr_other) blast
    moreover have "unat (of_nat k :: u64) = k" using k by (intro unat_of_nat_small) simp
    ultimately show ?thesis using k by (simp add: child_frame_def cp copied_def in_range_def)
  qed
qed

lemma keeps_pages_cong:
  assumes "keeps_pages U s s'" "mem t = mem s" "kernel_end t = kernel_end s" "mem t' = mem s'" "kernel_end t' = kernel_end s'"
  shows "keeps_pages U t t'"
  using assms by (simp add: keeps_pages_def)


section \<open>fork\<close>

text \<open>A new process in slot \<open>i\<close> with the files \<open>pf\<close>, just before it is put on the ready queue.\<close>

definition forked :: "kernel \<Rightarrow> nat \<Rightarrow> u64 \<Rightarrow> u64 \<Rightarrow> (nat \<Rightarrow> nat option) \<Rightarrow> kernel \<Rightarrow> bool" where
  "forked s i q g pf s' \<longleftrightarrow> (\<forall>j. j \<noteq> i \<longrightarrow> process_table s' j = process_table s j)
     \<and> process_table s' i = (new_process (pid_num s) q g (process_table s i))
         \<lparr>p_file := pf, p_state := PROC_READY\<rparr>
     \<and> current_process s' = current_process s \<and> ready_list s' = ready_list s \<and> wait_list s' = wait_list s
     \<and> kill_list s' = kill_list s \<and> pid_num s' = pid_num s + 1 \<and> ttbr0 s' = ttbr0 s
     \<and> conts s' = (conts s)(i := To_user) \<and> key_buffer s' = key_buffer s \<and> io_in s' = io_in s
     \<and> io_out s' = io_out s \<and> timer_interval s' = timer_interval s"

lemma owned_avoids: "memory_ok s L T ps \<Longrightarrow> i \<in> L \<Longrightarrow> A \<subseteq> set ps \<Longrightarrow>
    owned (mem s) (process_table s i) (T i) \<inter> A = {}"
  using memory_okD(3) by blast

lemma same_page_bytes: "same_page m m' p \<Longrightarrow> bytes m' p 2097152 = bytes m p 2097152"
proof -
  assume same: "same_page m m' p"
  have "m' (p + of_nat i) = m (p + of_nat i)" if "i < 2097152" for i
  proof -
    have "in_range p 2097152 (p + of_nat i)" using that by (auto simp: in_range_add)
    with same show ?thesis unfolding same_page_def by blast
  qed
  then show ?thesis by (simp add: bytes_def)
qed

text \<open>What a process owns and sees does not change while only other pages are written.\<close>

lemma kept_process:
  assumes "memory_ok s L T ps" "i \<in> L" "keeps_pages U s s'" "owned (mem s) (process_table s i) (T i) \<inter> U = {}"
  shows "user_page (mem s') (T i) = user_page (mem s) (T i)"
    "bytes (mem s') (user_page (mem s') (T i)) 2097152 = bytes (mem s) (user_page (mem s) (T i)) 2097152"
proof -
  note i = memory_okD(2) [OF assms(1,2)]
  have same: "\<forall>q \<in> owned (mem s) (process_table s i) (T i). same_page (mem s) (mem s') q"
    using owned_ok [OF i] assms(3,4) by (auto simp: keeps_pages_def)
  then have "\<forall>q \<in> ran (T i). same_page (mem s) (mem s') q" by (simp add: owned_def space_pages_def)
  moreover have "addr_space (mem s) (kernel_end s) (p_page_map (process_table s i)) (T i)"
    using i by (simp add: process_ok_def)
  ultimately show u: "user_page (mem s') (T i) = user_page (mem s) (T i)" by (intro addr_space_page(2)) simp_all
  show "bytes (mem s') (user_page (mem s') (T i)) 2097152 = bytes (mem s) (user_page (mem s) (T i)) 2097152"
    unfolding u using same by (intro same_page_bytes) (simp add: owned_def space_pages_def)
qed

text \<open>Allocating the child leaves its parent's address space to copy.\<close>

lemma fork_child:
  assumes "kernel_inv s R W K T ps" "find_unused_process s = Some i" "c \<in> live s" "ps = q # g # ps1"
  shows "\<exists>s1. alloc_new_process s = Inr (i, s1) \<and> vm_inv s1 [Pgd \<mapsto> g] ps1 \<and> keeps_pages {q, g} s s1
     \<and> (\<exists>m f. s1 = update_process i (new_process (pid_num s) q g)
        (s\<lparr>mem := m, free_memory := f, pid_num := pid_num s + 1, conts := (conts s)(i := To_user)\<rparr>))
     \<and> addr_space (mem s1) (kernel_end s1) (p_page_map (process_table s c)) (T c)
     \<and> space_pages (mem s1) (T c) \<inter> insert g (set ps1) = {}
     \<and> p_page_map (process_table s1 i) = g \<and> p_page_map (process_table s1 c) = p_page_map (process_table s c)"
proof -
  note inv = kernel_invD [OF assms(1)] and slot = free_slot [OF kernel_invD(1) [OF assms(1)] assms(2)]
  have c: "c \<in> live s" "c \<noteq> i" using assms(3) slot(5) by auto
  have heap: "heap_inv s (q # g # ps1)" using inv(7) assms(4) by simp
  obtain s1 where s1: "alloc_new_process s = Inr (i, s1)" "vm_inv s1 [Pgd \<mapsto> g] ps1" "keeps_pages {q, g} s s1"
    "\<exists>m f. s1 = update_process i (new_process (pid_num s) q g)
        (s\<lparr>mem := m, free_memory := f, pid_num := pid_num s + 1, conts := (conts s)(i := To_user)\<rparr>)"
    using alloc_new_process_spec [OF assms(2) heap] by (auto simp: Let_def)
  have t1: "process_table s1 j = (if j = i then new_process (pid_num s) q g (process_table s i) else process_table s j)" for j
    using s1(4) by (auto simp: update_process_def)
  have m1: "memory_ok s1 (live s) T ps1"
    and O1: "\<forall>j \<in> live s. owned (mem s1) (process_table s1 j) (T j) = owned (mem s) (process_table s j) (T j)"
    using memory_ok_keeps [OF inv(2) s1(3) vm_invD(1) [OF s1(2)]] slot(5) t1 owned_avoids [OF inv(2)] assms(4) by auto
  have src1: "addr_space (mem s1) (kernel_end s1) (p_page_map (process_table s c)) (T c)"
    using memory_okD(2) [OF m1 c(1)] c(2) t1 by (simp add: process_ok_def)
  have av: "owned (mem s) (process_table s j) (T j) \<inter> set ps = {}" if "j \<in> live s" for j
    using owned_avoids [OF inv(2) that] by simp
  have "space_pages (mem s1) (T c) \<inter> insert g (set ps1) = {}"
  proof -
    have "space_pages (mem s1) (T c) \<subseteq> owned (mem s) (process_table s c) (T c)"
      using O1 c(1) by (auto simp: owned_def)
    with av [OF c(1)] assms(4) show ?thesis by auto
  qed
  moreover have "p_page_map (process_table s1 i) = g" "p_page_map (process_table s1 c) = p_page_map (process_table s c)"
    using t1 c(2) by (simp_all add: new_process_def)
  ultimately show ?thesis using s1 src1 by blast
qed

text \<open>Allocating the child and copying the user page of its parent.\<close>

lemma fork_space:
  assumes "kernel_inv s R W K T ps" "find_unused_process s = Some i" "c \<in> live s"
    "ps = q # g # ps1" "3 \<le> length ps1"
  shows "\<exists>s1 s2 S ps2 m f. alloc_new_process s = Inr (i, s1) \<and> p_page_map (process_table s1 i) = g
     \<and> p_page_map (process_table s1 c) = p_page_map (process_table s c)
     \<and> copy_uvm g (p_page_map (process_table s c)) (ucast PAGE_SIZE) s1 = Inr (True, s2)
     \<and> s2 = update_process i (new_process (pid_num s) q g)
        (s\<lparr>mem := m, free_memory := f, pid_num := pid_num s + 1, conts := (conts s)(i := To_user)\<rparr>)
     \<and> keeps_pages (set ps) s s2 \<and> heap_inv s2 ps2 \<and> addr_space (mem s2) (kernel_end s2) g S
     \<and> space_pages (mem s2) S \<inter> set ps2 = {} \<and> space_pages (mem s2) S \<union> set ps2 = insert g (set ps1)
     \<and> bytes (mem s2) (user_page (mem s2) S) 2097152 = bytes (mem s) (user_page (mem s) (T c)) 2097152"
proof -
  note inv = kernel_invD [OF assms(1)] and slot = free_slot [OF kernel_invD(1) [OF assms(1)] assms(2)]
  have c: "c \<in> live s" using assms(3) by auto
  have pok: "\<forall>p \<in> set ps. page_ok (kernel_end s) p"
    using inv(7) by (auto simp: heap_inv_def)
  obtain s1 where s1: "alloc_new_process s = Inr (i, s1)" "vm_inv s1 [Pgd \<mapsto> g] ps1" "keeps_pages {q, g} s s1"
    "\<exists>m f. s1 = update_process i (new_process (pid_num s) q g)
        (s\<lparr>mem := m, free_memory := f, pid_num := pid_num s + 1, conts := (conts s)(i := To_user)\<rparr>)"
    "addr_space (mem s1) (kernel_end s1) (p_page_map (process_table s c)) (T c)"
    "space_pages (mem s1) (T c) \<inter> insert g (set ps1) = {}"
    "p_page_map (process_table s1 i) = g" "p_page_map (process_table s1 c) = p_page_map (process_table s c)"
    using fork_child [OF assms(1-4)] by blast
  have ke1: "kernel_end s1 = kernel_end s" using s1(3) by (simp add: keeps_pages_def)
  from copy_uvm_spec [OF s1(2,5,6)] assms(5) obtain s2 S ps2 where
    s2: "copy_uvm g (p_page_map (process_table s c)) (ucast PAGE_SIZE) s1 = Inr (True, s2)"
    "heap_within (insert g (set ps1)) s1 s2" "heap_inv s2 ps2" "addr_space (mem s2) (kernel_end s2) g S"
    "space_pages (mem s2) S \<inter> set ps2 = {}" "space_pages (mem s2) S \<union> set ps2 = insert g (set ps1)"
    "bytes (mem s2) (user_page (mem s2) S) 2097152 = bytes (mem s1) (user_page (mem s1) (T c)) 2097152"
    by (auto split: if_splits)
  have Uok: "\<forall>p \<in> insert g (set ps1). page_ok (kernel_end s1) p" using pok assms(4) ke1 by auto
  note k2 = keeps_pages_within [OF s2(2) Uok]
  obtain m2 f2 where s2e: "s2 = s1\<lparr>mem := m2, free_memory := f2\<rparr>" using heap_stepE [OF heap_withinD(1) [OF s2(2)]] .
  have "keeps_pages (set ps) s s2" using assms(4) by (intro keeps_pages_trans [OF s1(3) k2]) auto
  moreover have "owned (mem s) (process_table s c) (T c) \<inter> {q, g} = {}"
    using owned_avoids [OF inv(2) c, of "{q, g}"] assms(4) by auto
  from kept_process(2) [OF inv(2) c s1(3) this]
  have "bytes (mem s2) (user_page (mem s2) S) 2097152 = bytes (mem s) (user_page (mem s) (T c)) 2097152"
    using s2(7) by simp
  moreover obtain m f where "s1 = update_process i (new_process (pid_num s) q g)
      (s\<lparr>mem := m, free_memory := f, pid_num := pid_num s + 1, conts := (conts s)(i := To_user)\<rparr>)"
    using s1(4) by blast
  then have "s2 = update_process i (new_process (pid_num s) q g)
      (s\<lparr>mem := m2, free_memory := f2, pid_num := pid_num s + 1, conts := (conts s)(i := To_user)\<rparr>)"
    by (simp add: s2e update_process_def)
  ultimately show ?thesis using s1(1,7,8) s2(1,3-6)
    by (intro exI [of _ s1] exI [of _ s2] exI [of _ S] exI [of _ ps2] exI [of _ m2] exI [of _ f2]) simp
qed

lemma fork_copies:
  assumes "kernel_inv s R W K T ps" "current_process s \<noteq> 0" "find_unused_process s = Some i"
    "ps = q # g # ps1" "3 \<le> length ps1" "counts_below (2 ^ 31 - 101) s"
  defines "c \<equiv> current_process s"
  shows "\<exists>s' S ps'. fork s = kbind (on_ready (append_list_tail i) s') (\<lambda>_ s. Inr (p_pid (process_table s i), s))
     \<and> forked s i q g (p_file (process_table s c)) s' \<and> files_ok s' \<and> memory_ok s' (insert i (live s)) (T(i := S)) ps'
     \<and> set ps' \<union> owned (mem s') (process_table s' i) S = set ps
     \<and> keeps_pages (set ps) s s'
     \<and> bytes (mem s') (user_page (mem s') S) 2097152 = bytes (mem s) (user_page (mem s) (T c)) 2097152
     \<and> ld64 (mem s') (p_tf (process_table s' i)) = 0
     \<and> (\<forall>k. 8 \<le> k \<and> k < 288 \<longrightarrow>
          mem s' (p_tf (process_table s' i) + of_nat k) = mem s (p_tf (process_table s c) + of_nat k))"
proof -
  note inv = kernel_invD [OF assms(1)] and slot = free_slot [OF kernel_invD(1) [OF assms(1)] assms(3)]
  have c: "c \<in> live s" "c \<noteq> i" "c < 10"
    using live_queues [OF inv(1)] assms(2) slot kernel_inv_current(1) [OF assms(1)] by (auto simp: c_def NUM_PROC_def)
  have pok: "\<forall>p \<in> set ps. page_ok (kernel_end s) p" "q \<noteq> g" "q \<notin> set ps1"
    using inv(7) assms(4) by (auto simp: heap_inv_def)
  note pc = memory_okD(2) [OF inv(2) c(1)]
  let ?src = "p_stack (process_table s c) + PAGE_SIZE - TRAPFRAME_SIZE" let ?tf = "q + PAGE_SIZE - TRAPFRAME_SIZE"
  have av: "owned (mem s) (process_table s j) (T j) \<inter> set ps = {}" if "j \<in> live s" for j
    using owned_avoids [OF inv(2) that] by simp
  obtain s1 s2 S ps2 m f where s1: "alloc_new_process s = Inr (i, s1)" "p_page_map (process_table s1 i) = g"
    "p_page_map (process_table s1 c) = p_page_map (process_table s c)"
    and s2: "copy_uvm g (p_page_map (process_table s c)) (ucast PAGE_SIZE) s1 = Inr (True, s2)"
      "keeps_pages (set ps) s s2" "heap_inv s2 ps2" "addr_space (mem s2) (kernel_end s2) g S"
      "space_pages (mem s2) S \<inter> set ps2 = {}" "space_pages (mem s2) S \<union> set ps2 = insert g (set ps1)"
      "bytes (mem s2) (user_page (mem s2) S) 2097152 = bytes (mem s) (user_page (mem s) (T c)) 2097152"
    and s2e: "s2 = update_process i (new_process (pid_num s) q g)
        (s\<lparr>mem := m, free_memory := f, pid_num := pid_num s + 1, conts := (conts s)(i := To_user)\<rparr>)"
    using fork_space [OF assms(1,3) c(1) assms(4,5)] by blast
  \<comment> \<open>sharing the files\<close>
  define s3 where "s3 = update_process i (\<lambda>p. p\<lparr>p_file := p_file (process_table s c)\<rparr>) s2"
  have s3: "file_desc_table s3 = file_desc_table s" "fcb_table s3 = fcb_table s"
    "p_file (process_table s3 i) = p_file (process_table s3 c)"
    using c(2) by (simp_all add: s3_def s2e update_process_def)
  have t3: "process_table s3 j = (if j = i then (new_process (pid_num s) q g (process_table s i))
      \<lparr>p_file := p_file (process_table s c)\<rparr> else process_table s j)" for j
    by (simp add: s3_def s2e update_process_def)
  have "files_ok (ghost i [] s3)"
    by (rule files_ok_drop [OF inv(3)]) (auto simp: ghost_fields s3(1,2) t3)
  moreover have "counts_below (2 ^ 31 - 101) s3" using assms(6) by (simp add: counts_below_def s3)
  ultimately obtain s4 where s4: "for_each [0..<100] (share_file i) s3 = Inr ((), s4)" "only_counts s3 s4" "files_ok s4"
    using share_files [of i s3 c] slot(1) c(2,3) s3(3) by (auto simp: NUM_PROC_def)
  note oc = only_counts_fields [OF s4(2)]
  have mem4: "mem s4 = mem s2" "kernel_end s4 = kernel_end s" "free_memory s4 = free_memory s2" "kernel_end s2 = kernel_end s"
    using oc by (simp_all add: s3_def update_process_def s2e)
  \<comment> \<open>the frame of the child\<close>
  define s5 where "s5 = update_process i (\<lambda>p. p\<lparr>p_state := PROC_READY\<rparr>) (s4\<lparr>mem := child_frame ?tf ?src (mem s4)\<rparr>)"
  have t5: "process_table s5 j = (if j = i then (new_process (pid_num s) q g (process_table s i))
      \<lparr>p_file := p_file (process_table s c), p_state := PROC_READY\<rparr> else process_table s j)" for j
    using t3 by (simp add: s5_def update_process_def oc(3))
  have fr: "forked s i q g (p_file (process_table s c)) s5"
  proof -
    obtain a b where "s4 = s3\<lparr>fcb_table := a, file_desc_table := b\<rparr>"
      using s4(2) unfolding only_counts_def by blast
    then show ?thesis using t5 by (simp add: forked_def c_def s5_def s3_def s2e update_process_def)
  qed
  have run: "fork s = kbind (on_ready (append_list_tail i) s5) (\<lambda>_ s. Inr (p_pid (process_table s i), s))"
  proof -
    have "p_file (process_table s2 c) = p_file (process_table s c)"
      using c(2) by (simp add: s2e update_process_def)
    moreover have "p_tf (process_table s4 i) = ?tf" "p_tf (process_table s4 c) = ?src"
      using t3 c(2) pc by (simp_all add: oc(3) new_process_def process_ok_def)
    ultimately show ?thesis
      using s1 s2(1) s4(1) by (simp add: fork_def Let_def c_def s3_def s5_def child_frame_def)
  qed
  have st_c: "page_ok (kernel_end s) (p_stack (process_table s c))" "p_stack (process_table s c) \<noteq> q"
    using pc av [OF c(1)] assms(4) by (auto simp: process_ok_def owned_def)
  note cf = child_frame_spec [where m = "mem s4", OF _ st_c(1) st_c(2) [symmetric]]
  have qok: "page_ok (kernel_end s) q" using pok(1) assms(4) by simp
  have mem5: "mem s5 = child_frame ?tf ?src (mem s2)" "kernel_end s5 = kernel_end s" "free_memory s5 = free_memory s2"
    by (simp_all add: s5_def update_process_def mem4)
  have w5: "heap_within {q} s2 (s2\<lparr>mem := mem s5\<rparr>)"
    using cf(1) [OF qok] by (simp add: heap_within_def mem5 mem4)
  have k5: "keeps_pages {q} s2 s5"
    using keeps_pages_within [OF w5] qok mem4(4) mem5(2) by (simp add: keeps_pages_def)
  have qS: "q \<notin> space_pages (mem s2) S" "q \<notin> set ps2" using s2(6) pok(2,3) assms(4) by auto
  have h5: "heap_inv s5 ps2"
  proof -
    have "\<forall>p \<in> set ps2. same_page (mem s2) (mem s5) p"
      using within_page [OF w5] heap_pages_ok [OF s2(3)] qok qS(2) mem4(4) by auto
    from heap_inv_pages [OF s2(3) this] show ?thesis using mem5 mem4(4) by (simp add: heap_inv_def)
  qed
  have spS: "addr_space (mem s5) (kernel_end s5) g S" "user_page (mem s5) S = user_page (mem s2) S"
    "space_pages (mem s5) S = space_pages (mem s2) S"
  proof -
    have "\<forall>p \<in> ran S. same_page (mem s2) (mem s5) p"
      using within_page [OF w5] space_pages_ok [OF s2(4)] qok qS(1) mem4(4) by (auto simp: space_pages_def)
    from addr_space_page [OF s2(4) this] show "addr_space (mem s5) (kernel_end s5) g S"
      "user_page (mem s5) S = user_page (mem s2) S" "space_pages (mem s5) S = space_pages (mem s2) S"
      using mem4(4) mem5(2) by simp_all
  qed
  have k: "keeps_pages (set ps) s s5" using assms(4) by (intro keeps_pages_trans [OF s2(2) k5]) auto
  have ti: "p_tf (process_table s5 i) = ?tf" "p_stack (process_table s5 i) = q" "p_page_map (process_table s5 i) = g"
    using t5 [of i] by (simp_all add: new_process_def)
  have "p_tf (process_table s c) = ?src" using pc by (simp add: process_ok_def)
  have tj: "\<forall>j \<in> live s. process_table s5 j = process_table s j" using t5 slot(5) by auto
  have "space_pages (mem s5) S \<inter> set ps2 = {}" "space_pages (mem s5) S \<union> set ps2 = insert g (set ps1)"
    using s2(5,6) spS(3) by simp_all
  note new = memory_ok_new [OF inv(2) slot(5) assms(4) k h5 tj spS(1) this ti(2,3,1)]
  have "files_ok s5"
    by (rule files_ok_cong [OF s4(3)]) (simp_all add: s5_def update_process_def)
  moreover have "bytes (mem s5) (user_page (mem s5) S) 2097152 = bytes (mem s) (user_page (mem s) (T c)) 2097152"
  proof -
    have "page_ok (kernel_end s2) (user_page (mem s2) S)" "user_page (mem s2) S \<noteq> q"
      using s2(4) qS(1) by (auto simp: addr_space_def space_pages_def)
    then have "same_page (mem s2) (mem s5) (user_page (mem s2) S)"
      using within_page [OF w5] qok mem4(4) by simp
    then show ?thesis using s2(7) spS(2) same_page_bytes by simp
  qed
  moreover have "ld64 (mem s5) ?tf = 0" using cf(2) [OF qok] by (simp add: mem5 mem4)
  moreover have "mem s5 (?tf + of_nat k) = mem s (?src + of_nat k)" if "8 \<le> k" "k < 288" for k
  proof -
    have "in_range (p_stack (process_table s c)) 2097152 (?src + of_nat k)"
      using that by (auto simp: in_range_add PAGE_SIZE_def TRAPFRAME_SIZE_def intro!: exI [of _ "2096864 + k"])
    moreover have "same_page (mem s) (mem s2) (p_stack (process_table s c))"
      using s2(2) st_c(1) av [OF c(1)] by (auto simp: keeps_pages_def owned_def)
    ultimately have "mem s2 (?src + of_nat k) = mem s (?src + of_nat k)" by (simp add: same_page_def)
    then show ?thesis using cf(3) [OF qok that] by (simp add: mem5 mem4)
  qed
  ultimately show ?thesis
    using run fr k new \<open>p_tf (process_table s c) = ?src\<close>
    by (intro exI [of _ s5] exI [of _ S] exI [of _ ps2]) (simp add: ti)
qed


lemma pids_ok_insert:
  assumes "pids_ok s L" "i \<notin> L" "sint (pid_num s) < 2 ^ 31 - 1" "pid_num s' = pid_num s + 1"
    "\<And>j. p_pid (process_table s' j) = (if j = i then pid_num s else p_pid (process_table s j))"
  shows "pids_ok s' (insert i L)"
proof -
  have l: "0 < sint (pid_num s)" "inj_on (\<lambda>j. p_pid (process_table s j)) L"
    "\<And>j. j \<in> L \<Longrightarrow> 0 < sint (p_pid (process_table s j)) \<and> sint (p_pid (process_table s j)) < sint (pid_num s)"
    using assms(1) by (simp_all add: pids_ok_def)
  have n: "sint (pid_num s') = sint (pid_num s) + 1"
    using assms(3) l(1) unfolding assms(4) by (subst sint_add_small) simp_all
  have "pid_num s \<noteq> p_pid (process_table s j)" "p_pid (process_table s j) \<noteq> pid_num s" if "j \<in> L" for j
    using l(3) [OF that] by auto
  then have "inj_on (\<lambda>j. p_pid (process_table s' j)) (insert i L)"
    using l(2) assms(2) by (auto simp: assms(5) inj_on_def split: if_splits)
  moreover have "0 < sint (p_pid (process_table s' j)) \<and> sint (p_pid (process_table s' j)) < sint (pid_num s')"
    if "j \<in> insert i L" for j
    using that l(1) l(3) [of j] by (auto simp: assms(5) n)
  ultimately show ?thesis using l(1) n by (simp add: pids_ok_def)
qed

text \<open>Putting the new process on the ready queue completes the kernel invariant.\<close>

lemma forked_ready:
  assumes "kernel_inv s R W K T ps" "find_unused_process s = Some i" "forked s i q g pf s1"
    "sint (pid_num s) < 2 ^ 31 - 1" "files_ok s1" "memory_ok s1 (insert i (live s)) T' ps'"
  shows "\<exists>s'. on_ready (append_list_tail i) s1 = Inr ((), s') \<and> sched_step s1 s' \<and> same_cpu s1 s'
     \<and> kernel_inv s' (R @ [i]) W K T' ps'"
proof -
  let ?c = "current_process s"
  note inv = kernel_invD [OF assms(1)] and slot = free_slot [OF kernel_invD(1) [OF assms(1)] assms(2)]
    and cur = kernel_inv_current [OF assms(1)]
  let ?st = "(state_of ?c R W K)(i := PROC_READY)"
  have t: "process_table s1 j = process_table s j" if "j \<noteq> i" for j using assms(3) that by (simp add: forked_def)
  have ti: "p_pid (process_table s1 i) = pid_num s" "p_state (process_table s1 i) = PROC_READY"
    using assms(3) by (simp_all add: forked_def new_process_def)
  have g: "current_process s1 = ?c" "ready_list s1 = ready_list s" "wait_list s1 = wait_list s"
    "kill_list s1 = kill_list s" "pid_num s1 = pid_num s + 1" "ttbr0 s1 = ttbr0 s"
    using assms(3) by (simp_all add: forked_def)
  have pid: "0 < sint (pid_num s)" using inv(4) by (simp add: pids_ok_def)
  then have pid0: "pid_num s \<noteq> 0" by auto
  have "queue_repr (process_table s1) l xs = queue_repr (process_table s) l xs" if "i \<notin> set xs" for l xs
    using that t by (intro queue_repr_cong) metis
  then have "queues_ok (process_table s1) (ready_list s1) (wait_list s1) (kill_list s1) R W K"
    using inv(1) slot(4) by (simp add: sched_inv_def queues_ok_def g)
  moreover have "p_state (process_table s1 j) = ?st j"
    "?st j \<noteq> PROC_UNUSED \<longrightarrow> (p_pid (process_table s1 j) = 0 \<longleftrightarrow> j = 0)" if "j < NUM_PROC" for j
    using inv(1) that t [of j] ti slot(2) pid0 by (cases "j = i"; simp add: sched_inv_def)+
  ultimately have mid: "sched_mid s1 ?st R W K" using cur(3) by (simp add: sched_mid_def)
  obtain s' where s': "on_ready (append_list_tail i) s1 = Inr ((), s')" "sched_step s1 s'" "same_cpu s1 s'"
    "sched_mid s' ?st (R @ [i]) W K" "\<forall>j. p_wait (process_table s' j) = p_wait (process_table s1 j)"
    using mid_append_ready [OF mid slot(4) _ slot(1)] slot(2) by auto
  note f = sched_step_fields [OF s'(2)]
  have c': "current_process s' = ?c" "ttbr0 s' = ttbr0 s" using s'(3) g by (simp_all add: same_cpu_def)
  have "sched_mid s' (state_of ?c (R @ [i]) W K) (R @ [i]) W K"
    using slot(3,4) by (intro sched_mid_cong [OF s'(4)]) (auto simp: state_of_def)
  then have sch: "sched_inv s' (R @ [i]) W K" using cur slot(3) c' by (simp add: sched_inv_mid)
  have lv: "live s' = insert i (live s)"
    unfolding live_queues [OF sch] live_queues [OF inv(1)] c'(1) using slot(2) by auto
  have "memory_ok s' (insert i (live s)) T' ps'" by (rule memory_ok_fields [OF assms(6)]) (rule f)+
  moreover have "files_ok s'" by (rule files_ok_cong [OF assms(5)]) (simp_all only: f)
  moreover have "pids_ok s' (insert i (live s))"
    by (rule pids_ok_insert [OF inv(4) slot(5) assms(4)]) (simp_all add: f g(5) t ti)
  moreover have "i \<notin> set K" using slot(4) by simp
  then have "\<forall>k \<in> set K. p_wait (process_table s' k) = p_pid (process_table s' k)"
    using inv(5) s'(5) t by (metis f(10))
  moreover have "ttbr0 s' = V2P (p_page_map (process_table s' (current_process s')))"
    using inv(6) c' t slot(3) f(11) by simp
  ultimately have "kernel_inv s' (R @ [i]) W K T' ps'" using sch lv by (simp add: kernel_inv_def)
  with s' show ?thesis by blast
qed

lemma fork_fails:
  assumes "kernel_inv s R W K T ps"
  shows "find_unused_process s = None \<Longrightarrow> fork s = Inl Null_pointer"
    and "find_unused_process s \<noteq> None \<Longrightarrow> length ps < 2 \<Longrightarrow> fork s = Inl Assert_failed"
  using alloc_new_process_fails [of s ps] kernel_invD(7) [OF assms]
  by (auto simp: fork_def Let_def alloc_new_process_def)

text \<open>An address space takes four pages, so with fewer than five in all the copy fails.\<close>

lemma fork_short_of_pages:
  assumes "kernel_inv s R W K T ps" "current_process s \<noteq> 0" "find_unused_process s = Some i" "length ps < 5"
  shows "fork s = Inl Assert_failed"
proof (cases "length ps < 2")
  case True
  then show ?thesis using fork_fails(2) [OF assms(1)] assms(3) by simp
next
  case False
  let ?c = "current_process s"
  obtain q g ps1 where ps: "ps = q # g # ps1" using False by (cases ps; cases "tl ps"; auto)
  have "?c \<in> live s" using live_queues [OF kernel_invD(1) [OF assms(1)]] assms(2) by simp
  from fork_child [OF assms(1,3) this ps] obtain s1 where s1: "alloc_new_process s = Inr (i, s1)" "vm_inv s1 [Pgd \<mapsto> g] ps1"
    "addr_space (mem s1) (kernel_end s1) (p_page_map (process_table s ?c)) (T ?c)"
    "space_pages (mem s1) (T ?c) \<inter> insert g (set ps1) = {}"
    "p_page_map (process_table s1 i) = g" "p_page_map (process_table s1 ?c) = p_page_map (process_table s ?c)" by blast
  obtain b s2 where s2: "copy_uvm g (p_page_map (process_table s ?c)) (ucast PAGE_SIZE) s1 = Inr (b, s2)"
    "b \<longrightarrow> (\<exists>S ps2. addr_space (mem s2) (kernel_end s2) g S \<and> space_pages (mem s2) S \<union> set ps2 = insert g (set ps1))"
    using copy_uvm_spec [OF s1(2-4)] by (auto split: if_splits)
  have "\<not> b"
  proof
    assume b
    then obtain S where S: "addr_space (mem s2) (kernel_end s2) g S" "space_pages (mem s2) S \<subseteq> set (g # ps1)"
      using s2(2) by auto
    have "4 \<le> card (set (g # ps1))" using space_pages_card(2) [OF S(1)] card_mono [OF finite_set S(2)] by simp
    also have "\<dots> \<le> length (g # ps1)" by (rule card_length)
    finally show False using ps assms(4) by simp
  qed
  then show ?thesis using s1(1,5,6) s2(1) by (simp add: fork_def)
qed

lemma fork_runs:
  fixes s :: kernel
  defines "c \<equiv> current_process s"
  assumes "kernel_inv s R W K T ps" "c \<noteq> 0" "counts_below (2 ^ 31 - 101) s" "sint (pid_num s) < 2 ^ 31 - 1"
    "find_unused_process s = Some i" "5 \<le> length ps"
  shows "\<exists>s' S ps'. fork s = Inr (pid_num s, s')
           \<and> kernel_inv s' (R @ [i]) W K (T(i := S)) ps' \<and> current_process s' = c
           \<and> p_pid (process_table s' i) = pid_num s \<and> p_file (process_table s' i) = p_file (process_table s c)
           \<and> bytes (mem s') (user_page (mem s') S) 2097152 = bytes (mem s) (user_page (mem s) (T c)) 2097152
           \<and> ld64 (mem s') (p_tf (process_table s' i)) = 0
           \<and> (\<forall>k. 8 \<le> k \<and> k < 288 \<longrightarrow>
                mem s' (p_tf (process_table s' i) + of_nat k) = mem s (p_tf (process_table s c) + of_nat k))
           \<and> keeps_pages (set ps) s s' \<and> set ps' \<union> owned (mem s') (process_table s' i) S = set ps
           \<and> conts s' = (conts s)(i := To_user) \<and> live s' = insert i (live s) \<and> key_buffer s' = key_buffer s
           \<and> p_tf (process_table s' c) = p_tf (process_table s c)"
proof -
  obtain q g ps1 where ps: "ps = q # g # ps1" "3 \<le> length ps1"
    using assms(7) by (cases ps; cases "tl ps"; auto)
  obtain s1 S ps' where s1: "fork s = kbind (on_ready (append_list_tail i) s1) (\<lambda>_ s. Inr (p_pid (process_table s i), s))"
    "forked s i q g (p_file (process_table s c)) s1" "files_ok s1" "memory_ok s1 (insert i (live s)) (T(i := S)) ps'"
    "set ps' \<union> owned (mem s1) (process_table s1 i) S = set ps" "keeps_pages (set ps) s s1"
    "bytes (mem s1) (user_page (mem s1) S) 2097152 = bytes (mem s) (user_page (mem s) (T c)) 2097152"
    "ld64 (mem s1) (p_tf (process_table s1 i)) = 0"
    "\<forall>k. 8 \<le> k \<and> k < 288 \<longrightarrow>
        mem s1 (p_tf (process_table s1 i) + of_nat k) = mem s (p_tf (process_table s c) + of_nat k)"
    using fork_copies [OF assms(2) assms(3)[unfolded c_def] assms(6) ps assms(4)] unfolding c_def by blast
  obtain s' where s': "on_ready (append_list_tail i) s1 = Inr ((), s')" "sched_step s1 s'" "same_cpu s1 s'"
    "kernel_inv s' (R @ [i]) W K (T(i := S)) ps'"
    using forked_ready [OF assms(2,6) s1(2) assms(5) s1(3,4)] by blast
  note f = sched_step_fields [OF s'(2)]
  have "p_pid (process_table s1 i) = pid_num s" "p_file (process_table s1 i) = p_file (process_table s c)"
    "current_process s1 = c" "conts s1 = (conts s)(i := To_user)" "key_buffer s1 = key_buffer s"
    using s1(2) by (simp_all add: forked_def new_process_def c_def)
  moreover have "i \<notin> set (R @ W @ K)" "c \<noteq> i" "i \<noteq> 0"
    using free_slot [OF kernel_invD(1) [OF assms(2)] assms(6)] by (auto simp: c_def)
  moreover from this have "process_table s1 c = process_table s c" using s1(2) by (simp add: forked_def)
  moreover have "live s' = insert i (live s)"
    unfolding live_queues [OF kernel_invD(1) [OF s'(4)]] live_queues [OF kernel_invD(1) [OF assms(2)]]
    using s'(3) calculation by (auto simp: same_cpu_def c_def)
  moreover have "owned (mem s') (process_table s' i) S = owned (mem s1) (process_table s1 i) S"
    by (simp add: owned_def f)
  moreover have "keeps_pages (set ps) s s'" using s1(6) by (simp add: keeps_pages_def f)
  ultimately show ?thesis
    using s1 s' by (intro exI [of _ s'] exI [of _ S] exI [of _ ps']) (simp add: f same_cpu_def)
qed

end
