(* ===== verification/Exec.thy ===== *)
theory Exec
  imports Fork
begin

text \<open>
  The first process and the replacement of a program: \<open>init_process\<close> and \<open>exec\<close> (process/process.c).
  Both leave a process that starts at 0x400000 in a page that holds the program file and zeros.
\<close>

section \<open>The user page through the translation register\<close>

lemma user_slot:
  fixes i :: nat
  assumes "i < 2097152"
  shows "pgd_index (0x400000 + of_nat i) = pgd_index 0x400000" "pud_index (0x400000 + of_nat i) = pud_index 0x400000"
    "pmd_index (0x400000 + of_nat i) = pmd_index 0x400000" "(0x400000 + of_nat i :: u64) mod PAGE_SIZE = of_nat i"
    "(0x400000 + of_nat i :: u64) < KERNEL_BASE" "(0x400000 + of_nat i :: u64) < 2 ^ 48"
proof -
  let ?v = "0x400000 + of_nat i :: u64"
  have u: "unat ?v = 4194304 + i" "unat (of_nat i :: u64) = i" using assms by (simp_all add: word_arith)
  have "unat (drop_bit 39 ?v) = 0" "unat (drop_bit 30 ?v) = 0" "unat (drop_bit 21 ?v) = 2"
    using assms by (simp_all add: drop_bit_eq_div unat_div u)
  then have "drop_bit 39 ?v = 0" "drop_bit 30 ?v = 0" "drop_bit 21 ?v = 2"
    by (simp_all add: word_unat_eq_iff)
  then show "pgd_index ?v = pgd_index 0x400000" "pud_index ?v = pud_index 0x400000" "pmd_index ?v = pmd_index 0x400000"
    by (simp_all add: pgd_index_def pud_index_def pmd_index_def)
  have "(4194304 + i) mod 2097152 = i" using mod_mult_self1 [of i 2 2097152] assms by (simp add: add.commute)
  then have "unat (?v mod PAGE_SIZE) = unat (of_nat i :: u64)" by (simp add: unat_mod u)
  then show "?v mod PAGE_SIZE = of_nat i" by (simp only: word_unat_eq_iff)
  show "?v < KERNEL_BASE" "?v < 2 ^ 48" using assms by (simp_all add: word_less_nat_alt u)
qed

lemma user_leaf: "i < 2097152 \<Longrightarrow> leaf m T (0x400000 + of_nat i) = leaf m T 0x400000"
  using user_slot [of i] by (simp add: leaf_def split: option.split)

lemma user_resolves:
  fixes s :: "'a machine_scheme"
  assumes "heap_inv s ps" "addr_space (mem s) (kernel_end s) pgd T" "space_pages (mem s) T \<inter> set ps = {}"
    "ttbr0 s = V2P pgd"
  shows "resolves s 0x400000 (user_page (mem s) T) 2097152"
  unfolding resolves_def
proof (intro allI impI)
  let ?u = "user_page (mem s) T"
  fix m and i k :: nat assume m: "\<forall>x. \<not> in_range ?u 2097152 x \<longrightarrow> m x = mem s x" and ik: "i + k \<le> 2097152" "0 < k"
  have "heap_within {?u} s (s\<lparr>mem := m\<rparr>)" using m by (simp add: heap_within_def)
  note w = write_user_page [OF assms(1-3) this]
  let ?s = "s\<lparr>mem := m\<rparr>" and ?e = "leaf m T 0x400000"
  have i: "i < 2097152" using ik by simp
  note sl = user_slot [OF i]
  have vm: "vm_inv ?s T ps" "T Pgd = Some pgd" and b: "bit ?e 0"
    using w(1,2,4) assms(3) by (auto simp: vm_inv_def addr_space_def space_pages_def)
  let ?v = "0x400000 + of_nat i :: u64"
  have "P2V (ttbr0 ?s) = pgd" using assms(4) by simp
  then have tr: "translate (P2V (ttbr0 ?s)) ?v ?s = ?e"
    using translate_leaf [OF vm, of ?v] user_leaf [OF i, of m T] by simp
  have "?e AND ENTRY_V \<noteq> 0" using b by (simp add: valid_bit)
  moreover have "P2V (PTE_ADDR ?e) = ?u" using w(3) by (simp add: user_page_def mapped_page_def)
  moreover have "unat (of_nat i :: u64) = i" using i by (intro unat_of_nat_small) simp
  moreover have "\<not> KERNEL_BASE \<le> ?v" "\<not> 2 ^ 48 \<le> ?v" using sl(5,6) by (simp_all add: not_le)
  ultimately show "kaddr ?s ?v k = Some (?u + of_nat i)"
    unfolding kaddr_def tr sl(4) Let_def using ik by simp
qed

lemma kernel_user_resolves:
  assumes "kernel_inv s R W K T ps" "current_process s \<noteq> 0"
  shows "resolves s 0x400000 (user_page (mem s) (T (current_process s))) 2097152"
proof -
  note inv = kernel_invD [OF assms(1)]
  have c: "current_process s \<in> live s" using live_queues [OF inv(1)] assms(2) by simp
  from memory_okD(2,3) [OF inv(2) c] show ?thesis
    using inv(6,7) by (intro user_resolves [of s ps]) (auto simp: process_ok_def owned_def)
qed

section \<open>The registers a program starts with\<close>

definition starts_program :: "memory \<Rightarrow> u64 \<Rightarrow> bool" where
  "starts_program m tf \<longleftrightarrow> ld64 m (tf + 272) = 0x400000 \<and> ld64 m (tf + 248) = 0x400000 + PAGE_SIZE
     \<and> ld64 m (tf + 280) = 0"

lemma set_user_entry_starts:
  assumes "unat tf + 288 \<le> 2 ^ 64"
  shows "starts_program (set_user_entry tf m) tf"
proof -
  have u: "unat (tf + 248) = unat tf + 248" "unat (tf + 272) = unat tf + 272" "unat (tf + 280) = unat tf + 280"
    using assms by (simp_all add: word_arith)
  have "apart (tf + 272) 8 (tf + 248) 8" "apart (tf + 272) 8 (tf + 280) 8" "apart (tf + 248) 8 (tf + 280) 8"
    using assms by (simp_all add: apart_def u)
  then show ?thesis
    by (simp add: starts_program_def set_user_entry_def rd_wr_apart del: rd.simps wr.simps)
qed

lemma starts_program_page:
  assumes "starts_program m (q + PAGE_SIZE - TRAPFRAME_SIZE)" "same_page m m' q"
  shows "starts_program m' (q + PAGE_SIZE - TRAPFRAME_SIZE)"
proof -
  let ?tf = "q + PAGE_SIZE - TRAPFRAME_SIZE"
  have "ld64 m' (?tf + of_nat k) = ld64 m (?tf + of_nat k)" if "k + 8 \<le> 288" for k
  proof (rule rd_cong)
    fix i :: nat assume "i < 8"
    then have "in_range q 2097152 (?tf + of_nat k + of_nat i)"
      using that by (auto simp: in_range_add PAGE_SIZE_def TRAPFRAME_SIZE_def intro!: exI [of _ "2096864 + k + i"])
    with assms(2) show "m' (?tf + of_nat k + of_nat i) = m (?tf + of_nat k + of_nat i)" by (simp add: same_page_def)
  qed
  from this [of 272] this [of 248] this [of 280] assms(1) show ?thesis by (simp add: starts_program_def)
qed


section \<open>The first process\<close>

definition program_page :: "memory \<Rightarrow> nat \<Rightarrow> u32 list \<Rightarrow> u8 list" where
  "program_page m e cl = program_bytes m e cl @ replicate (2097152 - length (program_bytes m e cl)) 0"

lemma init_user_spec:
  assumes "kernel_inv s R W K T ps" "find_unused_process s = Some i" "5 \<le> length ps"
    "sint (pid_num s) < 2 ^ 31 - 1" "\<forall>f. sint (fcb_count (fcb_table s f)) < 2 ^ 31 - 1"
    "lookup (mem s) init_bin = Some e" "loadable s e cl" "free_fd s i \<noteq> None" "free_desc s \<noteq> None"
  shows "\<exists>s' S ps'. init_user_process s = Inr ((), s') \<and> kernel_inv s' (R @ [i]) W K (T(i := S)) ps'
     \<and> current_process s' = current_process s \<and> p_pid (process_table s' i) = pid_num s
     \<and> bytes (mem s') (user_page (mem s') S) 2097152 = program_page (mem s) e cl
     \<and> starts_program (mem s') (p_tf (process_table s' i))
     \<and> set ps' \<union> owned (mem s') (process_table s' i) S = set ps
     \<and> image_eq (mem s) (mem s') \<and> one_leak s s' \<and> (\<forall>j. p_file (process_table s' j) = p_file (process_table s j)) \<and> pid_num s' = pid_num s + 1
     \<and> conts s' = (conts s)(i := To_user) \<and> key_buffer s' = key_buffer s \<and> io_in s' = io_in s
     \<and> io_out s' = io_out s \<and> timer_interval s' = timer_interval s \<and> kernel_end s' = kernel_end s"
proof -
  note inv = kernel_invD [OF assms(1)] and slot = free_slot [OF kernel_invD(1) [OF assms(1)] assms(2)]
  obtain q g ps1 where ps: "ps = q # g # ps1" "3 \<le> length ps1" using assms(3) by (cases ps; cases "tl ps"; auto)
  have heap: "heap_inv s (q # g # ps1)" using inv(7) ps by simp
  have q: "page_ok (kernel_end s) q" "q \<noteq> g" "q \<notin> set ps1" using heap by (auto simp: heap_inv_def)
  obtain m f s1 where s1: "alloc_new_process s = Inr (i, s1)" "vm_inv s1 [Pgd \<mapsto> g] ps1" "keeps_pages {q, g} s s1"
    "s1 = update_process i (new_process (pid_num s) q g)
        (s\<lparr>mem := m, free_memory := f, pid_num := pid_num s + 1, conts := (conts s)(i := To_user)\<rparr>)"
    "same_page (new_frame q (trap_return s) (mem s)) (mem s1) q"
    using alloc_new_process_spec [OF assms(2) heap] by (auto simp: Let_def update_process_def)
  have t1: "process_table s1 j = (if j = i then new_process (pid_num s) q g (process_table s i) else process_table s j)" for j
    using s1(4) by (simp add: update_process_def)
  have same: "fcb_table s1 = fcb_table s" "file_desc_table s1 = file_desc_table s" using s1(4) by (simp_all add: update_process_def)
  have img: "image_eq (mem s) (mem s1)" and ke1: "kernel_end s1 = kernel_end s" using s1(3) by (simp_all add: keeps_pages_def)
  have pf: "p_file (process_table s1 j) = p_file (process_table s j)" for j by (simp add: t1 new_process_def)
  have "e < 65536" using lookup_less [OF assms(6)] root_count_less [of "mem s"] by simp
  note ld = loadable_image [OF img same(1) this assms(7)]
  have lk: "lookup (mem s1) init_bin = Some e" using lookup_image [OF img] assms(6) by simp
  have "free_fd s1 i \<noteq> None" "free_desc s1 \<noteq> None" using assms(8,9) by (simp_all add: free_fd_def free_desc_def pf same)
  moreover have "files_ok s1" by (rule files_ok_cong [OF inv(3)]) (simp_all add: pf same)
  moreover have "p_page_map (process_table s1 i) = g" by (simp add: t1 new_process_def)
  moreover have "(0::u8) \<notin> set init_bin" "i < 10" using slot(1) by (simp_all add: NUM_PROC_def)
  ultimately obtain s2 S ps2 where s2: "setup_uvm i (cstr init_bin) s1 = Inr (True, s2)"
    "keeps_pages (insert g (set ps1)) s1 s2" "process_table s2 = process_table s1" "files_step s1 s2" "files_ok s2"
    "heap_inv s2 ps2" "addr_space (mem s2) (kernel_end s2) g S" "space_pages (mem s2) S \<inter> set ps2 = {}"
    "space_pages (mem s2) S \<union> set ps2 = insert g (set ps1)"
    "bytes (mem s2) (user_page (mem s2) S) 2097152 = program_page (mem s) e cl" "one_leak s1 s2"
    using setup_uvm_spec [OF s1(2), of i init_bin cl] assms(5) ld lk ps(2) same
    by (auto simp: program_page_def split: if_splits)
  define s3 where "s3 = update_process i (\<lambda>p. p\<lparr>p_state := PROC_READY\<rparr>) s2"
  have t3: "process_table s3 j = (if j = i then (new_process (pid_num s) q g (process_table s i))
      \<lparr>p_file := p_file (process_table s i), p_state := PROC_READY\<rparr> else process_table s j)" for j
    using t1 s2(3) by (simp add: s3_def update_process_def new_process_def)
  have mem3: "mem s3 = mem s2" "kernel_end s3 = kernel_end s2" "free_memory s3 = free_memory s2"
    by (simp_all add: s3_def update_process_def)
  obtain m2 f2 a2 b2 where "s2 = s1\<lparr>mem := m2, free_memory := f2, fcb_table := a2, file_desc_table := b2\<rparr>"
    using files_stepE [OF s2(4)] .
  then have fr: "forked s i q g (p_file (process_table s i)) s3"
    by (simp add: forked_def t3) (simp add: s3_def s1(4) update_process_def)
  have k2: "keeps_pages (set ps) s s2" using ps(1) by (intro keeps_pages_trans [OF s1(3) s2(2)]) auto
  have k3: "keeps_pages (set ps) s s3" using k2 mem3 by (simp add: keeps_pages_def)
  have "heap_inv s3 ps2" using s2(6) mem3 by (simp add: heap_inv_def)
  then have new: "memory_ok s3 (insert i (live s)) (T(i := S)) ps2" "set ps2 \<union> owned (mem s3) (process_table s3 i) S = set ps"
    using memory_ok_new [OF inv(2) slot(5) ps(1) k3, of ps2 S] s2(7-9) t3 slot(5) mem3
    by (auto simp: new_process_def)
  have "files_ok s3" by (rule files_ok_cong [OF s2(5)]) (simp_all add: s3_def update_process_def)
  from forked_ready [OF assms(1,2) fr assms(4) this new(1)] obtain s' where
    s': "on_ready (append_list_tail i) s3 = Inr ((), s')" "sched_step s3 s'" "same_cpu s3 s'"
    "kernel_inv s' (R @ [i]) W K (T(i := S)) ps2" by blast
  note fs = sched_step_fields [OF s'(2)]
  have "init_user_process s = Inr ((), s')" using s1(1) s2(1) s'(1) by (simp add: init_user_process_def s3_def)
  moreover have "starts_program (mem s2) (q + PAGE_SIZE - TRAPFRAME_SIZE)"
  proof -
    have "unat (q + PAGE_SIZE - TRAPFRAME_SIZE) = unat q + 2096864"
      using page_ok_bounds(2) [OF q(1)] unat_offset [of q 2096864]
      by (simp add: PAGE_SIZE_def TRAPFRAME_SIZE_def add.commute)
    then have "starts_program (new_frame q (trap_return s) (mem s)) (q + PAGE_SIZE - TRAPFRAME_SIZE)"
      using page_ok_bounds(2) [OF q(1)] unfolding new_frame_def by (intro set_user_entry_starts) simp
    moreover have "same_page (mem s1) (mem s2) q" using s2(2) q ke1 by (simp add: keeps_pages_def)
    ultimately show ?thesis using s1(5) starts_program_page same_page_trans by blast
  qed
  moreover have "current_process s3 = current_process s" using fr by (simp add: forked_def)
  moreover have "pid_num s' = pid_num s + 1" "key_buffer s' = key_buffer s" using fr fs by (simp_all add: forked_def)
  moreover have "io_in s' = io_in s" "io_out s' = io_out s" "timer_interval s' = timer_interval s" using fr s'(2) by (simp_all add: forked_def sched_step_def)
  moreover have "conts s' = (conts s)(i := To_user)" using fr s'(3) by (simp add: forked_def same_cpu_def)
  moreover have "image_eq (mem s) (mem s')" "kernel_end s' = kernel_end s" using k2 mem3 fs by (simp_all add: keeps_pages_def)
  moreover have "one_leak s s'" using s2(11) same fs by (simp add: one_leak_def s3_def update_process_def)
  moreover have "p_file (process_table s' j) = p_file (process_table s j)" for j by (simp add: fs t3 new_process_def)
  ultimately show ?thesis
    using s' s2(10) new(2) t3 [of i] mem3
    by (intro exI [of _ s'] exI [of _ S] exI [of _ ps2]) (simp add: fs same_cpu_def owned_def new_process_def)
qed

text \<open>The kernel as \<open>init_fs\<close> leaves it: no process yet, empty queues.\<close>

definition unstarted :: "kernel \<Rightarrow> u64 list \<Rightarrow> bool" where
  "unstarted s ps \<longleftrightarrow> heap_inv s ps \<and> files_ok s \<and> 0 < sint (pid_num s)
     \<and> (\<forall>i < NUM_PROC. p_state (process_table s i) = PROC_UNUSED)
     \<and> ready_list s = \<lparr>l_next = Null, l_tail = Null\<rparr> \<and> wait_list s = \<lparr>l_next = Null, l_tail = Null\<rparr>
     \<and> kill_list s = \<lparr>l_next = Null, l_tail = Null\<rparr>"

lemma init_idle_spec:
  assumes "unstarted s ps"
  shows "\<exists>s'. init_idle_process s = Inr ((), s') \<and> kernel_inv s' [] [] [] T ps \<and> current_process s' = 0
     \<and> find_unused_process s' = Some 1 \<and> mem s' = mem s \<and> fcb_table s' = fcb_table s
     \<and> file_desc_table s' = file_desc_table s \<and> pid_num s' = pid_num s
     \<and> (\<forall>i. p_file (process_table s' i) = p_file (process_table s i)) \<and> conts s' = conts s \<and> key_buffer s' = key_buffer s
     \<and> io_in s' = io_in s \<and> io_out s' = io_out s \<and> timer_interval s' = timer_interval s \<and> kernel_end s' = kernel_end s"
proof -
  let ?s = "(update_process 0 (\<lambda>p. p\<lparr>p_state := PROC_RUNNING, p_pid := 0, p_page_map := P2V (read_pgd s)\<rparr>) s)
    \<lparr>current_process := 0\<rparr>"
  have u: "find_unused_process s = Some 0"
    using assms by (auto simp: unstarted_def find_unused_process_def first_index_Some NUM_PROC_def)
  have u': "find_unused_process ?s = Some 1"
    using assms by (auto simp: unstarted_def find_unused_process_def first_index_Some NUM_PROC_def update_process_def)
  have st: "p_state (process_table ?s i) = state_of 0 [] [] [] i" if "i < NUM_PROC" for i
    using assms that by (simp add: unstarted_def update_process_def state_of_def)
  have sch: "sched_inv ?s [] [] []"
    using assms st by (auto simp: sched_inv_def queues_ok_def queue_repr_def unstarted_def NUM_PROC_def state_of_def update_process_def)
  then have "live ?s = {}" using live_queues [OF sch] by simp
  moreover have "heap_inv ?s ps" using assms by (simp add: unstarted_def heap_inv_def update_process_def)
  moreover have "files_ok s" using assms by (simp add: unstarted_def)
  then have "files_ok ?s" by (rule files_ok_cong) (simp_all add: update_process_def)
  moreover have "0 < sint (pid_num s)" using assms by (simp add: unstarted_def)
  ultimately have "kernel_inv ?s [] [] [] T ps"
    using sch by (simp add: kernel_inv_def memory_ok_def pids_ok_def) (simp add: update_process_def read_pgd_def)
  then show ?thesis using u u' by (intro exI [of _ ?s]) (simp add: init_idle_process_def, simp add: update_process_def)
qed

section \<open>exec\<close>

text \<open>Overwriting a page that holds no table and is not free, such as a user page or a stack.\<close>

lemma kernel_inv_page_write:
  assumes "kernel_inv s R W K T ps" "keeps_pages {u} s (s\<lparr>mem := m\<rparr>)" "u \<notin> set ps"
    "\<forall>i \<in> live s. u \<notin> ran (T i)"
  shows "kernel_inv (s\<lparr>mem := m\<rparr>) R W K T ps" "\<forall>i \<in> live s. user_page m (T i) = user_page (mem s) (T i)"
proof -
  let ?s = "s\<lparr>mem := m\<rparr>"
  note inv = kernel_invD [OF assms(1)]
  have "heap_inv ?s ps"
    using assms(2,3) heap_pages_ok [OF inv(7)] by (intro heap_inv_pages [OF inv(7)]) (auto simp: keeps_pages_def)
  moreover have proc: "process_ok (mem ?s) (kernel_end ?s) (process_table ?s i) (T i)
      \<and> owned (mem ?s) (process_table ?s i) (T i) = owned (mem s) (process_table s i) (T i)
      \<and> user_page m (T i) = user_page (mem s) (T i)" if i: "i \<in> live s" for i
  proof -
    note pi = memory_okD(2) [OF inv(2) i]
    have sp: "addr_space (mem s) (kernel_end s) (p_page_map (process_table s i)) (T i)" using pi by (simp add: process_ok_def)
    then have "\<forall>p \<in> ran (T i). same_page (mem s) (mem ?s) p"
      using i assms(2,4) space_pages_ok [OF sp] by (auto simp: keeps_pages_def space_pages_def)
    from addr_space_page [OF sp this] pi show ?thesis by (simp add: process_ok_def owned_def)
  qed
  ultimately have "memory_ok ?s (live s) T ps" using inv(2) by (simp add: memory_ok_def)
  moreover have "live ?s = live s" by (simp add: live_def)
  moreover have "files_ok ?s" by (rule files_ok_cong [OF inv(3)]) simp_all
  ultimately show "kernel_inv ?s R W K T ps"
    using assms(1) by (simp add: kernel_inv_def sched_inv_def pids_ok_def)
  show "\<forall>i \<in> live s. user_page m (T i) = user_page (mem s) (T i)" using proc by blast
qed

lemma private_pages:
  assumes "kernel_inv s R W K T ps" "c \<in> live s" "i \<in> live s"
  shows "user_page (mem s) (T c) \<notin> ran (T i)" "p_stack (process_table s c) \<notin> ran (T i)"
    "user_page (mem s) (T c) \<notin> set ps" "p_stack (process_table s c) \<notin> set ps"
    "p_stack (process_table s c) \<noteq> user_page (mem s) (T i)"
    "page_ok (kernel_end s) (user_page (mem s) (T c))" "page_ok (kernel_end s) (p_stack (process_table s c))"
proof -
  note m = kernel_invD(2) [OF assms(1)]
  note c = memory_okD(2,3) [OF m assms(2)] and d = memory_okD(4) [OF m assms(2,3)]
  note own = owned_def space_pages_def process_ok_def addr_space_def
  have *: "user_page (mem s) (T c) \<notin> ran (T i) \<and> p_stack (process_table s c) \<notin> ran (T i)
      \<and> p_stack (process_table s c) \<noteq> user_page (mem s) (T i)"
    using c d by (cases "c = i") (auto simp: own)
  then show "user_page (mem s) (T c) \<notin> ran (T i)" "p_stack (process_table s c) \<notin> ran (T i)"
    "p_stack (process_table s c) \<noteq> user_page (mem s) (T i)" by simp_all
  show "user_page (mem s) (T c) \<notin> set ps" "p_stack (process_table s c) \<notin> set ps"
    "page_ok (kernel_end s) (user_page (mem s) (T c))" "page_ok (kernel_end s) (p_stack (process_table s c))"
    using c by (auto simp: own)
qed

lemma kernel_inv_files:
  assumes "kernel_inv s R W K T ps" "files_step s s'" "mem s' = mem s" "free_memory s' = free_memory s"
    "process_table s' = process_table s" "files_ok s'"
  shows "kernel_inv s' R W K T ps" "current_process s' = current_process s" "conts s' = conts s"
proof -
  note inv = kernel_invD [OF assms(1)]
  obtain m f a b where s': "s' = s\<lparr>mem := m, free_memory := f, fcb_table := a, file_desc_table := b\<rparr>"
    using files_stepE [OF assms(2)] .
  have "memory_ok s' (live s) T ps" by (rule memory_ok_fields [OF inv(2)]) (use assms(3-5) s' in simp_all)
  moreover have "live s' = live s" by (simp add: live_def assms(5))
  ultimately show "kernel_inv s' R W K T ps"
    using assms(1,6) by (simp add: kernel_inv_def sched_inv_def pids_ok_def s')
  show "current_process s' = current_process s" "conts s' = conts s" by (simp_all add: s')
qed

text \<open>A page that is cleared and then filled from its start.\<close>

lemma cleared_and_written:
  assumes "unat u + 2097152 \<le> 2 ^ 64" "length xs \<le> 2097152"
  shows "written (memset m u 0 (ucast PAGE_SIZE)) u xs = written m u (xs @ replicate (2097152 - length xs) 0)"
    and "bytes (written (memset m u 0 (ucast PAGE_SIZE)) u xs) u 2097152 = xs @ replicate (2097152 - length xs) 0"
proof -
  let ?ys = "xs @ replicate (2097152 - length xs) (0::u8)"
  show w: "written (memset m u 0 (ucast PAGE_SIZE)) u xs = written m u ?ys"
    using assms(2) by (auto simp: fun_eq_iff written_def memset_eq in_range_def PAGE_SIZE_def nth_append)
  show "bytes (written (memset m u 0 (ucast PAGE_SIZE)) u xs) u 2097152 = ?ys"
    unfolding w using written_nth [of _ ?ys u m] assms by (intro nth_equalityI) simp_all
qed

definition reset_frame :: "u64 \<Rightarrow> memory \<Rightarrow> memory" where
  "reset_frame tf m = set_user_entry tf (memset m tf 0 (ucast TRAPFRAME_SIZE))"

lemma reset_frame_in_page:
  assumes "page_ok e q" "\<not> in_range q 2097152 x"
  shows "reset_frame (q + PAGE_SIZE - TRAPFRAME_SIZE) m x = m x"
proof -
  let ?tf = "q + PAGE_SIZE - TRAPFRAME_SIZE"
  obtain a b c where f: "?tf + 272 = q + of_nat a" "a + 8 \<le> 2097152" "?tf + 248 = q + of_nat b" "b + 8 \<le> 2097152"
    "?tf + 280 = q + of_nat c" "c + 8 \<le> 2097152"
    using frame_in_page(1) [OF assms(1), of 272 8] frame_in_page(1) [OF assms(1), of 248 8]
      frame_in_page(1) [OF assms(1), of 280 8] by auto
  have "\<not> in_range ?tf 288 x"
  proof
    assume "in_range ?tf 288 x"
    then obtain k :: nat where "k < 288" "x = ?tf + of_nat k" by (auto simp: in_range_add)
    then have "in_range q 2097152 x"
      by (auto simp: in_range_add PAGE_SIZE_def TRAPFRAME_SIZE_def intro!: exI [of _ "2096864 + k"])
    with assms(2) show False by simp
  qed
  then have "memset m ?tf 0 (ucast TRAPFRAME_SIZE) x = m x" by (simp add: memset_eq TRAPFRAME_SIZE_def)
  then show ?thesis
    unfolding reset_frame_def set_user_entry_def f by (simp only: st64_in_page [OF assms(2)] f(2,4,6))
qed

lemma resolves_le: "resolves s v d n \<Longrightarrow> k \<le> n \<Longrightarrow> resolves s v d k"
  by (auto simp: resolves_def in_range_def)

lemma exec_fails:
  assumes "kernel_inv s R W K T ps" "current_process s \<noteq> 0" "0 \<notin> set p"
    "lookup (mem s) p = None \<or> free_fd s i = None \<or> free_desc s = None"
  defines "R' \<equiv> R @ filter (waits_for (- 3) s) W" and "W' \<equiv> filter (\<lambda>j. \<not> waits_for (- 3) s j) W"
  shows "\<exists>s'. exec i (cstr p) s = Inr (Switched, s') \<and> switched Exited s R' s'
    \<and> kernel_inv s' (tl R') W' (K @ [current_process s]) T ps"
proof -
  have "open_file i (cstr p) s = Inr (- 1, s)"
    using assms(4) by (auto simp: open_file_cases [OF assms(3)] split: option.split)
  then show ?thesis
    using kernel_exit [OF assms(1,2)] unfolding R'_def W'_def by (auto simp: exec_def)
qed

lemma exec_runs:
  fixes s :: kernel
  defines "c \<equiv> current_process s"
  assumes "kernel_inv s R W K T ps" "c \<noteq> 0" "0 \<notin> set p" "lookup (mem s) p = Some e" "loadable s e cl"
    "free_fd s c \<noteq> None" "free_desc s \<noteq> None" "sint (fcb_count (fcb_table s e)) < 2 ^ 31 - 1"
  shows "\<exists>s'. exec c (cstr p) s = Inr (Done 0, s') \<and> kernel_inv s' R W K T ps
     \<and> bytes (mem s') (user_page (mem s') (T c)) 2097152 = program_page (mem s) e cl
     \<and> starts_program (mem s') (p_tf (process_table s' c)) \<and> process_table s' = process_table s
     \<and> current_process s' = c \<and> conts s' = conts s
     \<and> keeps_pages {user_page (mem s) (T c), p_stack (process_table s c)} s s'"
proof -
  note inv = kernel_invD [OF assms(2)]
  let ?u = "user_page (mem s) (T c)" and ?q = "p_stack (process_table s c)" and ?xs = "program_bytes (mem s) e cl"
  define tf where "tf = p_tf (process_table s c)"
  have c: "c \<in> live s" "c < 10" using live_queues [OF inv(1)] assms(3) kernel_inv_current(1) [OF assms(2)] by (simp_all add: c_def NUM_PROC_def)
  note pp = private_pages [OF assms(2) c(1)]
  have u: "page_ok (kernel_end s) ?u" "?u \<notin> set ps" "\<forall>i \<in> live s. ?u \<notin> ran (T i)"
    and q: "page_ok (kernel_end s) ?q" "?q \<notin> set ps" "\<forall>i \<in> live s. ?q \<notin> ran (T i)" "?q \<noteq> ?u"
    using pp c(1) by simp_all
  note b = page_ok_bounds [OF u(1)]
  have tf: "tf = ?q + PAGE_SIZE - TRAPFRAME_SIZE" using inv(8) [OF c(1)] by (simp add: process_ok_def tf_def)
  define m where "m = memset (mem s) ?u 0 (ucast PAGE_SIZE)"
  have m: "m = written (mem s) ?u (replicate 2097152 0)"
    using b(2) cleared_and_written(1) [of ?u "[]" "mem s"] by (simp add: m_def)
  have len: "length ?xs \<le> 2097152" using assms(6) by (simp add: program_bytes_def loadable_def Let_def)
  obtain fd d where fd: "free_fd s c = Some fd" "free_desc s = Some d" using assms(7,8) by blast
  have res: "resolves s 0x400000 ?u 2097152" using kernel_user_resolves [OF assms(2)] assms(3) by (simp add: c_def)
  then have resm: "resolves (s\<lparr>mem := m\<rparr>) 0x400000 ?u 2097152"
    by (rule resolves_mem) (simp add: m_def memset_eq PAGE_SIZE_def)
  let ?n = "dir_file_size (dir_entry (mem s) e)"
  have n: "unat ?n \<le> 2097152" "length ?xs = unat ?n" using assms(6) by (simp_all add: loadable_def Let_def program_bytes_def)
  have "resolves (s\<lparr>mem := m\<rparr>) 0x400000 ?u (unat ?n)"
    using resm n(1) by (rule resolves_le)
  moreover have "image_eq (mem s) m" unfolding m using b(2) by (intro written_image) simp
  ultimately obtain s1 s2 s3 where r: "open_file c (cstr p) s = Inr (of_nat fd, s1)" "mem s1 = mem s" "ttbr0 s1 = ttbr0 s"
    "get_file_size c (of_nat fd) (s1\<lparr>mem := m\<rparr>) = Inr (?n, s1\<lparr>mem := m\<rparr>)"
    "read_file c (of_nat fd) 0x400000 ?n (s1\<lparr>mem := m\<rparr>) = Inr (?n, s2)" "close_file c (of_nat fd) s2 = Inr ((), s3)"
    "mem s3 = written m ?u ?xs" "free_memory s3 = free_memory s"
    "kernel_end s3 = kernel_end s" "files_step s s3" "process_table s3 = process_table s" "files_ok s3"
    using open_load_close_at [OF assms(4,5) fd assms(6) inv(3) c(2) assms(9), of m "0x400000" ?u] b(2) n(1) by auto
  have fd100: "fd < 100" using fd(1) by (simp add: free_fd_Some)
  have fd1: "(of_nat fd :: i32) \<noteq> - 1"
  proof
    assume "(of_nat fd :: i32) = - 1"
    then have "sint (of_nat fd :: i32) = sint (- 1 :: i32)" by simp
    then show False using sint_fd [OF fd100] by simp
  qed
  have n1: "?n \<noteq> 0xffffffff" using n(1) by auto
  have "kaddr s1 0x400000 (unat (ucast PAGE_SIZE :: u32)) = Some ?u"
    using resolves_kaddr [OF res, of 0 2097152] kaddr_cong [OF r(2,3)] by (simp add: PAGE_SIZE_def)
  then have fill: "fill_to 0x400000 0 (ucast PAGE_SIZE) s1 = Inr ((), s1\<lparr>mem := m\<rparr>)"
    by (simp add: fill_to_def m_def r(2) PAGE_SIZE_def)
  let ?s4 = "s3\<lparr>mem := reset_frame tf (mem s3)\<rparr>"
  have run: "exec c (cstr p) s = Inr (Done 0, ?s4)"
    using r fill fd1 n1 by (simp add: exec_def reset_frame_def tf_def Let_def)
  let ?m3 = "written m ?u ?xs"
  have k3: "keeps_pages {?u} s (s\<lparr>mem := ?m3\<rparr>)"
    using cleared_and_written(1) [of ?u ?xs "mem s"] b(2) len unfolding m_def
    by (intro keeps_pages_written [OF u(1), of "?xs @ replicate (2097152 - length ?xs) 0"]) simp_all
  note inv3 = kernel_inv_page_write [OF assms(2) k3 u(2,3)]
  obtain m' f a d' where s3: "s3 = s\<lparr>mem := m', free_memory := f, fcb_table := a, file_desc_table := d'\<rparr>"
    using files_stepE [OF r(10)] .
  then have "files_step (s\<lparr>mem := ?m3\<rparr>) s3" by (intro files_stepI) simp
  note inv4 = kernel_inv_files [OF inv3(1) this] 
  have inv4: "kernel_inv s3 R W K T ps" "current_process s3 = c" "conts s3 = conts s"
    using inv4 r(7,8,11,12) by (simp_all add: c_def)
  have st: "p_stack (process_table s3 c) = ?q" "live s3 = live s" using r(11) by (simp_all add: live_def)
  have "heap_within {?q} s3 ?s4"
    using reset_frame_in_page [OF q(1)] by (simp add: heap_within_def tf)
  then have k4: "keeps_pages {?q} s3 ?s4" by (rule keeps_pages_within) (use q(1) r(9) in simp)
  note inv5 = kernel_inv_page_write [OF inv4(1) k4 q(2), unfolded st(2), OF q(3)]
  have up: "user_page (mem s3) (T c) = ?u" "user_page (mem ?s4) (T c) = ?u"
    using inv3(2) inv5(2) c(1) r(7) by simp_all
  have "same_page (mem s3) (mem ?s4) ?u" using k4 q(4) u(1) r(9) by (simp add: keeps_pages_def)
  then have byt: "bytes (mem ?s4) ?u 2097152 = program_page (mem s) e cl"
    using cleared_and_written(2) [of ?u ?xs "mem s"] b(2) len r(7)
    by (simp only: same_page_bytes) (simp add: m_def program_page_def)
  have "unat tf = unat ?q + 2096864"
    using page_ok_bounds(2) [OF q(1)] unat_offset [of ?q 2096864]
    by (simp add: tf PAGE_SIZE_def TRAPFRAME_SIZE_def add.commute)
  then have starts: "starts_program (mem ?s4) tf"
    using page_ok_bounds(2) [OF q(1)] set_user_entry_starts [of tf] by (simp add: reset_frame_def)
  have "keeps_pages {?u} s s3" using k3 r(7,9) by (simp add: keeps_pages_def)
  from keeps_pages_trans [OF this k4] have "keeps_pages {?u, ?q} s ?s4" by simp
  then show ?thesis
    using run inv5(1) byt starts r(11) inv4(2,3) unfolding up(2) [symmetric]
    by (intro exI [of _ ?s4]) (simp add: tf_def up)
qed


end
