(* ===== verification/Lifecycle.thy ===== *)
theory Lifecycle
  imports Exec
begin

text \<open>
  From an empty machine to running processes: the state that \<open>init_memory\<close>, \<open>init_fs\<close> and
  \<open>init_process\<close> leave, and what \<open>setup_uvm\<close>, \<open>copy_uvm\<close>, \<open>fork\<close>, \<open>exec\<close>, \<open>exit\<close> and \<open>wait\<close>
  (utils/memory.c, process/process.c) do to it.
\<close>

section \<open>The machine before boot\<close>

text \<open>
  Static data is initialised, the UART is alive, the volume has its boot signature and an \<open>INIT.BIN\<close> with the clusters \<open>cl\<close>,
  and the heap has room for seven pages.
\<close>

definition powered_on :: "kernel \<Rightarrow> nat \<Rightarrow> u32 list \<Rightarrow> bool" where
  "powered_on s e cl \<longleftrightarrow> free_memory s = 0 \<and> KERNEL_BASE \<le> kernel_end s \<and> kernel_end s \<le> HEAP_MEMORY_END
     \<and> 7 \<le> card {p. page_ok (kernel_end s) p}
     \<and> process_table s = (\<lambda>_. zero_process) \<and> pid_num s = 1 \<and> conts s 0 = To_user
     \<and> kb_front (key_buffer s) = 0 \<and> kb_end (key_buffer s) = 0 \<and> kb_size (key_buffer s) = 500
     \<and> ready_list s = \<lparr>l_next = Null, l_tail = Null\<rparr> \<and> wait_list s = \<lparr>l_next = Null, l_tail = Null\<rparr>
     \<and> kill_list s = \<lparr>l_next = Null, l_tail = Null\<rparr>
     \<and> signed (mem s) \<and> ready UART0_FR 5 s
     \<and> lookup (mem s) init_bin = Some e \<and> loadable (s\<lparr>fcb_table := (\<lambda>_. zero_FCB)\<rparr>) e cl"

lemma heap_only_image: "heap_only s s' \<Longrightarrow> image_eq (mem s) (mem s')"
  by (simp add: heap_only_def image_eq_def FS_BASE_def HEAP_MEMORY_END_def)

text \<open>What talking to devices, or setting the timer interval, may change between the steps of the boot.\<close>

definition devices_only :: "kernel \<Rightarrow> kernel \<Rightarrow> bool" where
  "devices_only s s' \<longleftrightarrow> (\<exists>ns os t. s' = s\<lparr>io_n := ns, io_out := os, timer_interval := t\<rparr>)"

lemma devices_onlyI: "s' = s\<lparr>io_n := ns, io_out := os, timer_interval := t\<rparr> \<Longrightarrow> devices_only s s'"
  by (auto simp: devices_only_def)

lemma devices_only_refl [simp]: "devices_only s s"
  unfolding devices_only_def
  by (intro exI [of _ "io_n s"] exI [of _ "io_out s"] exI [of _ "timer_interval s"]) simp

lemma devices_only_trans: "devices_only s s' \<Longrightarrow> devices_only s' s'' \<Longrightarrow> devices_only s s''"
  unfolding devices_only_def by (elim exE) (simp, intro exI, rule refl)

lemma devices_only_fields:
  assumes "devices_only s s'"
  shows "mem s' = mem s" "free_memory s' = free_memory s" "kernel_end s' = kernel_end s" "process_table s' = process_table s"
    "fcb_table s' = fcb_table s" "file_desc_table s' = file_desc_table s" "pid_num s' = pid_num s" "conts s' = conts s"
    "key_buffer s' = key_buffer s" "io_in s' = io_in s" "ready_list s' = ready_list s" "wait_list s' = wait_list s"
    "kill_list s' = kill_list s" "current_process s' = current_process s" "ttbr0 s' = ttbr0 s"
  using assms by (auto simp: devices_only_def)

lemma sent_devices: "sent t s s' \<Longrightarrow> devices_only s s'"
  unfolding sent_def by (elim exE) (rule devices_onlyI [where t = "timer_interval s"], simp)

lemma ready_devices: "devices_only s s' \<Longrightarrow> ready reg b s' = ready reg b s"
  by (simp add: ready_def devices_only_fields)

lemma powered_on_devices: "devices_only s s' \<Longrightarrow> powered_on s e cl \<Longrightarrow> powered_on s' e cl"
  by (auto simp: powered_on_def loadable_def devices_only_def ready_def)

lemma init_memory_fs:
  fixes s :: kernel
  assumes "powered_on s e cl" "\<And>x. devices_only x (d1 x)"
  shows "\<exists>s1 s2 ps m f a b. init_memory s = Inr ((), s1) \<and> init_fs (d1 s1) = Inr ((), s2) \<and> heap_inv s2 ps
     \<and> devices_only (s\<lparr>mem := m, free_memory := f, fcb_page := a, file_desc_page := b, fcb_table := (\<lambda>_. zero_FCB),
          file_desc_table := (\<lambda>_. zero_FileDesc)\<rparr>) s2
     \<and> image_eq (mem s) m \<and> files_ok s2 \<and> length ps + 2 = card {p. page_ok (kernel_end s) p}
     \<and> set ps \<union> {a, b} = {p. page_ok (kernel_end s) p}
     \<and> io_out s1 = io_out s \<and> io_out s2 = io_out (d1 s1) @ map (\<lambda>c. (UART0_DR, ucast c)) loaded_text
     \<and> io_n s1 = io_n s \<and> (\<forall>r. r \<noteq> UART0_FR \<longrightarrow> io_n s2 r = io_n (d1 s1) r)"
proof -
  note on = assms(1) [unfolded powered_on_def]
  have "heap_inv s []" using on by (simp add: heap_inv_def)
  then obtain s0 ps where s0: "init_memory s = Inr ((), s0)" "heap_inv s0 ps" "heap_only s s0"
    "set ps = {p. page_ok (kernel_end s) p}"
    using init_memory_heap on by blast
  define s1 where "s1 = d1 s0"
  have d: "devices_only s0 s1" using assms(2) by (simp add: s1_def)
  note df = devices_only_fields [OF d]
  have h1: "heap_inv s1 ps" using s0(2) by (simp add: heap_inv_def df)
  have "distinct ps" using s0(2) by (simp add: heap_inv_def)
  then have len: "length ps = card {p. page_ok (kernel_end s) p}" using s0(4) distinct_card [of ps] by simp
  have img: "image_eq (mem s) (mem s1)" using heap_only_image [OF s0(3)] by (simp add: df)
  obtain m f where m: "s0 = s\<lparr>mem := m, free_memory := f\<rparr>" using s0(3) by (auto simp: heap_only_def)
  have "2 \<le> length ps" using len conjunct1 [OF conjunct2 [OF conjunct2 [OF conjunct2 [OF on]]]] by linarith
  then obtain a b qs where ps: "ps = a # b # qs" by (cases ps; cases "tl ps"; auto)
  have "far 4294967806 (get_fs_bpb (mem s) + 0x1fe)" "far 4294967807 (get_fs_bpb (mem s) + 0x1ff)"
    using far_add [OF far_bpb [of "mem s"], of "0x1fe" 510] far_add [OF far_bpb [of "mem s"], of "0x1ff" 511] by simp_all
  then have sig: "signed (mem s1)" using on bpb_image [OF img] far_image [OF _ img] by (simp add: signed_def)
  have rd: "ready UART0_FR 5 s1" using on by (simp add: ready_devices [OF d]) (simp add: ready_def m)
  have "\<forall>j < 10. \<forall>k < 100. p_file (process_table s1 j) k = None" using on by (simp add: df m zero_process_def)
  from init_fs_spec [OF h1 this _ sig rd] obtain s1' m' f' where
    pr: "sent loaded_text s1 s1'" and
    fs: "let s' = s1'\<lparr>mem := m', free_memory := f', fcb_page := a, file_desc_page := b,
        fcb_table := (\<lambda>_. zero_FCB), file_desc_table := (\<lambda>_. zero_FileDesc)\<rparr>
      in init_fs s1 = Inr ((), s') \<and> heap_inv s' qs \<and> image_eq (mem s1) m' \<and> files_ok s'"
    using ps by auto
  define s2 where "s2 = s1'\<lparr>mem := m', free_memory := f', fcb_page := a, file_desc_page := b,
        fcb_table := (\<lambda>_. zero_FCB), file_desc_table := (\<lambda>_. zero_FileDesc)\<rparr>"
  have "init_fs s1 = Inr ((), s2)" "heap_inv s2 qs" "image_eq (mem s1) m'" "files_ok s2"
    using fs unfolding s2_def [symmetric] by (simp_all add: Let_def s2_def)
  moreover have "devices_only (s\<lparr>mem := m', free_memory := f', fcb_page := a, file_desc_page := b,
        fcb_table := (\<lambda>_. zero_FCB), file_desc_table := (\<lambda>_. zero_FileDesc)\<rparr>) s2"
  proof -
    obtain ns os t where d1: "s1' = s0\<lparr>io_n := ns, io_out := os, timer_interval := t\<rparr>"
      using devices_only_trans [OF d sent_devices [OF pr]] by (auto simp: devices_only_def)
    show ?thesis unfolding devices_only_def
      by (intro exI [of _ ns] exI [of _ os] exI [of _ t] kernel.equality) (simp_all add: s2_def d1 m)
  qed
  moreover have "set qs \<union> {a, b} = {p. page_ok (kernel_end s) p}" using s0(4) ps by auto
  moreover have "length qs + 2 = card {p. page_ok (kernel_end s) p}" using len ps by simp
  moreover have "io_out s0 = io_out s" "io_out s2 = io_out s1 @ map (\<lambda>c. (UART0_DR, ucast c)) loaded_text"
    "io_n s0 = io_n s" "\<forall>r. r \<noteq> UART0_FR \<longrightarrow> io_n s2 r = io_n s1 r"
    using pr by (auto simp: m s2_def sent_def)
  ultimately show ?thesis
    using s0(1) image_eq_trans [OF img] s1_def
    by (intro exI [of _ s0] exI [of _ s2] exI [of _ qs] exI [of _ m'] exI [of _ f'] exI [of _ a] exI [of _ b]) blast
qed

text \<open>Every process owns five pages: its stack, its user page and three tables.\<close>

lemma owned_card:
  assumes "process_ok m e p T"
  shows "finite (owned m p T)" "card (owned m p T) = 5"
  using assms space_pages_card [of m e "p_page_map p" T] by (simp_all add: process_ok_def owned_def)

lemma new_process_takes_five:
  assumes "kernel_inv s R W K T ps" "i \<in> live s" "set ps \<union> owned (mem s) (process_table s i) (T i) = set qs" "distinct qs"
  shows "length ps + 5 = length qs"
proof -
  note inv = kernel_invD [OF assms(1)]
  have "distinct ps" using inv(7) by (simp add: heap_inv_def)
  then have "length ps = card (set ps)" using distinct_card [of ps] by simp
  moreover have "length qs = card (set qs)" using distinct_card [OF assms(4)] by simp
  moreover have "card (set ps \<union> owned (mem s) (process_table s i) (T i)) = card (set ps) + 5"
    using owned_card [OF inv(8) [OF assms(2)]] memory_okD(3) [OF inv(2) assms(2)]
    by (subst card_Un_disjoint) auto
  ultimately show ?thesis using assms(3) by simp
qed

text \<open>No file is open; the load of \<open>INIT.BIN\<close> may have leaked a descriptor.\<close>

definition fresh_files :: "kernel \<Rightarrow> bool" where
  "fresh_files s \<longleftrightarrow> (\<forall>i. p_file (process_table s i) = (\<lambda>_. None)) \<and> (\<forall>f. fcb_count (fcb_table s f) = 0)
     \<and> (\<exists>d. \<forall>x. file_desc_table s x = zero_FileDesc \<or> x = d \<and> fd_count (file_desc_table s x) = 1)"

lemma fresh_filesD:
  assumes "fresh_files s"
  shows "counts_below (2 ^ 31 - 101) s" "free_fd s i \<noteq> None" "free_desc s \<noteq> None"
proof -
  obtain d where d: "\<forall>x. file_desc_table s x = zero_FileDesc \<or> x = d \<and> fd_count (file_desc_table s x) = 1"
    using assms by (auto simp: fresh_files_def)
  have "0 < sint (fd_count (file_desc_table s x)) \<and> sint (fd_count (file_desc_table s x)) < 2147483547"
    if "fcb (file_desc_table s x) \<noteq> None" for x
    using d [rule_format, of x] that by (auto simp: zero_FileDesc_def)
  then show "counts_below (2 ^ 31 - 101) s" using assms by (simp add: counts_below_def fresh_files_def)
  show "free_fd s i \<noteq> None"
    using assms by (auto simp: free_fd_def first_index_None fresh_files_def intro: exI [of _ 0])
  have "fcb (file_desc_table s (if d = 0 then 1 else 0)) = None"
    using d [rule_format, of "if d = 0 then 1 else 0"] by (auto simp: zero_FileDesc_def)
  then show "free_desc s \<noteq> None"
    by (auto simp: free_desc_def first_index_None NUM_FILE_DESC_def intro!: exI [of _ "if d = 0 then 1 else 0"])
qed

text \<open>The boot sequence of \<open>kernel_main\<close> as far as memory, files and processes are concerned.\<close>

lemma boot_sequence:
  fixes s :: kernel
  assumes "powered_on s e cl" "\<And>x. devices_only x (d1 x)" "\<And>x. devices_only x (d2 x)"
  shows "\<exists>s1 s2 s3 S ps. init_memory s = Inr ((), s1) \<and> init_fs (d1 s1) = Inr ((), s2) \<and> init_process (d2 s2) = Inr ((), s3)
     \<and> kernel_inv s3 [1] [] [] (\<lambda>i. if i = 1 then S else T i) ps \<and> current_process s3 = 0
     \<and> p_pid (process_table s3 1) = 1
     \<and> bytes (mem s3) (user_page (mem s3) S) 2097152 = program_page (mem s) e cl
     \<and> starts_program (mem s3) (p_tf (process_table s3 1))
     \<and> length ps + 7 = card {p. page_ok (kernel_end s) p}
     \<and> image_eq (mem s) (mem s3) \<and> fresh_files s3 \<and> pid_num s3 = 2
     \<and> conts s3 = (conts s)(1 := To_user) \<and> key_buffer s3 = key_buffer s \<and> io_in s3 = io_in s
     \<and> io_out s1 = io_out s \<and> io_out s2 = io_out (d1 s1) @ map (\<lambda>c. (UART0_DR, ucast c)) loaded_text
     \<and> io_n s1 = io_n s \<and> (\<forall>r. r \<noteq> UART0_FR \<longrightarrow> io_n s2 r = io_n (d1 s1) r) \<and> io_in s2 = io_in s
     \<and> io_out s3 = io_out (d2 s2) \<and> timer_interval s3 = timer_interval (d2 s2) \<and> kernel_end s3 = kernel_end s"
proof -
  note on = assms(1) [unfolded powered_on_def]
  obtain s1 s1' qs m f a b where s1: "init_memory s = Inr ((), s1)" "init_fs (d1 s1) = Inr ((), s1')" "heap_inv s1' qs"
    "devices_only (s\<lparr>mem := m, free_memory := f, fcb_page := a, file_desc_page := b, fcb_table := (\<lambda>_. zero_FCB),
          file_desc_table := (\<lambda>_. zero_FileDesc)\<rparr>) s1'"
    "image_eq (mem s) m" "files_ok s1'" "length qs + 2 = card {p. page_ok (kernel_end s) p}"
    and out: "io_out s1 = io_out s" "io_out s1' = io_out (d1 s1) @ map (\<lambda>c. (UART0_DR, ucast c)) loaded_text"
      "io_n s1 = io_n s" "\<forall>r. r \<noteq> UART0_FR \<longrightarrow> io_n s1' r = io_n (d1 s1) r"
    using init_memory_fs [OF assms(1,2)] by blast
  have "io_in s1' = io_in s" using devices_only_fields(10) [OF s1(4)] by simp
  note out = out this
  define s2 where "s2 = d2 s1'"
  have d: "devices_only s1' s2" using assms(3) by (simp add: s2_def)
  note f2 = devices_only_fields [OF devices_only_trans [OF s1(4) d]]
  have s2: "init_memory s = Inr ((), s1)" "init_fs (d1 s1) = Inr ((), s1')" "heap_inv s2 qs" "mem s2 = m" "image_eq (mem s) m"
    "files_ok s2" "length qs + 2 = card {p. page_ok (kernel_end s) p}"
    using s1 devices_only_fields [OF d] files_ok_cong [OF s1(6), of s2] by (simp_all add: heap_inv_def f2)
  have "unstarted s2 qs" using s2(3,6) on by (simp add: unstarted_def f2 zero_process_def)
  from init_idle_spec [OF this, of T] obtain s3 where s3: "init_idle_process s2 = Inr ((), s3)"
    "kernel_inv s3 [] [] [] T qs" "current_process s3 = 0" "find_unused_process s3 = Some 1" "mem s3 = mem s2"
    "fcb_table s3 = fcb_table s2" "file_desc_table s3 = file_desc_table s2" "pid_num s3 = pid_num s2"
    "\<forall>i. p_file (process_table s3 i) = p_file (process_table s2 i)" "conts s3 = conts s2" "key_buffer s3 = key_buffer s2"
    "io_in s3 = io_in s2" "io_out s3 = io_out s2" "timer_interval s3 = timer_interval s2" "kernel_end s3 = kernel_end s2"
    by blast
  have e: "e < 65536" using lookup_less [of "mem s" init_bin e] root_count_less [of "mem s"] on by simp
  have lk: "lookup (mem s3) init_bin = Some e" using lookup_image [OF s2(5)] on by (simp add: s3(5) s2(4))
  have ld: "loadable s3 e cl" "program_page (mem s3) e cl = program_page (mem s) e cl"
    using loadable_image [of "s\<lparr>fcb_table := (\<lambda>_. zero_FCB)\<rparr>" s3 e cl] e s2(5) on s3(5,6)
    by (simp_all add: s2(4) f2 program_page_def)
  have "free_fd s3 1 \<noteq> None" "free_desc s3 \<noteq> None"
    using s3(7,9) on by (auto simp: free_fd_def free_desc_def f2 zero_process_def zero_FileDesc_def first_index_None NUM_FILE_DESC_def intro: exI [of _ 0])
  moreover have "5 \<le> length qs" using s2(7) on by linarith
  moreover have "sint (pid_num s3) < 2 ^ 31 - 1" "\<forall>f. sint (fcb_count (fcb_table s3 f)) < 2 ^ 31 - 1"
    using on s3(6,8) by (simp_all add: f2 zero_FCB_def)
  ultimately obtain s4 S ps where s4: "init_user_process s3 = Inr ((), s4)" "kernel_inv s4 [1] [] [] (T(1 := S)) ps"
    "current_process s4 = 0" "p_pid (process_table s4 1) = pid_num s3"
    "bytes (mem s4) (user_page (mem s4) S) 2097152 = program_page (mem s3) e cl"
    "starts_program (mem s4) (p_tf (process_table s4 1))"
    "set ps \<union> owned (mem s4) (process_table s4 1) S = set qs" "image_eq (mem s3) (mem s4)" "one_leak s3 s4"
    "\<forall>j. p_file (process_table s4 j) = p_file (process_table s3 j)" "pid_num s4 = pid_num s3 + 1"
    "conts s4 = (conts s3)(1 := To_user)" "key_buffer s4 = key_buffer s3" "io_in s4 = io_in s3"
    "io_out s4 = io_out s3" "timer_interval s4 = timer_interval s3" "kernel_end s4 = kernel_end s3"
    using init_user_spec [OF s3(2,4) _ _ _ lk ld(1)] s3(3) by auto
  have "1 \<in> live s4" using live_queues [OF kernel_invD(1) [OF s4(2)]] by simp
  then have "length ps + 5 = length qs"
    using new_process_takes_five [OF s4(2), of 1 qs] s4(7) s2(3) by (simp add: heap_inv_def)
  moreover have "T(1 := S) = (\<lambda>i. if i = 1 then S else T i)" by auto
  moreover have "init_process s2 = Inr ((), s4)" using s3(1) s4(1) by (simp add: init_process_def)
  moreover have "fresh_files s4"
    using s4(9,10) s3(6,7,9) on unfolding fresh_files_def one_leak_def
    by (auto simp: f2 zero_FCB_def zero_FileDesc_def zero_process_def)
  moreover have "image_eq (mem s) (mem s4)" using image_eq_trans [OF s2(5)] s4(8) s3(5) by (simp add: s2(4))
  ultimately show ?thesis
    using s2(1,2,7) s4(2-6,11-17) ld(2) s3(8,10-15) on out
    by (intro exI [of _ s1] exI [of _ s1'] exI [of _ s4] exI [of _ S] exI [of _ ps]) (simp add: f2 s2_def [symmetric])
qed

section \<open>A machine for the examples\<close>

text \<open>The volume of the examples and all the memory of the Raspberry Pi's heap area.\<close>

definition sample_machine :: kernel where
  "sample_machine = sample_kernel\<lparr>mem := sample_image, process_table := (\<lambda>_. zero_process),
     ready_list := \<lparr>l_next = Null, l_tail = Null\<rparr>, wait_list := \<lparr>l_next = Null, l_tail = Null\<rparr>,
     kill_list := \<lparr>l_next = Null, l_tail = Null\<rparr>, pid_num := 1\<rparr>"

lemma sample_heap_pages: "20 \<le> card {p. page_ok 0xffff000000200000 p}"
proof -
  let ?ps = "map (\<lambda>i. 0xffff000000400000 + of_nat i * PAGE_SIZE) [0..<20]"
  have "distinct ?ps" by (simp add: upt_rec PAGE_SIZE_def)
  then have "card (set ?ps) = 20" using distinct_card [of ?ps] by simp
  moreover have "set ?ps \<subseteq> {p. page_ok 0xffff000000200000 p}"
    by (simp add: upt_rec page_ok_def addr_defs)
  then have "card (set ?ps) \<le> card {p. page_ok 0xffff000000200000 p}" by (intro card_mono) simp_all
  ultimately show ?thesis by simp
qed

lemma sample_powered_on: "powered_on sample_machine 0 [2, 3]"
proof -
  have "dir_cluster (dir_entry sample_image 0) = 2" "dir_file_size (dir_entry sample_image 0) = 1024"
    by (simp_all add: dir_entry_def load_DirEntry_def sample_clusters ld16_bytes ld32_bytes add.assoc sample_at sample_byte_def)
  then have "loadable (sample_machine\<lparr>fcb_table := (\<lambda>_. zero_FCB)\<rparr>) 0 [2, 3]"
    using sample_chain by (simp add: loadable_def sample_machine_def zero_FCB_def)
  moreover have "signed (mem sample_machine)"
    by (simp add: sample_machine_def signed_def sample_bpb sample_at sample_byte_def)
  moreover have "ready UART0_FR 5 sample_machine" by (auto simp: ready_def sample_machine_def sample_kernel_def)
  moreover have "7 \<le> card {p. page_ok (kernel_end sample_machine) p}"
    using sample_heap_pages by (simp add: sample_machine_def sample_kernel_def)
  ultimately show ?thesis
    using sample_lookup
    by (simp add: powered_on_def) (simp add: sample_machine_def sample_kernel_def addr_defs)
qed

text \<open>It runs its first process.\<close>

definition running :: "kernel \<Rightarrow> (nat \<Rightarrow> table_map) \<Rightarrow> u64 list \<Rightarrow> bool" where
  "running s T ps \<longleftrightarrow> kernel_inv s [] [] [] T ps \<and> current_process s = 1 \<and> 10 \<le> length ps \<and> fresh_files s
     \<and> image_eq sample_image (mem s) \<and> pid_num s = 2 \<and> p_pid (process_table s 1) = 1
     \<and> kernel_end s = 0xffff000000200000"

lemma sample_running: "\<exists>s T ps. running s T ps"
proof -
  obtain s S ps where s: "kernel_inv s [1] [] [] (\<lambda>i. if i = 1 then S else Map.empty) ps" "current_process s = 0"
    "p_pid (process_table s 1) = 1" "length ps + 7 = card {p. page_ok (kernel_end sample_machine) p}"
    "image_eq (mem sample_machine) (mem s)" "fresh_files s" "pid_num s = 2" "kernel_end s = kernel_end sample_machine"
    using boot_sequence [OF sample_powered_on, of "\<lambda>x. x" "\<lambda>x. x" "\<lambda>_. Map.empty"] by auto
  obtain s' where s': "switched To_user s [1] s'" "kernel_inv s' [] [] [] (\<lambda>i. if i = 1 then S else Map.empty) ps"
    using kernel_yield_switch [OF s(1)] s(2) by auto
  have st: "sched_step s s'" "current_process s' = 1" using s'(1) by (simp_all add: switched_def next_process_def)
  note f = sched_step_fields [OF st(1)]
  have "20 \<le> card {p. page_ok (kernel_end sample_machine) p}"
    using sample_heap_pages by (simp add: sample_machine_def sample_kernel_def)
  then have "10 \<le> length ps" using s(4) by linarith
  moreover have "fresh_files s'" using s(6) by (simp add: fresh_files_def f)
  moreover have "image_eq sample_image (mem s')" using s(5) by (simp add: f) (simp add: sample_machine_def)
  ultimately have "running s' (\<lambda>i. if i = 1 then S else Map.empty) ps"
    using s' st(2) s(3,7,8) by (simp add: running_def f sample_machine_def sample_kernel_def)
  then show ?thesis by blast
qed

lemma free_slot_exists:
  assumes "sched_inv s R W K" "card (set (R @ W @ K)) < 8"
  shows "find_unused_process s \<noteq> None"
proof
  assume "find_unused_process s = None"
  then have "{1..<10} \<subseteq> live s"
    by (auto simp: find_unused_process_def first_index_None live_def NUM_PROC_def)
  then have "{1..<10} \<subseteq> insert (current_process s) (set (R @ W @ K))" using live_queues [OF assms(1)] by auto
  then have "card {1..<10::nat} \<le> card (insert (current_process s) (set (R @ W @ K)))" by (intro card_mono) simp_all
  also have "\<dots> \<le> Suc (card (set (R @ W @ K)))" by (simp add: card_insert_if)
  finally show False using assms(2) by simp
qed

text \<open>Process 1 has forked a child, which has exited.\<close>

lemma sample_orphan:
  "\<exists>s i T ps. kernel_inv s [] [] [i] T ps \<and> current_process s = 1 \<and> find (waits_for 2 s) [i] = Some i"
proof -
  obtain s T ps where s: "running s T ps" using sample_running by blast
  then have inv: "kernel_inv s [] [] [] T ps" and c: "current_process s = 1" by (simp_all add: running_def)
  obtain i where i: "find_unused_process s = Some i" using free_slot_exists [OF kernel_invD(1) [OF inv]] by auto
  obtain s1 S ps1 where s1: "kernel_inv s1 [i] [] [] (T(i := S)) ps1" "current_process s1 = 1"
    "p_pid (process_table s1 i) = 2"
    using fork_runs [OF inv _ _ _ i] s fresh_filesD(1) by (force simp: running_def)
  obtain s2 where s2: "switched To_user s1 [i] s2" "kernel_inv s2 [1] [] [] (T(i := S)) ps1"
    using kernel_yield_switch [OF s1(1)] s1(2) by auto
  have st2: "sched_step s1 s2" using s2(1) by (simp add: switched_def)
  have c2: "current_process s2 = i" "p_pid (process_table s2 i) = 2"
    using s2(1) s1(3) sched_step_fields(10) [OF st2] by (simp_all add: switched_def next_process_def)
  have "i \<noteq> 0" using kernel_inv_current(3) [OF s1(1)] by simp
  then obtain s3 where s3: "switched Exited s2 [1] s3" "kernel_inv s3 [] [] [i] (T(i := S)) ps1"
    using kernel_exit [OF s2(2)] c2(1) by auto
  have "p_wait (process_table s3 i) = p_pid (process_table s3 i)" using kernel_invD(5) [OF s3(2)] by simp
  moreover have "sched_step s2 s3" using s3(1) by (simp add: switched_def)
  ultimately have "find (waits_for 2 s3) [i] = Some i"
    using c2(2) sched_step_fields(10) [of s2 s3] by (simp add: waits_for_def)
  moreover have "current_process s3 = 1" using s3(1) by (simp add: switched_def next_process_def)
  ultimately show ?thesis using s3(2) by blast
qed

section \<open>Properties\<close>

text \<open>
  Property C5: \<open>fork\<close> with a free slot in the process table and five free pages returns the next
  process id and makes a child that is ready, owns five pages of its own, sees a copy of its
  parent's user page, has the parent's open files and its trap frame but for 0 in \<open>x0\<close>. The
  kernel invariant holds again, no other process is touched and no page is lost. With no free
  slot it goes on with a null pointer; with fewer than five free pages it fails an assertion.
\<close>

theorem fork_makes_a_copy:
  assumes "kernel_inv s R W K T ps" "current_process s \<noteq> 0" "counts_below (2 ^ 31 - 101) s"
    "sint (pid_num s) < 2 ^ 31 - 1"
  defines "c \<equiv> current_process s"
  shows "case find_unused_process s of
      None \<Rightarrow> fork s = Inl Null_pointer
    | Some i \<Rightarrow> if length ps < 5 then fork s = Inl Assert_failed
        else \<exists>s' S ps'. fork s = Inr (pid_num s, s')
           \<and> kernel_inv s' (R @ [i]) W K (T(i := S)) ps' \<and> current_process s' = c
           \<and> p_pid (process_table s' i) = pid_num s \<and> p_file (process_table s' i) = p_file (process_table s c)
           \<and> bytes (mem s') (user_page (mem s') S) 2097152 = bytes (mem s) (user_page (mem s) (T c)) 2097152
           \<and> ld64 (mem s') (p_tf (process_table s' i)) = 0
           \<and> (\<forall>k. 8 \<le> k \<and> k < 288 \<longrightarrow>
                mem s' (p_tf (process_table s' i) + of_nat k) = mem s (p_tf (process_table s c) + of_nat k))
           \<and> keeps_pages (set ps) s s' \<and> set ps' \<union> owned (mem s') (process_table s' i) S = set ps"
proof (cases "find_unused_process s")
  case None
  then show ?thesis using fork_fails(1) [OF assms(1)] by simp
next
  case (Some i)
  show ?thesis
  proof (cases "length ps < 5")
    case True
    with fork_short_of_pages [OF assms(1,2) Some] Some show ?thesis by simp
  next
    case False
    with fork_runs [OF assms(1-4) Some] Some show ?thesis unfolding c_def by (simp add: not_less) blast
  qed
qed

lemma fork_makes_a_copy_witness:
  "\<exists>s i s' R T ps. current_process s = 1 \<and> fork s = Inr (2, s') \<and> kernel_inv s' (R @ [i]) [] [] T ps
     \<and> p_pid (process_table s' i) = 2"
proof -
  obtain s T ps where s: "running s T ps" using sample_running by blast
  then have inv: "kernel_inv s [] [] [] T ps" and c: "current_process s = 1" by (simp_all add: running_def)
  have "find_unused_process s \<noteq> None" using free_slot_exists [OF kernel_invD(1) [OF inv]] by simp
  then obtain i where i: "find_unused_process s = Some i" by blast
  have "counts_below (2 ^ 31 - 101) s" "current_process s \<noteq> 0" "sint (pid_num s) < 2 ^ 31 - 1"
    using s fresh_filesD(1) by (simp_all add: running_def)
  from fork_makes_a_copy [OF inv this(2,1,3)] i s
  have "\<exists>s' S ps'. fork s = Inr (2, s') \<and> kernel_inv s' ([] @ [i]) [] [] (T(i := S)) ps' \<and> p_pid (process_table s' i) = 2"
    unfolding running_def by simp blast
  then show ?thesis using c by blast
qed

text \<open>
  Property C6: \<open>exec\<close> by the running process. If the file is not found or cannot be opened, the process
  exits and another one runs. Otherwise its page holds the program file and zeros, its trap frame
  is reset to start it, the kernel invariant holds, and no heap page but its user page and its
  stack is written.
\<close>

theorem exec_replaces_program:
  fixes s :: kernel
  defines "c \<equiv> current_process s"
  assumes "kernel_inv s R W K T ps" "c \<noteq> 0" "0 \<notin> set p"
    "\<forall>e. lookup (mem s) p = Some e \<longrightarrow> loadable s e (cl e) \<and> sint (fcb_count (fcb_table s e)) < 2 ^ 31 - 1"
  shows "case (lookup (mem s) p, free_fd s c, free_desc s) of
      (Some e, Some _, Some _) \<Rightarrow> \<exists>s'. exec c (cstr p) s = Inr (Done 0, s') \<and> kernel_inv s' R W K T ps
        \<and> bytes (mem s') (user_page (mem s') (T c)) 2097152 = program_page (mem s) e (cl e)
        \<and> starts_program (mem s') (p_tf (process_table s' c)) \<and> process_table s' = process_table s
        \<and> current_process s' = c
        \<and> keeps_pages {user_page (mem s) (T c), p_stack (process_table s c)} s s'
    | _ \<Rightarrow> \<exists>s' R' W'. exec c (cstr p) s = Inr (Switched, s') \<and> kernel_inv s' R' W' (K @ [c]) T ps
        \<and> sched_step s s'"
proof (cases "lookup (mem s) p = None \<or> free_fd s c = None \<or> free_desc s = None")
  case True
  from exec_fails [OF assms(2) _ assms(4) this] assms(3) show ?thesis
    using True unfolding switched_def c_def by (auto split: option.split)
next
  case False
  then obtain e where e: "lookup (mem s) p = Some e" by auto
  have "loadable s e (cl e)" "sint (fcb_count (fcb_table s e)) < 2 ^ 31 - 1" using assms(5) e by simp_all
  from exec_runs [OF assms(2) assms(3)[unfolded c_def] assms(4) e this(1) _ _ this(2)] False
  show ?thesis unfolding c_def [symmetric] by (auto simp: e)
qed

lemma exec_replaces_program_witness:
  "\<exists>s s'. current_process s = 1 \<and> exec 1 (cstr init_bin) s = Inr (Done 0, s')
     \<and> starts_program (mem s') (p_tf (process_table s' 1))"
proof -
  obtain s T ps where s: "running s T ps" using sample_running by blast
  then have inv: "kernel_inv s [] [] [] T ps" and c: "current_process s = 1" and fr: "fresh_files s"
    and img: "image_eq (mem sample_machine) (mem s)" by (simp_all add: running_def sample_machine_def)
  note on = sample_powered_on [unfolded powered_on_def]
  have lk: "lookup (mem s) init_bin = Some 0" using lookup_image [OF img] on by simp
  have count: "fcb_count (fcb_table s f) = 0" for f using fr by (simp add: fresh_files_def)
  have "loadable (sample_machine\<lparr>fcb_table := (\<lambda>_. zero_FCB)\<rparr>) 0 [2, 3]" using on by simp
  then have "loadable (sample_machine\<lparr>fcb_table := fcb_table s\<rparr>) 0 [2, 3]"
    using count by (simp add: loadable_def Let_def)
  then have "loadable s 0 [2, 3]"
    using loadable_image(1) [of "sample_machine\<lparr>fcb_table := fcb_table s\<rparr>" s 0 "[2, 3]"] img by simp
  with lk count have "\<forall>e. lookup (mem s) init_bin = Some e \<longrightarrow>
      loadable s e ((\<lambda>_. [2, 3]) e) \<and> sint (fcb_count (fcb_table s e)) < 2 ^ 31 - 1" by simp
  moreover obtain k d where fd: "free_fd s 1 = Some k" "free_desc s = Some d" using fresh_filesD(2,3) [OF fr] by blast
  ultimately have "\<exists>s'. exec 1 (cstr init_bin) s = Inr (Done 0, s') \<and> starts_program (mem s') (p_tf (process_table s' 1))"
    using exec_replaces_program [OF inv, of init_bin "\<lambda>_. [2, 3]"] unfolding c lk fd by auto
  with c show ?thesis by blast
qed

text \<open>
  Property C7: \<open>exit\<close> and \<open>wait\<close>. A process that exits goes to the kill queue under its own id, wakes
  the waiting parents and loses the processor. A \<open>wait\<close> for the id of a killed process returns at
  once: the first such process leaves the queue, its stack, its page and its three tables are back
  on the free list, its slot is all zero and no other process is touched; otherwise the caller
  sleeps until the next exit and will look again. Both keep the kernel invariant.
\<close>

theorem exit_then_wait:
  assumes "kernel_inv s R W K T ps" "current_process s \<noteq> 0"
  shows "(\<exists>s' R' W'. exit s = Inr ((), s') \<and> kernel_inv s' R' W' (K @ [current_process s]) T ps
        \<and> current_process s' = next_process (R @ filter (waits_for (- 3) s) W)
        \<and> set (R' @ W') = set (R @ W) - {current_process s'} \<and> (\<forall>j \<in> set W'. \<not> waits_for (- 3) s j))
    \<and> (case find (waits_for pid s) K of
        Some i \<Rightarrow> \<exists>s' ps'. wait pid s = Inr (Done (), s') \<and> kernel_inv s' R W (remove1 i K) T ps'
          \<and> length ps' = length ps + 5 \<and> set ps' = set ps \<union> owned (mem s) (process_table s i) (T i)
          \<and> process_table s' i = zero_process \<and> current_process s' = current_process s
          \<and> (\<forall>j \<in> live s'. owned (mem s') (process_table s' j) (T j) = owned (mem s) (process_table s j) (T j))
      | None \<Rightarrow> \<exists>s'. wait pid s = Inr (Switched, s') \<and> current_process s' = next_process R
          \<and> conts s' = (conts s)(current_process s := Wait_loop pid) \<and> waits_for (- 3) s' (current_process s)
          \<and> kernel_inv s' (tl R) (W @ [current_process s]) K T ps)"
proof
  let ?c = "current_process s" let ?R = "R @ filter (waits_for (- 3) s) W" let ?W = "filter (\<lambda>j. \<not> waits_for (- 3) s j) W"
  obtain s' where s': "exit s = Inr ((), s')" "switched Exited s ?R s'" "kernel_inv s' (tl ?R) ?W (K @ [?c]) T ps"
    using kernel_exit [OF assms] by blast
  have c: "current_process s' = next_process ?R" using s'(2) by (simp add: switched_def)
  have z: "0 \<notin> set (R @ W)" using kernel_inv_current(3) [OF assms(1)] by auto
  have "distinct ?R" using kernel_inv_current(4) [OF assms(1)] by auto
  then have "set (tl ?R) = set ?R - {next_process ?R}"
    using z by (cases ?R) (auto simp: next_process_def)
  moreover have "next_process ?R \<notin> set ?W"
  proof -
    have "next_process ?R \<in> insert 0 (set ?R)" by (cases ?R) (simp_all add: next_process_def)
    moreover have "set ?R \<inter> set ?W = {}" using kernel_inv_current(4) [OF assms(1)] by auto
    ultimately show ?thesis using z by auto
  qed
  moreover have "set ?R \<union> set ?W = set (R @ W)" by auto
  ultimately have "set (tl ?R @ ?W) = set (R @ W) - {current_process s'}" using c by auto
  with s' c show "\<exists>s' R' W'. exit s = Inr ((), s') \<and> kernel_inv s' R' W' (K @ [?c]) T ps
      \<and> current_process s' = next_process ?R
      \<and> set (R' @ W') = set (R @ W) - {current_process s'} \<and> (\<forall>j \<in> set W'. \<not> waits_for (- 3) s j)"
    by (intro exI [of _ s'] exI [of _ "tl ?R"] exI [of _ ?W]) simp
next
  let ?c = "current_process s"
  show "case find (waits_for pid s) K of
        Some i \<Rightarrow> \<exists>s' ps'. wait pid s = Inr (Done (), s') \<and> kernel_inv s' R W (remove1 i K) T ps'
          \<and> length ps' = length ps + 5 \<and> set ps' = set ps \<union> owned (mem s) (process_table s i) (T i)
          \<and> process_table s' i = zero_process \<and> current_process s' = ?c
          \<and> (\<forall>j \<in> live s'. owned (mem s') (process_table s' j) (T j) = owned (mem s) (process_table s j) (T j))
      | None \<Rightarrow> \<exists>s'. wait pid s = Inr (Switched, s') \<and> current_process s' = next_process R
          \<and> conts s' = (conts s)(?c := Wait_loop pid) \<and> waits_for (- 3) s' ?c
          \<and> kernel_inv s' (tl R) (W @ [?c]) K T ps"
  proof (cases "find (waits_for pid s) K")
    case None
    with kernel_wait_none [OF assms(1) None assms(2)] show ?thesis by auto
  next
    case (Some i)
    obtain s' ps' where s': "wait pid s = Inr (Done (), s')" "kernel_inv s' R W (remove1 i K) T ps'"
      "set ps' = set ps \<union> owned (mem s) (process_table s i) (T i)" "process_table s' i = zero_process"
      "current_process s' = ?c"
      "\<forall>j \<in> live s'. owned (mem s') (process_table s' j) (T j) = owned (mem s) (process_table s j) (T j)"
      using kernel_wait_found [OF assms(1) Some] by blast
    have "i \<in> set K" using Some by (auto simp: find_Some_iff)
    moreover from this have "i \<noteq> 0" using kernel_inv_current(3) [OF assms(1)] by auto
    ultimately have "i \<in> live s" unfolding live_queues [OF kernel_invD(1) [OF assms(1)]] by simp
    then have "length ps + 5 = length ps'"
      using new_process_takes_five [OF assms(1), of i ps'] s'(3) kernel_invD(7) [OF s'(2)] by (simp add: heap_inv_def)
    with s' Some show ?thesis by auto
  qed
qed

lemma exit_then_wait_witness:
  "\<exists>s i s' T ps'. current_process s = 1 \<and> wait 2 s = Inr (Done (), s') \<and> process_table s' i = zero_process
     \<and> kernel_inv s' [] [] [] T ps'"
proof -
  obtain s i T ps where s: "kernel_inv s [] [] [i] T ps" "current_process s = 1" "find (waits_for 2 s) [i] = Some i"
    using sample_orphan by blast
  from exit_then_wait [OF s(1), of 2] s(2,3) obtain s' ps' where "wait 2 s = Inr (Done (), s')"
    "process_table s' i = zero_process" "kernel_inv s' [] [] (remove1 i [i]) T ps'" by auto
  then have "wait 2 s = Inr (Done (), s') \<and> process_table s' i = zero_process \<and> kernel_inv s' [] [] [] T ps'" by simp
  with s(2) show ?thesis by blast
qed

end
