(* ===== verification/Devices.thy ===== *)
theory Devices
  imports Lifecycle Console
begin

text \<open>
  Interrupt sources: the generic timer (timer/generic_timer.c and .s), the interrupt controller
  (irq/irq.c), the keyboard behind the UART (uart/uart.c, keyboard/keyboard.c) and its ring buffer, which
  is shown to be a bounded queue.
\<close>

section \<open>Registers\<close>

definition IRQ_BASIC_PENDING :: u64 where "IRQ_BASIC_PENDING = IO_BASE_ADDR + 0xB200"
definition ENABLE_IRQS_2 :: u64 where "ENABLE_IRQS_2 = IO_BASE_ADDR + 0xB214"
definition DISABLE_IRQS_1 :: u64 where "DISABLE_IRQS_1 = IO_BASE_ADDR + 0xB21C"
definition DISABLE_IRQS_2 :: u64 where "DISABLE_IRQS_2 = IO_BASE_ADDR + 0xB220"
definition DISABLE_BASIC_IRQS :: u64 where "DISABLE_BASIC_IRQS = IO_BASE_ADDR + 0xB224"
definition CNTP_EL0 :: u64 where "CNTP_EL0 = P2V 0x40000040"
definition CNTP_STATUS_EL0 :: u64 where "CNTP_STATUS_EL0 = P2V 0x40000060"

text \<open>
  The timer's system registers are read and written with \<open>mrs\<close> and \<open>msr\<close>. They are modelled like device
  registers, under the numbers that encode them in those instructions.
\<close>

definition CNTFRQ_EL0 :: u64 where "CNTFRQ_EL0 = 0xDF00"
definition CNTP_TVAL_EL0 :: u64 where "CNTP_TVAL_EL0 = 0xDF10"
definition CNTP_CTL_EL0 :: u64 where "CNTP_CTL_EL0 = 0xDF11"

section \<open>The interrupt controller\<close>

definition init_interrupt_controller :: "'a machine_scheme \<Rightarrow> 'a machine_scheme" where
  "init_interrupt_controller s =
     outw ENABLE_IRQS_2 (push_bit 25 1)
     (outw DISABLE_IRQS_2 0xffffffff
     (outw DISABLE_IRQS_1 0xffffffff
     (outw DISABLE_BASIC_IRQS 0xffffffff s)))"

definition get_irq_number :: "'a machine_scheme \<Rightarrow> u32 \<times> 'a machine_scheme" where
  "get_irq_number s = inw IRQ_BASIC_PENDING s"

section \<open>The timer\<close>

definition read_timer_freq :: "'a machine_scheme \<Rightarrow> u32 \<times> 'a machine_scheme" where
  "read_timer_freq s = inw CNTFRQ_EL0 s"

definition set_timer_interval :: "u32 \<Rightarrow> 'a machine_scheme \<Rightarrow> 'a machine_scheme" where
  "set_timer_interval value s = outw CNTP_TVAL_EL0 value s"

definition enable_timer :: "'a machine_scheme \<Rightarrow> 'a machine_scheme" where
  "enable_timer s = (let (freq, s) = read_timer_freq s in
     outw CNTP_CTL_EL0 1 (set_timer_interval (freq div 100) s))"

definition read_timer_status :: "'a machine_scheme \<Rightarrow> u32 \<times> 'a machine_scheme" where
  "read_timer_status s = inw CNTP_CTL_EL0 s"

definition get_ticks :: "kernel \<Rightarrow> u64" where
  "get_ticks s = ticks s"

definition init_timer :: "kernel \<Rightarrow> kernel" where
  "init_timer s = (let (freq, s) = read_timer_freq s;
     s = s\<lparr>timer_interval := freq div 100\<rparr>
     in outw CNTP_EL0 (push_bit 1 1) (enable_timer s))"

definition timer_interrupt_handler :: "kernel \<Rightarrow> (unit, kernel) outcome" where
  "timer_interrupt_handler s = (let (status, s) = read_timer_status s in
     if status AND push_bit 2 1 \<noteq> 0 then
       kbind (wake_up (- 1) (s\<lparr>ticks := ticks s + 1\<rparr>)) (\<lambda>_ s.
       Inr ((), set_timer_interval (timer_interval s) s))
     else Inr ((), s))"

section \<open>The keyboard\<close>

text \<open>C's remainder: the sign of the dividend; on AArch64 the dividend itself for a zero divisor.\<close>

definition c_rem :: "i32 \<Rightarrow> i32 \<Rightarrow> i32" where
  "c_rem a b = (if b = 0 then a else word_of_int (sgn (sint a) * (\<bar>sint a\<bar> mod \<bar>sint b\<bar>)))"

definition KEYBOARD_BUFFER_MAX :: nat where "KEYBOARD_BUFFER_MAX = 500"

text \<open>An index into \<open>buffer\<close>; outside the array the access is undefined.\<close>

definition buffer_index :: "i32 \<Rightarrow> nat option" where
  "buffer_index i = (if 0 \<le> sint i \<and> sint i < int KEYBOARD_BUFFER_MAX then Some (nat (sint i)) else None)"

definition write_key_buffer :: "u8 \<Rightarrow> KeyboardBuffer \<Rightarrow> (unit, KeyboardBuffer) outcome" where
  "write_key_buffer ch kb =
     (let front = kb_front kb; e = kb_end kb; n = kb_size kb in
      if c_rem (e + 1) n = front then Inr ((), kb)
      else case buffer_index e of
        None \<Rightarrow> Inl Out_of_bounds
      | Some i \<Rightarrow> Inr ((), kb\<lparr>kb_buffer := (kb_buffer kb)(i := ch), kb_end := c_rem (e + 1) n\<rparr>))"

text \<open>
  \<open>read_key_buffer\<close> up to the \<open>sleep\<close>, and from there on with the \<open>front\<close> that it read before.
\<close>

definition take_key :: "i32 \<Rightarrow> KeyboardBuffer \<Rightarrow> (u8, KeyboardBuffer) outcome" where
  "take_key front kb =
     (let kb = kb\<lparr>kb_front := c_rem (kb_front kb + 1) (kb_size kb)\<rparr> in
      case buffer_index front of
        None \<Rightarrow> Inl Out_of_bounds
      | Some i \<Rightarrow> Inr (kb_buffer kb i, kb))"

definition on_keys :: "(KeyboardBuffer \<Rightarrow> ('a, KeyboardBuffer) outcome) \<Rightarrow> kernel \<Rightarrow> ('a, kernel) outcome" where
  "on_keys f s = (case f (key_buffer s) of Inl h \<Rightarrow> Inl h | Inr (x, kb) \<Rightarrow> Inr (x, s\<lparr>key_buffer := kb\<rparr>))"

definition read_key_buffer :: "kernel \<Rightarrow> (u8 progress, kernel) outcome" where
  "read_key_buffer s =
     (let front = kb_front (key_buffer s) in
      if front = kb_end (key_buffer s)
      then kbind (sleep (- 2) (Key_read front) s) (\<lambda>_ s. Inr (Switched, s))
      else kbind (on_keys (take_key front) s) (\<lambda>c s. Inr (Done c, s)))"

definition keyboard_handler :: "kernel \<Rightarrow> (unit, kernel) outcome" where
  "keyboard_handler s =
     kbind (read_char s) (\<lambda>ch s.
     kbind (on_keys (write_key_buffer ch) s) (\<lambda>_ s.
     wake_up (- 2) s))"

definition uart_interrupt_handler :: "kernel \<Rightarrow> (unit, kernel) outcome" where
  "uart_interrupt_handler s = (let (status, s) = inw UART0_MIS s in
     if status AND push_bit 4 1 \<noteq> 0 then
       kbind (keyboard_handler s) (\<lambda>_ s. Inr ((), outw UART0_ICR (push_bit 4 1) s))
     else Inr ((), s))"

section \<open>Bounded queues\<close>

text \<open>Reading \<open>n\<close> elements one after the other.\<close>

primrec take_n :: "nat \<Rightarrow> ('q \<Rightarrow> ('a, 'q) outcome) \<Rightarrow> 'q \<Rightarrow> ('a list, 'q) outcome" where
  "take_n 0 get q = Inr ([], q)"
| "take_n (Suc n) get q = kbind (get q) (\<lambda>x q. kbind (take_n n get q) (\<lambda>xs q. Inr (x # xs, q)))"

text \<open>What a reader relies on: a full queue drops what is put, everything else comes out in order.\<close>

locale bounded_queue =
  fixes inv :: "'q \<Rightarrow> bool" and content :: "'q \<Rightarrow> 'a list" and cap :: nat
    and put :: "'a \<Rightarrow> 'q \<Rightarrow> (unit, 'q) outcome" and get :: "'q \<Rightarrow> ('a, 'q) outcome"
  assumes put: "inv q \<Longrightarrow> \<exists>q'. put x q = Inr ((), q') \<and> inv q'
      \<and> content q' = (if length (content q) < cap then content q @ [x] else content q)"
    and get: "inv q \<Longrightarrow> content q = y # ys \<Longrightarrow> \<exists>q'. get q = Inr (y, q') \<and> inv q' \<and> content q' = ys"
    and size_le: "inv q \<Longrightarrow> length (content q) \<le> cap"
begin

lemma puts:
  assumes "inv q"
  shows "\<exists>q'. for_each xs put q = Inr ((), q') \<and> inv q' \<and> content q' = take cap (content q @ xs)"
  using assms
proof (induction xs arbitrary: q)
  case Nil
  then show ?case using size_le [of q] by simp
next
  case (Cons x xs)
  obtain q1 where q1: "put x q = Inr ((), q1)" "inv q1"
    "content q1 = (if length (content q) < cap then content q @ [x] else content q)"
    using put [OF Cons.prems] by blast
  obtain q' where q': "for_each xs put q1 = Inr ((), q')" "inv q'" "content q' = take cap (content q1 @ xs)"
    using Cons.IH [OF q1(2)] by blast
  have "content q' = take cap (content q @ x # xs)"
    using q'(3) q1(3) size_le [OF Cons.prems] by (cases "length (content q) < cap") simp_all
  with q1(1) q'(1,2) show ?case by simp
qed

lemma gets:
  assumes "inv q" "n \<le> length (content q)"
  shows "\<exists>q'. take_n n get q = Inr (take n (content q), q') \<and> inv q' \<and> content q' = drop n (content q)"
  using assms
proof (induction n arbitrary: q)
  case 0
  then show ?case by simp
next
  case (Suc n)
  then obtain y ys where y: "content q = y # ys" by (cases "content q") auto
  obtain q1 where q1: "get q = Inr (y, q1)" "inv q1" "content q1 = ys" using get [OF Suc.prems(1) y] by blast
  obtain q' where "take_n n get q1 = Inr (take n ys, q')" "inv q'" "content q' = drop n ys"
    using Suc.IH [OF q1(2)] Suc.prems(2) y q1(3) by auto
  with q1(1) y show ?case by simp
qed

end

section \<open>The key buffer is a bounded queue\<close>

definition keys_ok :: "KeyboardBuffer \<Rightarrow> bool" where
  "keys_ok kb \<longleftrightarrow> kb_size kb = 500 \<and> 0 \<le> sint (kb_front kb) \<and> sint (kb_front kb) < 500
     \<and> 0 \<le> sint (kb_end kb) \<and> sint (kb_end kb) < 500"

definition pending :: "KeyboardBuffer \<Rightarrow> u8 list" where
  "pending kb = (let f = nat (sint (kb_front kb)); e = nat (sint (kb_end kb)) in
     map (\<lambda>k. kb_buffer kb ((f + k) mod 500)) [0..<(e + 500 - f) mod 500])"

text \<open>Reading as the code does when it does not sleep.\<close>

definition read_pending :: "KeyboardBuffer \<Rightarrow> (u8, KeyboardBuffer) outcome" where
  "read_pending kb = take_key (kb_front kb) kb"

lemma next_index:
  assumes "0 \<le> sint a" "sint a < 500"
  shows "sint (c_rem (a + 1) 500) = (sint a + 1) mod 500"
proof -
  have "sint (a + 1) = sint a + 1" using assms by (simp add: sint_add_small)
  then have c: "c_rem (a + 1) 500 = word_of_int ((sint a + 1) mod 500)"
    using assms by (simp add: c_rem_def)
  have "0 \<le> (sint a + 1) mod 500" "(sint a + 1) mod 500 < 500" by simp_all
  then show ?thesis unfolding c by (simp add: signed_of_int signed_take_bit_int_eq_self)
qed

text \<open>The distance from the read index to the write index.\<close>

definition ring_length :: "nat \<Rightarrow> nat \<Rightarrow> nat" where
  "ring_length f e = (e + 500 - f) mod 500"

lemma suc_mod: "e < 500 \<Longrightarrow> Suc e mod 500 = (if e = 499 then 0 else Suc e)"
  by (simp add: mod_Suc)

lemma ring_cases: "f < 500 \<Longrightarrow> e < 500 \<Longrightarrow> ring_length f e = (if f \<le> e then e - f else e + 500 - f)"
  unfolding ring_length_def using mod_add_self2 [of "e - f" 500] by (auto simp: le_mod_geq)

lemma ring_index: "(f::nat) < 500 \<Longrightarrow> k < 500 \<Longrightarrow> (f + k) mod 500 = (if f + k < 500 then f + k else f + k - 500)"
  by (simp add: le_mod_geq)

lemma ring_arith:
  assumes "f < 500" "e < 500"
  shows "ring_length f e \<le> 499" "(f + ring_length f e) mod 500 = e"
    "Suc e mod 500 \<noteq> f \<Longrightarrow> ring_length f (Suc e mod 500) = Suc (ring_length f e)"
    "Suc e mod 500 = f \<longleftrightarrow> ring_length f e = 499"
    "f \<noteq> e \<Longrightarrow> ring_length (Suc f mod 500) e = ring_length f e - 1" "ring_length f e = 0 \<longleftrightarrow> f = e"
    "k < ring_length f e \<Longrightarrow> (f + k) mod 500 \<noteq> e" "ring_length (Suc f mod 500) f = 499"
  using assms by (auto simp: suc_mod ring_cases ring_index split: if_splits)

text \<open>A well-formed buffer by its indices.\<close>

lemma keys_okE:
  assumes "keys_ok kb"
  obtains f e where "f < 500" "e < 500" "sint (kb_front kb) = int f" "sint (kb_end kb) = int e"
    "kb_front kb = kb_end kb \<longleftrightarrow> f = e" "sint (c_rem (kb_front kb + 1) 500) = int (Suc f mod 500)"
    "sint (c_rem (kb_end kb + 1) 500) = int (Suc e mod 500)" "kb_size kb = 500"
    "buffer_index (kb_front kb) = Some f" "buffer_index (kb_end kb) = Some e"
    "pending kb = map (\<lambda>k. kb_buffer kb ((f + k) mod 500)) [0..<ring_length f e]"
proof -
  define f e where "f = nat (sint (kb_front kb))" and "e = nat (sint (kb_end kb))"
  have k: "sint (kb_front kb) = int f" "sint (kb_end kb) = int e" "f < 500" "e < 500" "kb_size kb = 500"
    using assms by (auto simp: keys_ok_def f_def e_def)
  have "kb_front kb = kb_end kb \<longleftrightarrow> f = e" using k(1,2) by (metis of_nat_eq_iff signed_word_eqI)
  moreover have "(int x + 1) mod 500 = int (Suc x mod 500)" for x by (simp add: zmod_int add.commute)
  ultimately show thesis
    using that [of f e] k next_index [of "kb_front kb"] next_index [of "kb_end kb"]
    by (simp add: buffer_index_def KEYBOARD_BUFFER_MAX_def pending_def ring_length_def Let_def)
qed

lemma write_key_pending:
  assumes "keys_ok kb"
  shows "\<exists>kb'. write_key_buffer c kb = Inr ((), kb') \<and> keys_ok kb'
    \<and> pending kb' = (if length (pending kb) < 499 then pending kb @ [c] else pending kb)"
proof -
  obtain f e where k: "f < 500" "e < 500" "sint (kb_front kb) = int f" "sint (kb_end kb) = int e"
    "sint (c_rem (kb_end kb + 1) 500) = int (Suc e mod 500)" "kb_size kb = 500"
    "buffer_index (kb_end kb) = Some e"
    "pending kb = map (\<lambda>k. kb_buffer kb ((f + k) mod 500)) [0..<ring_length f e]"
    using keys_okE [OF assms] by metis
  note ring = ring_arith [OF k(1,2)]
  have full: "c_rem (kb_end kb + 1) (kb_size kb) = kb_front kb \<longleftrightarrow> Suc e mod 500 = f"
    using k(3,5,6) by (metis of_nat_eq_iff signed_word_eqI)
  show ?thesis
  proof (cases "Suc e mod 500 = f")
    case True
    then have "write_key_buffer c kb = Inr ((), kb)" using full by (simp add: write_key_buffer_def)
    moreover have "\<not> length (pending kb) < 499" using ring(4) True k(8) by simp
    ultimately show ?thesis using assms by simp
  next
    case False
    let ?kb = "kb\<lparr>kb_buffer := (kb_buffer kb)(e := c), kb_end := c_rem (kb_end kb + 1) 500\<rparr>"
    have w: "write_key_buffer c kb = Inr ((), ?kb)" using full False k(6,7) by (simp add: write_key_buffer_def)
    have ok: "keys_ok ?kb" using assms k(5) by (simp add: keys_ok_def)
    have "pending ?kb = map (\<lambda>k. kb_buffer ?kb ((f + k) mod 500)) [0..<ring_length f (Suc e mod 500)]"
      using k(3,5) by (simp add: pending_def ring_length_def Let_def)
    also have "\<dots> = map (\<lambda>k. kb_buffer ?kb ((f + k) mod 500)) [0..<ring_length f e] @ [c]"
      using ring(2,3) False by simp
    also have "\<dots> = pending kb @ [c]" using ring(7) k(8) by simp
    finally have "pending ?kb = pending kb @ [c]" .
    moreover have "length (pending kb) < 499" using ring(1,4) False k(8) by simp
    ultimately show ?thesis using w ok by auto
  qed
qed

lemma take_key_pending:
  assumes "keys_ok kb"
  shows "pending kb = c # cs \<Longrightarrow> \<exists>kb'. read_pending kb = Inr (c, kb') \<and> keys_ok kb' \<and> pending kb' = cs"
    and "pending kb = [] \<longleftrightarrow> kb_front kb = kb_end kb" "length (pending kb) \<le> 499"
proof -
  obtain f e where k: "f < 500" "e < 500" "sint (kb_front kb) = int f" "sint (kb_end kb) = int e"
    "kb_front kb = kb_end kb \<longleftrightarrow> f = e" "sint (c_rem (kb_front kb + 1) 500) = int (Suc f mod 500)" "kb_size kb = 500"
    "buffer_index (kb_front kb) = Some f"
    "pending kb = map (\<lambda>k. kb_buffer kb ((f + k) mod 500)) [0..<ring_length f e]"
    using keys_okE [OF assms] by metis
  note ring = ring_arith [OF k(1,2)]
  show "pending kb = [] \<longleftrightarrow> kb_front kb = kb_end kb" "length (pending kb) \<le> 499" using ring(1,6) k(5,9) by auto
  assume p: "pending kb = c # cs"
  let ?kb = "kb\<lparr>kb_front := c_rem (kb_front kb + 1) 500\<rparr>"
  have ok: "keys_ok ?kb" using assms k(6) by (simp add: keys_ok_def)
  have "length (pending kb) \<noteq> 0" using p by simp
  then have n: "ring_length f e \<noteq> 0" using k(9) by simp
  then have "f \<noteq> e" using ring(6) by simp
  have "pending ?kb = map (\<lambda>k. kb_buffer kb ((Suc f mod 500 + k) mod 500)) [0..<ring_length f e - 1]"
    using k(4,6) ring(5) \<open>f \<noteq> e\<close> by (simp add: pending_def ring_length_def Let_def)
  also have "\<dots> = map (\<lambda>k. kb_buffer kb ((f + Suc k) mod 500)) [0..<ring_length f e - 1]"
    by (simp add: mod_add_left_eq)
  also have "\<dots> = tl (pending kb)"
    using n by (cases "ring_length f e") (simp_all add: k(9) map_upt_Suc del: upt_Suc)
  finally have "pending ?kb = cs" using p by simp
  moreover have "kb_buffer kb f = c"
    using p n k(1,9) by (cases "ring_length f e") (simp_all add: map_upt_Suc del: upt_Suc)
  ultimately show "\<exists>kb'. read_pending kb = Inr (c, kb') \<and> keys_ok kb' \<and> pending kb' = cs"
    using ok k(7,8) by (auto simp: read_pending_def take_key_def)
qed

interpretation keys: bounded_queue keys_ok pending 499 write_key_buffer read_pending
  by unfold_locales (use write_key_pending take_key_pending in auto)

section \<open>The interrupt handlers keep the kernel invariant\<close>

lemma files_ok_io:
  "files_ok (s\<lparr>io_in := g\<rparr>) = files_ok s" "files_ok (s\<lparr>io_n := n\<rparr>) = files_ok s" "files_ok (s\<lparr>io_out := os\<rparr>) = files_ok s"
  by (simp_all add: files_ok_def holders_def)

lemma kernel_inv_io [simp]:
  "kernel_inv (s\<lparr>io_in := g\<rparr>) R W K T ps = kernel_inv s R W K T ps"
  "kernel_inv (s\<lparr>io_n := n\<rparr>) R W K T ps = kernel_inv s R W K T ps"
  "kernel_inv (s\<lparr>io_out := os\<rparr>) R W K T ps = kernel_inv s R W K T ps"
  by (simp_all add: kernel_inv_def sched_inv_def memory_ok_def heap_inv_def pids_ok_def live_def files_ok_io)

lemma kernel_inv_kernel [simp]:
  "kernel_inv (s\<lparr>ticks := t\<rparr>) R W K T ps = kernel_inv s R W K T ps"
  "kernel_inv (s\<lparr>timer_interval := v\<rparr>) R W K T ps = kernel_inv s R W K T ps"
  "kernel_inv (s\<lparr>key_buffer := kb\<rparr>) R W K T ps = kernel_inv s R W K T ps"
  "kernel_inv (s\<lparr>conts := c\<rparr>) R W K T ps = kernel_inv s R W K T ps"
  by (simp_all add: kernel_inv_def sched_inv_def memory_ok_def heap_inv_def pids_ok_def live_def files_ok_def holders_def)

lemma timer_handler_runs:
  assumes "kernel_inv s R W K T ps" "io_in s CNTP_CTL_EL0 (io_n s CNTP_CTL_EL0) AND 4 \<noteq> 0"
  shows "\<exists>s'. timer_interrupt_handler s = Inr ((), s') \<and> ticks s' = ticks s + 1 \<and> current_process s' = current_process s
     \<and> kernel_inv s' (R @ filter (waits_for (- 1) s) W) (filter (\<lambda>j. \<not> waits_for (- 1) s j) W) K T ps
     \<and> io_out s' = io_out s @ [(CNTP_TVAL_EL0, timer_interval s)] \<and> mem s' = mem s \<and> key_buffer s' = key_buffer s"
proof -
  let ?s1 = "s\<lparr>io_n := (io_n s)(CNTP_CTL_EL0 := Suc (io_n s CNTP_CTL_EL0)), ticks := ticks s + 1\<rparr>"
  have "kernel_inv ?s1 R W K T ps" using assms(1) by simp
  moreover have "waits_for v ?s1 = waits_for v s" for v by (simp add: waits_for_def fun_eq_iff)
  ultimately obtain s2 where s2: "wake_up (- 1) ?s1 = Inr ((), s2)" "sched_step ?s1 s2" "same_cpu ?s1 s2"
    "kernel_inv s2 (R @ filter (waits_for (- 1) s) W) (filter (\<lambda>j. \<not> waits_for (- 1) s j) W) K T ps"
    using kernel_wake_up [of ?s1 R W K T ps "- 1"] by auto
  have f: "mem s2 = mem s" "ticks s2 = ticks s + 1" "key_buffer s2 = key_buffer s" "io_out s2 = io_out s"
    "timer_interval s2 = timer_interval s" "current_process s2 = current_process s"
    using s2(2,3) by (simp_all add: sched_step_def same_cpu_def)
  have "timer_interrupt_handler s = Inr ((), set_timer_interval (timer_interval s2) s2)"
    using assms(2) s2(1) by (simp add: timer_interrupt_handler_def read_timer_status_def inw_def)
  with s2(4) f show ?thesis by (simp add: set_timer_interval_def outw_def)
qed

text \<open>A key press; the UART delivers the character once its receive queue is not empty.\<close>

lemma on_keys_write:
  assumes "keys_ok (key_buffer s)"
  shows "\<exists>kb. on_keys (write_key_buffer c) s = Inr ((), s\<lparr>key_buffer := kb\<rparr>) \<and> keys_ok kb
    \<and> pending kb = take 499 (pending (key_buffer s) @ [c])"
proof -
  obtain kb where "write_key_buffer c (key_buffer s) = Inr ((), kb)" "keys_ok kb"
    "pending kb = (if length (pending (key_buffer s)) < 499 then pending (key_buffer s) @ [c] else pending (key_buffer s))"
    using write_key_pending [OF assms] by blast
  then show ?thesis using take_key_pending(3) [OF assms] by (auto simp: on_keys_def)
qed

lemma keyboard_handler_runs:
  assumes "kernel_inv s R W K T ps" "keys_ok (key_buffer s)" "ready UART0_FR 4 s"
  shows "\<exists>s'. keyboard_handler s = Inr ((), s') \<and> keys_ok (key_buffer s')
     \<and> pending (key_buffer s') = take 499 (pending (key_buffer s) @ [ucast (io_in s UART0_DR (io_n s UART0_DR))])
     \<and> kernel_inv s' (R @ filter (waits_for (- 2) s) W) (filter (\<lambda>j. \<not> waits_for (- 2) s j) W) K T ps
     \<and> current_process s' = current_process s \<and> mem s' = mem s \<and> ticks s' = ticks s \<and> io_out s' = io_out s"
proof -
  obtain k where k: "poll UART0_FR 4 s = Some (s\<lparr>io_n := (io_n s)(UART0_FR := k)\<rparr>)"
    using poll_returns [OF assms(3)] by (auto simp: polled_def)
  have "UART0_FR \<noteq> UART0_DR" by (simp add: UART0_FR_def UART0_DR_def)
  then obtain ns where rc: "read_char s = Inr (ucast (io_in s UART0_DR (io_n s UART0_DR)), s\<lparr>io_n := ns\<rparr>)"
    using k by (simp add: read_char_def inw_def)
  obtain kb where kb: "on_keys (write_key_buffer (ucast (io_in s UART0_DR (io_n s UART0_DR)))) (s\<lparr>io_n := ns\<rparr>)
      = Inr ((), s\<lparr>io_n := ns, key_buffer := kb\<rparr>)" "keys_ok kb"
    "pending kb = take 499 (pending (key_buffer s) @ [ucast (io_in s UART0_DR (io_n s UART0_DR))])"
    using on_keys_write [of "s\<lparr>io_n := ns\<rparr>"] assms(2) by auto
  let ?s1 = "s\<lparr>io_n := ns, key_buffer := kb\<rparr>"
  have "kernel_inv ?s1 R W K T ps" using assms(1) by simp
  moreover have "waits_for v ?s1 = waits_for v s" for v by (simp add: waits_for_def fun_eq_iff)
  ultimately obtain s2 where s2: "wake_up (- 2) ?s1 = Inr ((), s2)" "sched_step ?s1 s2" "same_cpu ?s1 s2"
    "kernel_inv s2 (R @ filter (waits_for (- 2) s) W) (filter (\<lambda>j. \<not> waits_for (- 2) s j) W) K T ps"
    using kernel_wake_up [of ?s1 R W K T ps "- 2"] by auto
  have f: "mem s2 = mem s" "ticks s2 = ticks s" "key_buffer s2 = kb" "io_out s2 = io_out s"
    "current_process s2 = current_process s"
    using s2(2,3) by (simp_all add: sched_step_def same_cpu_def)
  have "keyboard_handler s = Inr ((), s2)" using rc kb(1) s2(1) by (simp add: keyboard_handler_def)
  with s2(4) f kb(2,3) show ?thesis by simp
qed

section \<open>Properties\<close>

text \<open>
  Property C19: the keyboard buffer is a bounded first-in first-out queue: of the keys typed, those that
  fit into its 499 places are read back in order, the rest are dropped; no index leaves the array.
\<close>

theorem keys_arrive_in_order:
  assumes "keys_ok kb" "n \<le> length (take 499 (pending kb @ typed))"
  shows "\<exists>kb1 kb2. for_each typed write_key_buffer kb = Inr ((), kb1) \<and> pending kb1 = take 499 (pending kb @ typed)
     \<and> take_n n read_pending kb1 = Inr (take n (take 499 (pending kb @ typed)), kb2)
     \<and> keys_ok kb2 \<and> pending kb2 = drop n (take 499 (pending kb @ typed))"
proof -
  obtain kb1 where kb1: "for_each typed write_key_buffer kb = Inr ((), kb1)" "keys_ok kb1"
    "pending kb1 = take 499 (pending kb @ typed)"
    using keys.puts [OF assms(1)] by blast
  from keys.gets [OF kb1(2), of n] assms(2) kb1 show ?thesis by auto
qed

definition empty_keys :: KeyboardBuffer where
  "empty_keys = \<lparr>kb_buffer = (\<lambda>_. 0), kb_front = 498, kb_end = 498, kb_size = 500\<rparr>"

lemma empty_keys_ok: "keys_ok empty_keys" "pending empty_keys = []"
  by (simp_all add: keys_ok_def empty_keys_def pending_def)

lemma keys_arrive_in_order_witness:
  "\<exists>kb1 kb2. for_each [0x6c, 0x73, 0x0d] write_key_buffer empty_keys = Inr ((), kb1)
     \<and> take_n 2 read_pending kb1 = Inr ([0x6c, 0x73], kb2) \<and> pending kb2 = [0x0d]"
proof -
  have "length (take 499 (pending empty_keys @ [0x6c, 0x73, 0x0d])) = 3"
    "take 2 (take 499 (pending empty_keys @ [0x6c, 0x73, 0x0d])) = [0x6c, 0x73]"
    "drop 2 (take 499 (pending empty_keys @ [0x6c, 0x73, 0x0d])) = [0x0d]"
    by (simp_all add: empty_keys_ok(2))
  with keys_arrive_in_order [OF empty_keys_ok(1), of 2 "[0x6c, 0x73, 0x0d]"] show ?thesis by auto
qed



text \<open>
  Property C23: a timer interrupt advances the clock by one tick, rearms the timer with the interval
  computed at boot and readies every process that sleeps for a number of ticks, in order, so that
  each can look at the clock again; a key press stores the character and readies every process that
  waits for a key; both leave everything else as it is and keep the kernel invariant.
\<close>

theorem interrupts_wake_waiters:
  assumes "kernel_inv s R W K T ps"
  shows "(io_in s CNTP_CTL_EL0 (io_n s CNTP_CTL_EL0) AND 4 \<noteq> 0 \<longrightarrow>
      (\<exists>s'. timer_interrupt_handler s = Inr ((), s') \<and> ticks s' = ticks s + 1 \<and> current_process s' = current_process s
        \<and> kernel_inv s' (R @ filter (waits_for (- 1) s) W) (filter (\<lambda>j. \<not> waits_for (- 1) s j) W) K T ps
        \<and> io_out s' = io_out s @ [(CNTP_TVAL_EL0, timer_interval s)] \<and> mem s' = mem s \<and> key_buffer s' = key_buffer s))
    \<and> (io_in s UART0_MIS (io_n s UART0_MIS) AND 16 \<noteq> 0 \<and> keys_ok (key_buffer s) \<and> ready UART0_FR 4 s \<longrightarrow>
      (\<exists>s'. uart_interrupt_handler s = Inr ((), s') \<and> keys_ok (key_buffer s')
        \<and> pending (key_buffer s') = take 499 (pending (key_buffer s) @ [ucast (io_in s UART0_DR (io_n s UART0_DR))])
        \<and> kernel_inv s' (R @ filter (waits_for (- 2) s) W) (filter (\<lambda>j. \<not> waits_for (- 2) s j) W) K T ps
        \<and> io_out s' = io_out s @ [(UART0_ICR, 16)] \<and> current_process s' = current_process s
        \<and> mem s' = mem s \<and> ticks s' = ticks s))"
proof (intro conjI impI)
  assume "io_in s CNTP_CTL_EL0 (io_n s CNTP_CTL_EL0) AND 4 \<noteq> 0"
  from timer_handler_runs [OF assms this] show "\<exists>s'. timer_interrupt_handler s = Inr ((), s') \<and> ticks s' = ticks s + 1
      \<and> current_process s' = current_process s
      \<and> kernel_inv s' (R @ filter (waits_for (- 1) s) W) (filter (\<lambda>j. \<not> waits_for (- 1) s j) W) K T ps
      \<and> io_out s' = io_out s @ [(CNTP_TVAL_EL0, timer_interval s)] \<and> mem s' = mem s \<and> key_buffer s' = key_buffer s" .
next
  let ?s = "s\<lparr>io_n := (io_n s)(UART0_MIS := Suc (io_n s UART0_MIS))\<rparr>"
  assume a: "io_in s UART0_MIS (io_n s UART0_MIS) AND 16 \<noteq> 0 \<and> keys_ok (key_buffer s) \<and> ready UART0_FR 4 s"
  then have "ready UART0_FR 4 ?s" by (simp add: ready_def)
  moreover have "UART0_MIS \<noteq> UART0_DR" by (simp add: UART0_MIS_def UART0_DR_def)
  moreover have "waits_for v ?s = waits_for v s" for v by (simp add: waits_for_def fun_eq_iff)
  ultimately obtain s1 where "keyboard_handler ?s = Inr ((), s1)" "keys_ok (key_buffer s1)"
    "pending (key_buffer s1) = take 499 (pending (key_buffer s) @ [ucast (io_in s UART0_DR (io_n s UART0_DR))])"
    "kernel_inv s1 (R @ filter (waits_for (- 2) s) W) (filter (\<lambda>j. \<not> waits_for (- 2) s j) W) K T ps"
    "current_process s1 = current_process s" "mem s1 = mem s" "ticks s1 = ticks s" "io_out s1 = io_out s"
    using keyboard_handler_runs [of ?s R W K T ps] assms a by auto
  with a show "\<exists>s'. uart_interrupt_handler s = Inr ((), s') \<and> keys_ok (key_buffer s')
      \<and> pending (key_buffer s') = take 499 (pending (key_buffer s) @ [ucast (io_in s UART0_DR (io_n s UART0_DR))])
      \<and> kernel_inv s' (R @ filter (waits_for (- 2) s) W) (filter (\<lambda>j. \<not> waits_for (- 2) s j) W) K T ps
      \<and> io_out s' = io_out s @ [(UART0_ICR, 16)] \<and> current_process s' = current_process s
      \<and> mem s' = mem s \<and> ticks s' = ticks s"
    by (simp add: uart_interrupt_handler_def inw_def outw_def)
qed

lemma interrupts_wake_waiters_witness:
  "\<exists>s s1 s2. timer_interrupt_handler s = Inr ((), s1) \<and> ticks s1 = ticks s + 1
     \<and> uart_interrupt_handler s = Inr ((), s2) \<and> pending (key_buffer s2) = [0x14]"
proof -
  obtain s0 T ps where "running s0 T ps" using sample_running by blast
  then have inv: "kernel_inv s0 [] [] [] T ps" by (simp add: running_def)
  let ?in = "\<lambda>r k. if r = UART0_FR then 0 else 0x14"
  let ?s = "s0\<lparr>io_in := ?in, key_buffer := empty_keys\<rparr>"
  have "ready UART0_FR 4 ?s" by (auto simp: ready_def)
  moreover have "kernel_inv ?s [] [] [] T ps" using inv by simp
  moreover have "UART0_DR \<noteq> UART0_FR" "UART0_MIS \<noteq> UART0_FR" "CNTP_CTL_EL0 \<noteq> UART0_FR"
    by (simp_all add: UART0_FR_def UART0_DR_def UART0_MIS_def CNTP_CTL_EL0_def UART_BASE_ADDR_def IO_BASE_ADDR_def P2V_def KERNEL_BASE_def)
  ultimately have "(\<exists>s1. timer_interrupt_handler ?s = Inr ((), s1) \<and> ticks s1 = ticks ?s + 1)
      \<and> (\<exists>s2. uart_interrupt_handler ?s = Inr ((), s2) \<and> pending (key_buffer s2) = [0x14])"
    using interrupts_wake_waiters [of ?s "[]" "[]" "[]" T ps] empty_keys_ok by auto
  then show ?thesis by blast
qed

end
