(* ===== verification/Syscalls.thy ===== *)
theory Syscalls
  imports Devices
begin

text \<open>
  System calls and exceptions: the dispatch of syscall/syscall.c with its thirteen calls, and the
  handler of vector_t/exception_handler.c. The trap frame is memory: the number is in \<open>x8\<close>, the
  argument count in \<open>x0\<close>, the address of the arguments in \<open>x1\<close>, and the result goes to \<open>x0\<close>.
\<close>

section \<open>Arguments and strings of a program\<close>

text \<open>\<open>argptr[n]\<close>\<close>

definition argument :: "u64 \<Rightarrow> nat \<Rightarrow> kernel \<Rightarrow> (u64, kernel) outcome" where
  "argument argptr n s = (case kaddr s (argptr + 8 * of_nat n) 8 of
     None \<Rightarrow> Inl Page_fault | Some a \<Rightarrow> Inr (ld64 (mem s) a, s))"

definition user_string :: "kernel \<Rightarrow> u64 \<Rightarrow> cstring" where
  "user_string s a k = byte_at s (a + of_nat k)"

text \<open>The loop of \<open>write_console\<close> over a buffer of the program.\<close>

primrec write_user :: "nat \<Rightarrow> u64 \<Rightarrow> kernel \<Rightarrow> (unit, kernel) outcome" where
  "write_user 0 a s = Inr ((), s)"
| "write_user (Suc n) a s = (case byte_at s a of
     None \<Rightarrow> Inl Page_fault | Some c \<Rightarrow> kbind (write_char c s) (\<lambda>_. write_user n (a + 1)))"

section \<open>The calls\<close>

definition int_result :: "('a \<Rightarrow> i32) \<Rightarrow> ('a, kernel) outcome \<Rightarrow> (i32 progress, kernel) outcome" where
  "int_result f r = kbind r (\<lambda>x s. Inr (Done (f x), s))"

definition map_progress :: "('a \<Rightarrow> i32) \<Rightarrow> ('a progress, kernel) outcome \<Rightarrow> (i32 progress, kernel) outcome" where
  "map_progress f r = kbind r (\<lambda>p s. Inr (case p of Done x \<Rightarrow> Done (f x) | Switched \<Rightarrow> Switched, s))"

definition sys_write :: "u64 \<Rightarrow> kernel \<Rightarrow> (i32 progress, kernel) outcome" where
  "sys_write argptr s =
     kbind (argument argptr 0 s) (\<lambda>buffer s.
     kbind (argument argptr 1 s) (\<lambda>n s.
     kbind (write_user (nat (sint (ucast n :: i32))) buffer s) (\<lambda>_ s.
     int_result ucast (argument argptr 1 s))))"

text \<open>The \<open>while\<close> loop of \<open>sys_sleep\<close>; after each \<open>sleep\<close> the process continues with its test.\<close>

definition sleep_loop :: "u64 \<Rightarrow> u64 \<Rightarrow> kernel \<Rightarrow> (i32 progress, kernel) outcome" where
  "sleep_loop old_ticks sleep_ticks s =
     (if get_ticks s - old_ticks < sleep_ticks
      then kbind (sleep (- 1) (Sys_sleep old_ticks sleep_ticks) s) (\<lambda>_ s. Inr (Switched, s))
      else Inr (Done 0, s))"

definition sys_sleep :: "u64 \<Rightarrow> kernel \<Rightarrow> (i32 progress, kernel) outcome" where
  "sys_sleep argptr s =
     kbind (argument argptr 0 s) (\<lambda>sleep_ticks s. sleep_loop (get_ticks s) sleep_ticks s)"

definition sys_exit :: "u64 \<Rightarrow> kernel \<Rightarrow> (i32 progress, kernel) outcome" where
  "sys_exit argptr s = kbind (exit s) (\<lambda>_ s. Inr (Switched, s))"

definition sys_wait :: "u64 \<Rightarrow> kernel \<Rightarrow> (i32 progress, kernel) outcome" where
  "sys_wait argptr s = kbind (argument argptr 0 s) (\<lambda>pid s. map_progress (\<lambda>_. 0) (wait (ucast pid) s))"

definition sys_open_file :: "u64 \<Rightarrow> kernel \<Rightarrow> (i32 progress, kernel) outcome" where
  "sys_open_file argptr s = kbind (argument argptr 0 s) (\<lambda>name s.
     int_result id (open_file (current_process s) (user_string s name) s))"

definition sys_close_file :: "u64 \<Rightarrow> kernel \<Rightarrow> (i32 progress, kernel) outcome" where
  "sys_close_file argptr s = kbind (argument argptr 0 s) (\<lambda>fd s.
     int_result (\<lambda>_. 0) (close_file (current_process s) (ucast fd) s))"

definition sys_get_file_size :: "u64 \<Rightarrow> kernel \<Rightarrow> (i32 progress, kernel) outcome" where
  "sys_get_file_size argptr s = kbind (argument argptr 0 s) (\<lambda>fd s.
     int_result id (get_file_size (current_process s) (ucast fd) s))"

definition sys_read_file :: "u64 \<Rightarrow> kernel \<Rightarrow> (i32 progress, kernel) outcome" where
  "sys_read_file argptr s =
     kbind (argument argptr 0 s) (\<lambda>fd s.
     kbind (argument argptr 1 s) (\<lambda>buffer s.
     kbind (argument argptr 2 s) (\<lambda>n s.
     int_result id (read_file (current_process s) (ucast fd) buffer (ucast n) s))))"

definition sys_fork :: "u64 \<Rightarrow> kernel \<Rightarrow> (i32 progress, kernel) outcome" where
  "sys_fork argptr s = int_result id (fork s)"

definition sys_getpid :: "u64 \<Rightarrow> kernel \<Rightarrow> (i32 progress, kernel) outcome" where
  "sys_getpid argptr s = Inr (Done (p_pid (process_table s (current_process s))), s)"

definition sys_exec :: "u64 \<Rightarrow> kernel \<Rightarrow> (i32 progress, kernel) outcome" where
  "sys_exec argptr s = kbind (argument argptr 0 s) (\<lambda>name s.
     exec (current_process s) (user_string s name) s)"

definition sys_keyboard_read :: "u64 \<Rightarrow> kernel \<Rightarrow> (i32 progress, kernel) outcome" where
  "sys_keyboard_read argptr s = map_progress ucast (read_key_buffer s)"

definition sys_read_root_directory :: "u64 \<Rightarrow> kernel \<Rightarrow> (i32 progress, kernel) outcome" where
  "sys_read_root_directory argptr s = kbind (argument argptr 0 s) (\<lambda>buffer s.
     int_result id (read_root_directory buffer s))"

text \<open>The table that \<open>init_system_call\<close> fills; its other entries are null pointers.\<close>

definition system_calls :: "nat \<Rightarrow> (u64 \<Rightarrow> kernel \<Rightarrow> (i32 progress, kernel) outcome) option" where
  "system_calls i =
     (if i = 0 then Some sys_write else if i = 1 then Some sys_sleep else if i = 2 then Some sys_exit
      else if i = 3 then Some sys_wait else if i = 4 then Some sys_open_file
      else if i = 5 then Some sys_close_file else if i = 6 then Some sys_get_file_size
      else if i = 7 then Some sys_read_file else if i = 8 then Some sys_fork
      else if i = 9 then Some sys_getpid else if i = 10 then Some sys_exec
      else if i = 11 then Some sys_keyboard_read else if i = 12 then Some sys_read_root_directory
      else None)"

text \<open>\<open>tf->x0 = ...\<close>: the \<open>int\<close> is sign extended. A call that switched away has not returned yet.\<close>

definition set_result :: "u64 \<Rightarrow> (i32 progress, kernel) outcome \<Rightarrow> (unit progress, kernel) outcome" where
  "set_result tf r = kbind r (\<lambda>p s. case p of
     Done v \<Rightarrow> Inr (Done (), s\<lparr>mem := st64 (mem s) tf (scast v)\<rparr>) | Switched \<Rightarrow> Inr (Switched, s))"

definition system_call :: "u64 \<Rightarrow> kernel \<Rightarrow> (unit progress, kernel) outcome" where
  "system_call tf s =
     (let i = ld64 (mem s) (tf + 64); param_count = ld64 (mem s) tf; argptr = ld64 (mem s) (tf + 8) in
      if sint param_count < 0 \<or> sint i < 0 \<or> 12 < sint i
      then kbind (printk (ascii ''INVALID SVC'' @ [10]) [] s) (\<lambda>_ s.
        Inr (Done (), s\<lparr>mem := st64 (mem s) tf (- 1)\<rparr>))
      else case system_calls (nat (sint i)) of
        None \<Rightarrow> Inl Null_pointer | Some f \<Rightarrow> set_result tf (f argptr s))"

text \<open>
  A process that has been switched to goes on where it was switched away from: back to its program,
  or in the middle of the kernel function that slept. After \<open>exit\<close> no one is meant to go on.
\<close>

definition resume :: "kernel \<Rightarrow> (unit progress, kernel) outcome" where
  "resume s =
     (let c = current_process s; tf = p_tf (process_table s c); k = conts s c;
        s = s\<lparr>conts := (conts s)(c := To_user)\<rparr>
      in case k of
        To_user \<Rightarrow> Inr (Done (), s)
      | Sys_sleep old n \<Rightarrow> set_result tf (sleep_loop old n s)
      | Wait_loop pid \<Rightarrow> set_result tf (map_progress (\<lambda>_. 0) (wait pid s))
      | Key_read front \<Rightarrow> set_result tf (int_result ucast (on_keys (take_key front) s))
      | Exited \<Rightarrow> Inl Spin)"

section \<open>Exceptions\<close>

text \<open>The fields \<open>trapno\<close>, \<open>esr\<close>, \<open>elr\<close> and \<open>spsr\<close> of the trap frame are at 256, 264, 272 and 280.\<close>

definition exception_handler :: "u64 \<Rightarrow> kernel \<Rightarrow> (unit progress, kernel) outcome" where
  "exception_handler tf s =
     (let trapno = ld64 (mem s) (tf + 256) in
      if trapno = 1 then
        if ld64 (mem s) (tf + 280) AND 0xf = 0 then
          kbind (printk (ascii ''USER:sync error occurs in process %d'' @ [13, 10])
              [Num (scast (p_pid (process_table s (current_process s))))] s) (\<lambda>_ s.
          kbind (printk (ascii ''USER:sync error at %x: %x'' @ [13, 10])
              [Num (ld64 (mem s) (tf + 272)), Num (ld64 (mem s) (tf + 264))] s) (\<lambda>_ s.
          kbind (exit s) (\<lambda>_ s. Inr (Switched, s))))
        else
          kbind (printk (ascii ''KERNEL:sync error at %x: %x'' @ [13, 10])
              [Num (ld64 (mem s) (tf + 272)), Num (ld64 (mem s) (tf + 264))] s) (\<lambda>_ s. Inl Spin)
      else if trapno = 2 then
        let (irq, s) = inw CNTP_STATUS_EL0 s in
        if irq AND push_bit 1 1 \<noteq> 0 then
          kbind (timer_interrupt_handler s) (\<lambda>_ s. yield s)
        else let (n, s) = get_irq_number s in
          if n AND push_bit 19 1 \<noteq> 0 then kbind (uart_interrupt_handler s) (\<lambda>_ s. Inr (Done (), s))
          else kbind (printk (ascii ''unknown irq '' @ [13, 10]) [] s) (\<lambda>_ s. Inl Spin)
      else if trapno = 3 then system_call tf s
      else kbind (printk (ascii ''unknown exception'' @ [13, 10]) [] s) (\<lambda>_ s. Inl Spin))"

section \<open>What the calls leave alone\<close>

text \<open>Talking to devices changes only how often registers were read and what was written.\<close>

definition io_step :: "kernel \<Rightarrow> kernel \<Rightarrow> bool" where
  "io_step s s' \<longleftrightarrow> (\<exists>ns os. s' = s\<lparr>io_n := ns, io_out := os\<rparr>)"

lemma io_step_refl [simp]: "io_step s s"
  unfolding io_step_def by (intro exI [of _ "io_n s"] exI [of _ "io_out s"]) simp

lemma io_stepI: "io_step s (s\<lparr>io_n := ns\<rparr>)" "io_step s (s\<lparr>io_out := os\<rparr>)"
proof -
  show "io_step s (s\<lparr>io_n := ns\<rparr>)"
    unfolding io_step_def by (intro exI [of _ ns] exI [of _ "io_out s"]) simp
  show "io_step s (s\<lparr>io_out := os\<rparr>)"
    unfolding io_step_def by (intro exI [of _ "io_n s"] exI [of _ os]) simp
qed

lemma io_step_trans: "io_step s s' \<Longrightarrow> io_step s' s'' \<Longrightarrow> io_step s s''"
  unfolding io_step_def by (elim exE) (simp, intro exI, rule refl)

lemma io_step_kernel_inv: "io_step s s' \<Longrightarrow> kernel_inv s' R W K T ps = kernel_inv s R W K T ps"
  by (auto simp: io_step_def)

lemma io_step_fields:
  assumes "io_step s s'"
  shows "mem s' = mem s" "process_table s' = process_table s" "current_process s' = current_process s"
    "conts s' = conts s" "key_buffer s' = key_buffer s" "ticks s' = ticks s" "live s' = live s"
  using assms by (auto simp: io_step_def live_def)

lemma poll_io:
  assumes "poll reg b s = Some s'"
  shows "io_step s s'"
proof (rule poll.raw_induct [OF _ assms])
  fix poll' :: "u64 \<Rightarrow> nat \<Rightarrow> kernel \<Rightarrow> kernel option" and reg b s s'
  assume IH: "\<And>reg b s s'. poll' reg b s = Some s' \<Longrightarrow> io_step s s'"
    and run: "(let (v, t) = inw reg s in if v AND push_bit b 1 \<noteq> 0 then poll' reg b t else Some t) = Some s'"
  have "io_step s (snd (inw reg s))" by (simp add: inw_def io_stepI)
  with IH run show "io_step s s'" by (auto simp: inw_def split: if_splits intro: io_step_trans)
qed

lemma write_char_io:
  assumes "write_char c s = Inr (u, s')"
  shows "io_step s s'"
proof -
  obtain s1 where "poll UART0_FR 5 s = Some s1" "s' = s1\<lparr>io_out := io_out s1 @ [(UART0_DR, ucast c)]\<rparr>"
    using assms by (auto simp: write_char_def outw_def split: option.splits)
  then show ?thesis using io_step_trans [OF poll_io io_stepI(2)] by simp
qed

lemma write_console_io: "write_console cs s = Inr (u, s') \<Longrightarrow> io_step s s'"
  by (induction cs arbitrary: s) (auto simp: kbind_Inr_iff intro: io_step_trans write_char_io)

lemma printk_io: "printk fmt args s = Inr (n, s') \<Longrightarrow> io_step s s'"
  by (auto simp: printk_def kbind_Inr_iff intro: write_console_io split: sum.splits)

lemma write_user_io: "write_user n a s = Inr (u, s') \<Longrightarrow> io_step s s'"
  by (induction n arbitrary: a s) (auto simp: kbind_Inr_iff split: option.splits intro: io_step_trans write_char_io)

lemma argument_same: "argument a n s = Inr (x, s') \<Longrightarrow> s' = s"
  by (simp add: argument_def split: option.splits)

text \<open>Writing the trap frame, or anything on the stack of a live process.\<close>

lemma kernel_inv_stack_write:
  assumes "kernel_inv s R W K T ps" "c \<in> live s"
    "\<And>x. \<not> in_range (p_stack (process_table s c)) 2097152 x \<Longrightarrow> m x = mem s x"
  shows "kernel_inv (s\<lparr>mem := m\<rparr>) R W K T ps"
proof -
  let ?q = "p_stack (process_table s c)"
  have q: "page_ok (kernel_end s) ?q" "?q \<notin> set ps" "\<forall>i \<in> live s. ?q \<notin> ran (T i)"
    using private_pages [OF assms(1,2)] assms(2) by auto
  have "heap_within {?q} s (s\<lparr>mem := m\<rparr>)" using assms(3) by (simp add: heap_within_def)
  then have "keeps_pages {?q} s (s\<lparr>mem := m\<rparr>)" by (rule keeps_pages_within) (simp add: q)
  from kernel_inv_page_write(1) [OF assms(1) this q(2,3)] show ?thesis .
qed

lemma kernel_inv_user_write:
  assumes "kernel_inv s R W K T ps" "c \<in> live s"
    "\<And>x. \<not> in_range (user_page (mem s) (T c)) 2097152 x \<Longrightarrow> m x = mem s x"
  shows "kernel_inv (s\<lparr>mem := m\<rparr>) R W K T ps"
proof -
  let ?u = "user_page (mem s) (T c)"
  have u: "page_ok (kernel_end s) ?u" "?u \<notin> set ps" "\<forall>i \<in> live s. ?u \<notin> ran (T i)"
    using private_pages [OF assms(1,2)] assms(2) by auto
  have "heap_within {?u} s (s\<lparr>mem := m\<rparr>)" using assms(3) by (simp add: heap_within_def)
  then have "keeps_pages {?u} s (s\<lparr>mem := m\<rparr>)" by (rule keeps_pages_within) (simp add: u)
  from kernel_inv_page_write(1) [OF assms(1) this u(2,3)] show ?thesis .
qed

lemma frame_write_in_stack:
  assumes "kernel_inv s R W K T ps" "c \<in> live s" "tf = p_tf (process_table s c)"
    "\<not> in_range (p_stack (process_table s c)) 2097152 x"
  shows "st64 (mem s) tf v x = mem s x"
proof -
  have "tf = p_stack (process_table s c) + of_nat 2096864"
    using kernel_invD(8) [OF assms(1,2)] assms(3) by (simp add: process_ok_def PAGE_SIZE_def TRAPFRAME_SIZE_def)
  then show ?thesis using st64_in_page [OF assms(4), of 2096864 "mem s" v] by simp
qed

lemma trap_frame_write:
  assumes "kernel_inv s R W K T ps" "c \<in> live s" "tf = p_tf (process_table s c)"
  shows "kernel_inv (s\<lparr>mem := st64 (mem s) tf v\<rparr>) R W K T ps"
  by (rule kernel_inv_stack_write [OF assms(1,2) frame_write_in_stack [OF assms]])

section \<open>The memory of a process\<close>

text \<open>The page of process \<open>i\<close>, as its own tables translate 0x400000.\<close>

definition memory_of :: "kernel \<Rightarrow> nat \<Rightarrow> u8 list option" where
  "memory_of s i = map_option (\<lambda>u. bytes (mem s) u 2097152)
     (kaddr (s\<lparr>ttbr0 := V2P (p_page_map (process_table s i))\<rparr>) 0x400000 2097152)"

lemma memory_of_cong:
  assumes "mem s' = mem s" "p_page_map (process_table s' i) = p_page_map (process_table s i)"
  shows "memory_of s' i = memory_of s i"
  using assms kaddr_cong [of "s'\<lparr>ttbr0 := V2P (p_page_map (process_table s' i))\<rparr>" "s\<lparr>ttbr0 := V2P (p_page_map (process_table s i))\<rparr>"]
  by (simp add: memory_of_def)

lemma memory_of_inv:
  assumes "kernel_inv s R W K T ps" "i \<in> live s"
  shows "memory_of s i = Some (bytes (mem s) (user_page (mem s) (T i)) 2097152)"
proof -
  let ?s = "s\<lparr>ttbr0 := V2P (p_page_map (process_table s i))\<rparr>"
  note p = memory_okD(2,3) [OF kernel_invD(2) [OF assms(1)] assms(2)]
  have "heap_inv ?s ps" using kernel_invD(7) [OF assms(1)] by (simp add: heap_inv_def)
  then have "resolves ?s 0x400000 (user_page (mem ?s) (T i)) 2097152"
    using p by (intro user_resolves [of ?s ps]) (auto simp: process_ok_def owned_def)
  from resolves_kaddr [OF this, of 0 2097152] show ?thesis by (simp add: memory_of_def)
qed

text \<open>Every process but the running one, as long as it exists, has the memory it had.\<close>

definition others_kept :: "kernel \<Rightarrow> kernel \<Rightarrow> bool" where
  "others_kept s s' \<longleftrightarrow> (\<forall>i \<in> live s \<inter> live s'. i \<noteq> current_process s \<longrightarrow> memory_of s' i = memory_of s i)"

lemma others_kept_same:
  assumes "mem s' = mem s" "\<And>i. p_page_map (process_table s' i) = p_page_map (process_table s i)"
  shows "others_kept s s'"
  using memory_of_cong [OF assms] by (simp add: others_kept_def)

lemma others_kept_refl [simp]: "others_kept s s"
  by (simp add: others_kept_def)

lemma others_kept_trans:
  assumes "others_kept s s1" "others_kept s1 s2" "current_process s1 = current_process s" "live s \<inter> live s2 \<subseteq> live s1"
  shows "others_kept s s2"
  using assms unfolding others_kept_def by (metis IntE IntI subsetD)

lemma sched_others: "sched_step s s' \<Longrightarrow> others_kept s s'"
  by (rule others_kept_same) (simp_all add: sched_step_fields)

lemma io_others: "io_step s s' \<Longrightarrow> others_kept s s'"
  by (rule others_kept_same) (simp_all add: io_step_fields)

lemma others_kept_pages:
  assumes "kernel_inv s R W K T ps" "kernel_inv s' R' W' K' T' ps'"
    "\<And>i. i \<in> live s \<Longrightarrow> i \<in> live s' \<Longrightarrow> i \<noteq> current_process s \<Longrightarrow>
       T' i = T i \<and> (\<forall>p \<in> space_pages (mem s) (T i). same_page (mem s) (mem s') p)"
  shows "others_kept s s'"
  unfolding others_kept_def
proof (intro ballI impI)
  fix i assume i: "i \<in> live s \<inter> live s'" "i \<noteq> current_process s"
  then have a: "T' i = T i" "\<forall>p \<in> space_pages (mem s) (T i). same_page (mem s) (mem s') p" using assms(3) by auto
  have "addr_space (mem s) (kernel_end s) (p_page_map (process_table s i)) (T i)"
    using kernel_invD(8) [OF assms(1)] i(1) by (simp add: process_ok_def)
  from addr_space_page(2) [OF this, of "mem s'"] a(2) have u: "user_page (mem s') (T i) = user_page (mem s) (T i)"
    by (simp add: space_pages_def)
  moreover have "same_page (mem s) (mem s') (user_page (mem s) (T i))" using a(2) by (simp add: space_pages_def)
  ultimately show "memory_of s' i = memory_of s i"
    using memory_of_inv [OF assms(1), of i] memory_of_inv [OF assms(2), of i] i(1) same_page_bytes a(1) by simp
qed

text \<open>Writing what the running process owns, its page or its stack.\<close>

lemma own_write_others:
  assumes "kernel_inv s R W K T ps" "kernel_inv (s\<lparr>mem := m\<rparr>) R W K T ps" "c = current_process s" "c \<in> live s"
    "\<And>x. m x \<noteq> mem s x \<Longrightarrow> \<exists>q \<in> owned (mem s) (process_table s c) (T c). in_range q 2097152 x"
  shows "others_kept s (s\<lparr>mem := m\<rparr>)"
proof (rule others_kept_pages [OF assms(1,2)])
  fix i assume i: "i \<in> live s" "i \<noteq> current_process s"
  note mo = kernel_invD(2) [OF assms(1)]
  have ok: "page_ok (kernel_end s) q" if "q \<in> owned (mem s) (process_table s j) (T j)" "j \<in> live s" for q j
    using that kernel_invD(8) [OF assms(1) that(2)] space_pages_ok by (auto simp: owned_def process_ok_def)
  have "same_page (mem s) m p" if p: "p \<in> space_pages (mem s) (T i)" for p
    unfolding same_page_def
  proof (intro allI impI)
    fix x assume x: "in_range p 2097152 x"
    have pi: "p \<in> owned (mem s) (process_table s i) (T i)" using p by (simp add: owned_def)
    show "m x = mem s x"
    proof (rule ccontr)
      assume "m x \<noteq> mem s x"
      then obtain q where q: "q \<in> owned (mem s) (process_table s c) (T c)" "in_range q 2097152 x" using assms(5) by blast
      then have "q \<noteq> p" using memory_okD(4) [OF mo assms(4) i(1)] i(2) assms(3) pi by auto
      from not_in_other_page [OF ok [OF q(1) assms(4)] ok [OF pi i(1)] this q(2)] x show False by simp
    qed
  qed
  then show "T i = T i \<and> (\<forall>p \<in> space_pages (mem s) (T i). same_page (mem s) (mem (s\<lparr>mem := m\<rparr>)) p)" by simp
qed

section \<open>Calls that only schedule\<close>

text \<open>
  Continuations are well formed: the idle process is only ever interrupted, no live process that has not
  been killed would go on after its \<open>exit\<close>, and a reader of keys kept an index inside the buffer.
\<close>

definition valid_cont :: "cont \<Rightarrow> bool" where
  "valid_cont k \<longleftrightarrow> (case k of Exited \<Rightarrow> False | Key_read f \<Rightarrow> buffer_index f \<noteq> None | _ \<Rightarrow> True)"

lemma valid_cont_simps [simp]:
  "valid_cont To_user" "valid_cont (Sys_sleep a b)" "valid_cont (Wait_loop p)" "\<not> valid_cont Exited"
  "valid_cont (Key_read f) \<longleftrightarrow> buffer_index f \<noteq> None"
  by (simp_all add: valid_cont_def)

definition conts_ok :: "kernel \<Rightarrow> nat list \<Rightarrow> bool" where
  "conts_ok s K \<longleftrightarrow> conts s 0 = To_user \<and> (\<forall>i \<in> live s - set K. valid_cont (conts s i))"

text \<open>
  \<open>good N s\<close>: the kernel invariant, and of \<open>N\<close> heap pages each is on the free list or one of the five of a
  live process.
\<close>

definition good :: "nat \<Rightarrow> kernel \<Rightarrow> bool" where
  "good N s \<longleftrightarrow> (\<exists>R W K T ps. kernel_inv s R W K T ps \<and> conts_ok s K \<and> length ps + 5 * card (live s) = N)
     \<and> keys_ok (key_buffer s)"

lemma goodE:
  assumes "good N s"
  obtains R W K T ps where "kernel_inv s R W K T ps" "conts_ok s K" "keys_ok (key_buffer s)"
    "length ps + 5 * card (live s) = N"
  using assms unfolding good_def by blast

lemma goodI: "kernel_inv s R W K T ps \<Longrightarrow> conts_ok s K \<Longrightarrow> keys_ok (key_buffer s)
    \<Longrightarrow> length ps + 5 * card (live s) = N \<Longrightarrow> good N s"
  unfolding good_def by blast

lemma good_io: "io_step s s' \<Longrightarrow> good N s' = good N s"
  unfolding good_def by (simp add: io_step_kernel_inv io_step_fields conts_ok_def)

lemma live_running:
  assumes "kernel_inv s R W K T ps" "current_process s \<noteq> 0"
  shows "current_process s \<in> live s" "current_process s \<notin> set K"
  using live_queues [OF kernel_invD(1) [OF assms(1)]] kernel_inv_current(2) [OF assms(1)] assms(2) by simp_all

lemma conts_ok_switched:
  assumes "conts_ok s K" "switched k s X s'" "live s' \<subseteq> live s" "current_process s = 0 \<longrightarrow> k = To_user"
    "set K \<subseteq> set K'" "valid_cont k \<or> current_process s \<in> set K'"
  shows "conts_ok s' K'"
  using assms by (auto simp: conts_ok_def switched_def)

lemma switched_keys: "switched k s X s' \<Longrightarrow> key_buffer s' = key_buffer s"
  using sched_step_fields(7) by (simp add: switched_def)

text \<open>One lemma for all the ways to switch.\<close>

lemma good_switched:
  assumes "kernel_inv s R W K T ps" "conts_ok s K" "keys_ok (key_buffer s)" "length ps + 5 * card (live s) = N"
    "switched k s Q s'" "kernel_inv s' R' W' K' T' ps"
    "insert (next_process Q) (set (R' @ W' @ K')) - {0} = insert (current_process s) (set (R @ W @ K)) - {0}"
    "current_process s = 0 \<longrightarrow> k = To_user" "set K \<subseteq> set K'" "valid_cont k \<or> current_process s \<in> set K'"
  shows "good N s'"
proof -
  have c: "current_process s' = next_process Q" using assms(5) by (simp only: switched_def)
  have l: "live s' = live s"
    unfolding live_queues [OF kernel_invD(1) [OF assms(1)]] live_queues [OF kernel_invD(1) [OF assms(6)]] c
    by (rule assms(7))
  then have "conts_ok s' K'" by (intro conts_ok_switched [OF assms(2,5) _ assms(8-10)]) simp
  moreover have "keys_ok (key_buffer s')" using assms(3) switched_keys [OF assms(5)] by simp
  ultimately show "good N s'" using assms(4) l by (intro goodI [OF assms(6)]) simp_all
qed

lemma next_append:
  assumes "set Q \<union> X = insert c (set R \<union> set W \<union> set K) \<or> set Q \<union> X = set R \<union> set W \<union> set K \<and> c = 0"
  shows "insert (next_process Q) (set (tl Q) \<union> X) - {0} = insert c (set (R @ W @ K)) - {0}"
proof -
  have "insert (next_process Q) (set (tl Q) \<union> X) - {0} = set Q \<union> X - {0}"
    by (cases Q) (auto simp: next_process_def)
  with assms show ?thesis by auto
qed

lemma good_sleep:
  assumes "kernel_inv s R W K T ps" "conts_ok s K" "keys_ok (key_buffer s)" "length ps + 5 * card (live s) = N"
    "current_process s \<noteq> 0" "valid_cont k"
  shows "\<exists>s'. sleep v k s = Inr ((), s') \<and> switched k s R s' \<and> waits_for v s' (current_process s)
    \<and> kernel_inv s' (tl R) (W @ [current_process s]) K T ps \<and> good N s'"
proof -
  obtain s' where s': "sleep v k s = Inr ((), s')" "switched k s R s'" "waits_for v s' (current_process s)"
    "kernel_inv s' (tl R) (W @ [current_process s]) K T ps"
    using kernel_sleep [OF assms(1), of v k] assms(5) by blast
  have "insert (next_process R) (set (tl R @ (W @ [current_process s]) @ K)) - {0}
      = insert (current_process s) (set (R @ W @ K)) - {0}"
    unfolding set_append [of "tl _"] by (rule next_append) auto
  from good_switched [OF assms(1-4) s'(2,4) this] assms(5,6) s' show ?thesis by blast
qed

lemma good_exit:
  assumes "kernel_inv s R W K T ps" "conts_ok s K" "keys_ok (key_buffer s)" "length ps + 5 * card (live s) = N"
    "current_process s \<noteq> 0"
  shows "\<exists>s'. exit s = Inr ((), s') \<and> good N s' \<and> others_kept s s'"
proof -
  define Q where "Q = R @ filter (waits_for (- 3) s) W"
  define W' where "W' = filter (\<lambda>j. \<not> waits_for (- 3) s j) W"
  obtain s' where s': "exit s = Inr ((), s')" "switched Exited s Q s'"
    "kernel_inv s' (tl Q) W' (K @ [current_process s]) T ps"
    using kernel_exit [OF assms(1,5)] unfolding Q_def W'_def by blast
  have "set Q \<union> set W' = set R \<union> set W" by (auto simp: Q_def W'_def)
  then have "insert (next_process Q) (set (tl Q @ W' @ (K @ [current_process s]))) - {0}
      = insert (current_process s) (set (R @ W @ K)) - {0}"
    unfolding set_append [of "tl _"] by (intro next_append) auto
  from good_switched [OF assms(1-4) s'(2,3) this] assms(5) s'(1) sched_others [of s s'] s'(2) show ?thesis
    by (auto simp: switched_def)
qed

lemma good_yield:
  assumes "good N s"
  shows "\<exists>r s'. yield s = Inr (r, s') \<and> good N s' \<and> others_kept s s' \<and> (r \<noteq> Switched \<longrightarrow> s' = s)"
proof -
  obtain R W K T ps where inv: "kernel_inv s R W K T ps" "conts_ok s K" "keys_ok (key_buffer s)"
    "length ps + 5 * card (live s) = N" using goodE [OF assms] .
  show ?thesis
  proof (cases "R = []")
    case True
    with inv_yield(1) [OF kernel_invD(1) [OF inv(1)]] assms others_kept_same [of s s] show ?thesis by blast
  next
    case False
    define Q where "Q = tl R @ (if current_process s = 0 then [] else [current_process s])"
    obtain s' where s': "yield s = Inr (Switched, s')" "switched To_user s R s'" "kernel_inv s' Q W K T ps"
      using kernel_yield_switch [OF inv(1) False] unfolding Q_def by blast
    have "insert (next_process R) (set (Q @ W @ K)) - {0} = insert (current_process s) (set (R @ W @ K)) - {0}"
      unfolding Q_def append_assoc set_append [of "tl _"] by (rule next_append) auto
    moreover have "others_kept s s'" using s'(2) by (intro sched_others) (simp add: switched_def)
    ultimately show ?thesis using good_switched [OF inv s'(2,3)] s'(1) by simp
  qed
qed

end
