(* ===== verification/Safety.thy ===== *)
theory Safety
  imports Syscalls
begin

text \<open>
  The kernel as a machine: programs run, trap into the kernel and are switched, and devices interrupt.
  Every state it reaches keeps the kernel invariant of Processes and has well-formed continuations.
\<close>

section \<open>What a user buffer can reach\<close>

lemma slot_offset:
  assumes "same_slot 0x400000 v"
  shows "pmd_index v = pmd_index 0x400000" "pgd_index v = pgd_index 0x400000" "pud_index v = pud_index 0x400000"
  using assms by (simp_all add: same_slot_def)

text \<open>The running process's tables resolve a buffer below \<open>KERNEL_BASE\<close> to a part of its page, or not at all.\<close>

lemma kaddr_user:
  assumes "kernel_inv s R W K T ps" "current_process s \<noteq> 0" "v < KERNEL_BASE" "kaddr s v n = Some a"
  defines "u \<equiv> user_page (mem s) (T (current_process s))"
  shows "\<exists>k. a = u + of_nat k \<and> k + n \<le> 2097152"
proof -
  let ?c = "current_process s"
  note inv = kernel_invD [OF assms(1)]
  have c: "?c \<in> live s" using live_running(1) [OF assms(1,2)] .
  note p = memory_okD(2,3) [OF inv(2) c]
  have sp: "addr_space (mem s) (kernel_end s) (p_page_map (process_table s ?c)) (T ?c)"
    using p(1) by (simp add: process_ok_def)
  have vm: "vm_inv s (T ?c) ps" "T ?c Pgd = Some (p_page_map (process_table s ?c))"
    using inv(7) sp p(2) by (auto simp: vm_inv_def addr_space_def owned_def space_pages_def)
  have "P2V (ttbr0 s) = p_page_map (process_table s ?c)" using inv(6) by simp
  with translate_leaf [OF vm, of v] have tr: "translate (P2V (ttbr0 s)) v s = leaf (mem s) (T ?c) v" by simp
  have "\<not> KERNEL_BASE \<le> v" using assms(3) by (simp add: not_le)
  with assms(4) have k: "leaf (mem s) (T ?c) v AND ENTRY_V \<noteq> 0" "unat (v mod PAGE_SIZE) + n \<le> 2097152"
    "a = P2V (PTE_ADDR (leaf (mem s) (T ?c) v)) + v mod PAGE_SIZE"
    by (auto simp: kaddr_def tr Let_def split: if_splits)
  have "bit (leaf (mem s) (T ?c) v) 0" using k(1) by (simp add: valid_bit)
  then have "same_slot 0x400000 v" using sp by (simp add: addr_space_def)
  then have "leaf (mem s) (T ?c) v = leaf (mem s) (T ?c) 0x400000"
    using slot_offset [of v] by (simp add: leaf_def split: option.split)
  then have "a = u + of_nat (unat (v mod PAGE_SIZE))"
    using k(3) by (simp add: u_def user_page_def mapped_page_def)
  with k(2) show ?thesis by blast
qed

text \<open>Memory outside the page of the running process is untouched.\<close>

definition user_write :: "kernel \<Rightarrow> (nat \<Rightarrow> table_map) \<Rightarrow> memory \<Rightarrow> bool" where
  "user_write s T m \<longleftrightarrow> (\<forall>x. \<not> in_range (user_page (mem s) (T (current_process s))) 2097152 x \<longrightarrow> m x = mem s x)"

lemma user_write_refl [simp]: "user_write s T (mem s)"
  by (simp add: user_write_def)

lemma user_write_inv:
  assumes "kernel_inv s R W K T ps" "current_process s \<noteq> 0" "user_write s T m"
  shows "kernel_inv (s\<lparr>mem := m\<rparr>) R W K T ps"
    and "user_page m (T (current_process s)) = user_page (mem s) (T (current_process s))"
    and "image_eq (mem s) m"
proof -
  let ?c = "current_process s"
  let ?u = "user_page (mem s) (T ?c)"
  have c: "?c \<in> live s" using live_running(1) [OF assms(1,2)] .
  have m: "m x = mem s x" if "\<not> in_range ?u 2097152 x" for x using assms(3) that by (simp add: user_write_def)
  show "kernel_inv (s\<lparr>mem := m\<rparr>) R W K T ps" by (rule kernel_inv_user_write [OF assms(1) c m])
  have u: "page_ok (kernel_end s) ?u" "?u \<notin> set ps" "\<forall>i \<in> live s. ?u \<notin> ran (T i)"
    using private_pages [OF assms(1) c] c by auto
  have "heap_within {?u} s (s\<lparr>mem := m\<rparr>)" using m by (simp add: heap_within_def)
  then have k: "keeps_pages {?u} s (s\<lparr>mem := m\<rparr>)" by (rule keeps_pages_within) (simp add: u)
  from kernel_inv_page_write(2) [OF assms(1) k u(2,3)] c show "user_page m (T ?c) = ?u" by simp
  show "image_eq (mem s) m" using k by (simp add: keeps_pages_def)
qed

lemma user_write_trans:
  assumes "kernel_inv s R W K T ps" "current_process s \<noteq> 0" "user_write s T m" "user_write (s\<lparr>mem := m\<rparr>) T m'"
  shows "user_write s T m'"
  using assms(3,4) user_write_inv(2) [OF assms(1-3)] by (simp add: user_write_def)

lemma page_part:
  assumes "page_ok e u" "in_range (u + of_nat k) n x" "k + n \<le> 2097152"
  shows "in_range u 2097152 x"
proof -
  have b: "unat u + 2097152 \<le> 2 ^ 64" using page_ok_bounds(2) [OF assms(1)] by simp
  have "in_range u (k + n) x"
    using in_range_part [of u k "k + n" x] assms(2,3) b by simp
  with assms(3) show ?thesis by (simp add: in_range_def)
qed

text \<open>A copy out of the volume to a user buffer.\<close>

lemma copy_to_user:
  assumes "kernel_inv s R W K T ps" "current_process s \<noteq> 0" "v < KERNEL_BASE" "far l src" "l < 2 ^ 46"
    "copy_to v src n s = Inr (x, s')"
  shows "\<exists>m. s' = s\<lparr>mem := m\<rparr> \<and> user_write s T m" "n \<noteq> 0 \<Longrightarrow> v < 2 ^ 48"
proof -
  let ?u = "user_page (mem s) (T (current_process s))"
  show "\<exists>m. s' = s\<lparr>mem := m\<rparr> \<and> user_write s T m"
  proof (cases "n = 0")
    case True
    then have "s' = s\<lparr>mem := mem s\<rparr>" using assms(6) by (simp add: copy_to_def)
    then show ?thesis using user_write_refl by blast
  next
    case False
    then obtain a where a: "kaddr s v (unat n) = Some a" "s' = s\<lparr>mem := memcpy (mem s) a src n\<rparr>"
      using assms(6) by (auto simp: copy_to_def split: option.splits)
    obtain k where k: "a = ?u + of_nat k" "k + unat n \<le> 2097152" using kaddr_user [OF assms(1-3) a(1)] by blast
    have u: "page_ok (kernel_end s) ?u"
      using private_pages(6) [OF assms(1) live_running(1) [OF assms(1,2)] live_running(1) [OF assms(1,2)]] .
    note b = page_ok_bounds(2) [OF u]
    have n: "0 < unat n" using False by (simp add: unat_gt_0)
    have ua: "unat a = unat ?u + k" using k n b by (simp add: word_arith)
    have "forward_ok a src (unat n)"
      using assms(4,5) unat_u32_less [of n] ua b k(2) n by (simp add: forward_ok_def far_def)
    then have m: "memcpy (mem s) a src n = written (mem s) a (bytes (mem s) src (unat n))"
      by (simp add: memcpy_forward copied_written)
    have "user_write s T (memcpy (mem s) a src n)"
      unfolding user_write_def m using page_part [OF u _ k(2)] k(1) by (auto intro!: written_outside)
    with a(2) show ?thesis by blast
  qed
  show "v < 2 ^ 48" if "n \<noteq> 0"
    using that assms(3,6) by (auto simp: copy_to_def kaddr_def not_le split: option.splits if_splits)
qed

text \<open>The loop of \<open>read_raw_data\<close> into a user buffer: whatever the file is like, only the user page changes.\<close>

lemma step_below:
  assumes "(v::u64) < 2 ^ 48" shows "v + ucast (n::u32) < KERNEL_BASE"
proof -
  have "unat v < 2 ^ 48" using assms by (simp add: word_less_nat_alt)
  moreover have "unat (v + ucast n) = unat v + unat n" using calculation unat_u32_less [of n]
    by (intro trans [OF unat_add_small]) simp_all
  ultimately show ?thesis using unat_u32_less [of n] by (simp add: word_less_nat_alt)
qed

lemma read_clusters_user:
  fixes s :: kernel
  assumes "read_clusters bpb cs n i v rs s = Some r"
  shows "kernel_inv s R W K T ps \<and> current_process s \<noteq> 0 \<and> v < KERNEL_BASE \<and> bpb = get_fs_bpb (mem s) \<and> r = Inr (x, s')
    \<longrightarrow> (\<exists>m. s' = s\<lparr>mem := m\<rparr> \<and> user_write s T m)"
proof (rule read_clusters.raw_induct [OF _ assms])
  fix rec :: "u64 \<Rightarrow> u32 \<Rightarrow> u32 \<Rightarrow> u32 \<Rightarrow> u64 \<Rightarrow> u32 \<Rightarrow> kernel \<Rightarrow> (u32, kernel) outcome option"
    and bpb cs n i v rs s r
  assume IH: "\<And>bpb cs n i v rs s r. rec bpb cs n i v rs s = Some r \<Longrightarrow>
      kernel_inv s R W K T ps \<and> current_process s \<noteq> 0 \<and> v < KERNEL_BASE \<and> bpb = get_fs_bpb (mem s) \<and> r = Inr (x, s')
      \<longrightarrow> (\<exists>m. s' = s\<lparr>mem := m\<rparr> \<and> user_write s T m)"
    and run: "(if rs < n \<and> i < 0xfff7 then
        (case get_cluster_offset (mem s) i of
           Inl h \<Rightarrow> Some (Inl h)
         | Inr off \<Rightarrow> let data = ucast off + bpb in
             if n \<le> rs + cs then Some (kbind (copy_to v data (n - rs) s) (\<lambda>_ s. Inr (n, s)))
             else (case copy_to v data cs s of
                 Inl h \<Rightarrow> Some (Inl h)
               | Inr (u, s) \<Rightarrow> rec bpb cs n (ucast (get_cluster_value (mem s) i)) (v + ucast cs) (rs + cs) s))
      else Some (Inr (rs, s))) = Some r"
  show "kernel_inv s R W K T ps \<and> current_process s \<noteq> 0 \<and> v < KERNEL_BASE \<and> bpb = get_fs_bpb (mem s) \<and> r = Inr (x, s')
      \<longrightarrow> (\<exists>m. s' = s\<lparr>mem := m\<rparr> \<and> user_write s T m)"
  proof (intro impI, elim conjE)
    assume a: "kernel_inv s R W K T ps" "current_process s \<noteq> 0" "v < KERNEL_BASE" "bpb = get_fs_bpb (mem s)" "r = Inr (x, s')"
    show "\<exists>m. s' = s\<lparr>mem := m\<rparr> \<and> user_write s T m"
    proof (cases "rs < n \<and> i < 0xfff7")
      case False
      then have "s' = s\<lparr>mem := mem s\<rparr>" using run a(5) by auto
      then show ?thesis using user_write_refl by blast
    next
      case True
      then obtain off where off: "get_cluster_offset (mem s) i = Inr off"
        using run a(5) by (cases "get_cluster_offset (mem s) i") auto
      let ?data = "ucast off + bpb"
      have far: "far 8589934592 ?data"
        using far_add [OF far_bpb, of "ucast off" 4294967296 "mem s"] a(4) by (simp add: unat_u32_le add.commute)
      note copy = copy_to_user [OF a(1-3) far]
      show ?thesis
      proof (cases "n \<le> rs + cs")
        case last: True
        then have "copy_to v ?data (n - rs) s = Inr ((), s')"
          using run True off a(5) by (auto simp: Let_def kbind_Inr_iff)
        from copy(1) [OF _ this] show ?thesis by simp
      next
        case more: False
        then obtain s1 where s1: "copy_to v ?data cs s = Inr ((), s1)"
          "rec bpb cs n (ucast (get_cluster_value (mem s1) i)) (v + ucast cs) (rs + cs) s1 = Some r"
          using run True off a(5) by (simp add: Let_def split: sum.splits) auto
        obtain m where m: "s1 = s\<lparr>mem := m\<rparr>" "user_write s T m" using copy(1) [OF _ s1(1)] by auto
        note w = user_write_inv [OF a(1,2) m(2)]
        have "v + ucast cs < KERNEL_BASE"
          using copy(2) [OF _ s1(1)] step_below [of v cs] a(3) by (cases "cs = 0") simp_all
        moreover have "bpb = get_fs_bpb (mem s1)" using a(4) bpb_image [OF w(3)] m(1) by simp
        ultimately obtain m' where "s' = s1\<lparr>mem := m'\<rparr>" "user_write s1 T m'"
          using IH [OF s1(2)] w(1) a(2,5) m(1) by auto
        with m(1) user_write_trans [OF a(1,2) m(2)] show ?thesis by auto
      qed
    qed
  qed
qed

lemma read_raw_data_user:
  assumes "kernel_inv s R W K T ps" "current_process s \<noteq> 0" "v < KERNEL_BASE" "read_raw_data c v pos n s = Inr (x, s')"
  shows "\<exists>m. s' = s\<lparr>mem := m\<rparr> \<and> user_write s T m"
proof -
  let ?cs = "get_cluster_size (mem s)" and ?bpb = "get_fs_bpb (mem s)"
  obtain i where i: "?cs \<noteq> 0" "skip_clusters (unat (pos div ?cs)) c (mem s) = Inr i"
    using assms(4) by (auto simp: read_raw_data_def Let_def split: if_splits sum.splits)
  show ?thesis
  proof (cases "pos mod ?cs = 0")
    case True
    then have "read_clusters ?bpb ?cs n i v 0 s = Some (Inr (x, s'))"
      using assms(4) i by (simp add: read_raw_data_def Let_def split: option.splits)
    from read_clusters_user [OF this] assms(1-3) show ?thesis by blast
  next
    case False
    define k where "k = (if pos mod ?cs + n \<le> ?cs then n else ?cs - pos mod ?cs)"
    have 1: "(case get_cluster_offset (mem s) i of Inl h \<Rightarrow> Some (Inl h)
      | Inr off \<Rightarrow> (case copy_to v (ucast off + ?bpb + ucast (pos mod ?cs)) k s of
          Inl h \<Rightarrow> Some (Inl h)
        | Inr (u, s) \<Rightarrow> read_clusters ?bpb ?cs n (ucast (get_cluster_value (mem s) i)) (v + ucast k) k s))
      = Some (Inr (x, s'))"
      using assms(4) i False by (simp add: read_raw_data_def Let_def k_def [symmetric] split: option.splits)
    then obtain off where off: "get_cluster_offset (mem s) i = Inr off"
      by (cases "get_cluster_offset (mem s) i") auto
    let ?src = "ucast off + ?bpb + ucast (pos mod ?cs)"
    obtain s1 where s1: "copy_to v ?src k s = Inr ((), s1)"
      "read_clusters ?bpb ?cs n (ucast (get_cluster_value (mem s1) i)) (v + ucast k) k s1 = Some (Inr (x, s'))"
      using 1 off by (auto split: sum.splits)
    have "far 8589934592 (ucast off + ?bpb)"
      using far_add [OF far_bpb, of "ucast off" 4294967296 "mem s"] by (simp add: unat_u32_le add.commute)
    from far_add [OF this, of "ucast (pos mod ?cs)" 4294967296] have "far 12884901888 ?src" by (simp add: unat_u32_le)
    note copy = copy_to_user [OF assms(1-3) this _ s1(1)]
    obtain m where m: "s1 = s\<lparr>mem := m\<rparr>" "user_write s T m" using copy(1) by auto
    note w = user_write_inv [OF assms(1,2) m(2)]
    have "v + ucast k < KERNEL_BASE"
      using copy(2) step_below [of v k] assms(3) by (cases "k = 0") simp_all
    moreover have "?bpb = get_fs_bpb (mem s1)" using bpb_image [OF w(3)] m(1) by simp
    ultimately obtain m' where "s' = s1\<lparr>mem := m'\<rparr>" "user_write s1 T m'"
      using read_clusters_user [OF s1(2), of R W K T ps x s'] w(1) assms(2) m(1) by auto
    with m(1) user_write_trans [OF assms(1,2) m(2)] show ?thesis by auto
  qed
qed

section \<open>What the calls on files do to the kernel\<close>

text \<open>The processor, the continuations, the keys and the memory of the other processes are as they were.\<close>

definition same_run :: "kernel \<Rightarrow> kernel \<Rightarrow> bool" where
  "same_run s s' \<longleftrightarrow> current_process s' = current_process s \<and> conts s' = conts s \<and> key_buffer s' = key_buffer s
     \<and> live s' = live s \<and> (\<forall>i. p_tf (process_table s' i) = p_tf (process_table s i)) \<and> pid_num s' = pid_num s
     \<and> others_kept s s'"

lemma same_run_refl [simp]: "same_run s s"
  by (simp add: same_run_def)

lemma same_run_trans: "same_run s s' \<Longrightarrow> same_run s' s'' \<Longrightarrow> same_run s s''"
  using others_kept_trans [of s s' s''] by (simp add: same_run_def)

lemma same_run_mem: "others_kept s (s\<lparr>mem := m\<rparr>) \<Longrightarrow> same_run s (s\<lparr>mem := m\<rparr>)"
  by (simp add: same_run_def live_def)

lemma user_write_run:
  assumes "kernel_inv s R W K T ps" "current_process s \<noteq> 0" "user_write s T m"
  shows "same_run s (s\<lparr>mem := m\<rparr>)"
proof (rule same_run_mem, rule own_write_others [OF assms(1) user_write_inv(1) [OF assms] refl live_running(1) [OF assms(1,2)]])
  fix x assume "m x \<noteq> mem s x"
  then have "in_range (user_page (mem s) (T (current_process s))) 2097152 x" using assms(3) by (auto simp: user_write_def)
  then show "\<exists>q \<in> owned (mem s) (process_table s (current_process s)) (T (current_process s)). in_range q 2097152 x"
    by (auto simp: owned_def space_pages_def)
qed

text \<open>The kernel writes on the stack of the running process.\<close>

lemma stack_write_run:
  assumes "kernel_inv s R W K T ps" "current_process s \<noteq> 0"
    "\<And>x. \<not> in_range (p_stack (process_table s (current_process s))) 2097152 x \<Longrightarrow> m x = mem s x"
  shows "kernel_inv (s\<lparr>mem := m\<rparr>) R W K T ps" "same_run s (s\<lparr>mem := m\<rparr>)"
proof -
  let ?c = "current_process s"
  note c = live_running(1) [OF assms(1,2)]
  show k: "kernel_inv (s\<lparr>mem := m\<rparr>) R W K T ps" by (rule kernel_inv_stack_write [OF assms(1) c assms(3)])
  have "\<exists>q \<in> owned (mem s) (process_table s ?c) (T ?c). in_range q 2097152 x" if "m x \<noteq> mem s x" for x
    using that assms(3) by (auto simp: owned_def)
  from own_write_others [OF assms(1) k refl c this] show "same_run s (s\<lparr>mem := m\<rparr>)" by (rule same_run_mem)
qed

lemma same_run_io: "io_step s s' \<Longrightarrow> same_run s s'"
  using io_others [of s s'] by (auto simp: same_run_def io_step_def live_def)

lemma same_run_good:
  assumes "conts_ok s K" "keys_ok (key_buffer s)" "length ps + 5 * card (live s) = N" "same_run s s'"
    "kernel_inv s' R W K T ps"
  shows "good N s'"
  using assms(1-4) by (intro goodI [OF assms(5)]) (simp_all add: same_run_def conts_ok_def)

lemma kernel_inv_tables:
  assumes "kernel_inv s R W K T ps" "files_ok s'"
    "s' = s\<lparr>process_table := pt, fcb_table := a, file_desc_table := b\<rparr>"
    "\<And>i. \<exists>f. pt i = (process_table s i)\<lparr>p_file := f\<rparr>"
  shows "kernel_inv s' R W K T ps" "same_run s s'"
proof -
  note inv = kernel_invD [OF assms(1)]
  have p: "p_next (pt i) = p_next (process_table s i)" "p_state (pt i) = p_state (process_table s i)"
    "p_pid (pt i) = p_pid (process_table s i)" "p_wait (pt i) = p_wait (process_table s i)"
    "p_page_map (pt i) = p_page_map (process_table s i)" "p_stack (pt i) = p_stack (process_table s i)"
    "p_tf (pt i) = p_tf (process_table s i)" for i
    using assms(4) [of i] by auto
  have l: "live s' = live s" by (simp add: live_def assms(3) p)
  have "sched_inv s' R W K"
    using inv(1) queues_ok_cong [of pt "process_table s"] by (simp add: sched_inv_def assms(3) p)
  moreover have "memory_ok s' (live s) T ps"
    by (rule memory_ok_fields [OF inv(2)]) (simp_all add: assms(3) p)
  moreover have "pids_ok s' (live s)" using inv(4) by (simp add: pids_ok_def assms(3) p)
  moreover have "\<forall>k \<in> set K. p_wait (process_table s' k) = p_pid (process_table s' k)"
    using inv(5) by (simp add: assms(3) p)
  moreover have "ttbr0 s' = V2P (p_page_map (process_table s' (current_process s')))"
    using inv(6) by (simp add: assms(3) p)
  ultimately show "kernel_inv s' R W K T ps" using assms(2) by (simp only: kernel_inv_def l)
  have "others_kept s s'" by (rule others_kept_same) (simp_all add: assms(3) p)
  then show "same_run s s'" using l by (simp add: same_run_def) (simp add: assms(3) p)
qed

lemma set_file_shape: "set_file i fd d s = s\<lparr>process_table := process_table (set_file i fd d s)\<rparr>"
  by (simp add: set_file_def)

lemma set_file_only: "\<exists>f. process_table (set_file i fd d s) j = (process_table s j)\<lparr>p_file := f\<rparr>"
  by (cases "j = i") (auto simp: set_file_def intro: exI [of _ "p_file (process_table s j)"])

text \<open>\<open>open_file\<close> on any string the kernel can read, a proper C string or not.\<close>

lemma open_file_outcomes:
  assumes "open_file i path s = Inr (r, s')"
  shows "r = - 1 \<and> s' = s \<or> (\<exists>fd d e. free_fd s i = Some fd \<and> free_desc s = Some d \<and> r = of_nat fd \<and> s' = after_open s i fd d e)"
proof (cases "free_fd s i")
  case None
  then show ?thesis using assms by (simp add: open_file_def free_fd_def)
next
  case (Some fd)
  show ?thesis
  proof (cases "free_desc s")
    case None
    then show ?thesis using assms Some by (simp add: open_file_def free_fd_def free_desc_def)
  next
    case d: (Some d)
    obtain x where x: "search_file path (mem s) = Inr x"
      using assms Some d by (auto simp: open_file_def free_fd_def free_desc_def split: sum.splits)
    show ?thesis
    proof (cases "x = 0xffffffff")
      case True
      then show ?thesis using assms Some d x by (simp add: open_file_def free_fd_def free_desc_def)
    next
      case False
      have "r = of_nat fd \<and> s' = after_open s i fd d (unat x)"
        using assms Some d x False
        by (auto simp: open_file_def free_fd_def free_desc_def get_fcb_def Let_def after_open_def filled_FCB_def zero_FileDesc_def)
      with Some d show ?thesis by blast
    qed
  qed
qed

lemma open_file_keeps:
  assumes "kernel_inv s R W K T ps" "i < 10" "counts_below (2 ^ 31 - 1) s" "open_file i path s = Inr (r, s')"
  shows "kernel_inv s' R W K T ps" "same_run s s'" "mem s' = mem s" "ttbr0 s' = ttbr0 s"
proof -
  from open_file_outcomes [OF assms(4)] have "kernel_inv s' R W K T ps \<and> same_run s s' \<and> mem s' = mem s \<and> ttbr0 s' = ttbr0 s"
  proof (elim disjE exE conjE)
    assume "s' = s" with assms(1) show ?thesis by simp
  next
    fix fd d e
    assume f: "free_fd s i = Some fd" "free_desc s = Some d" "s' = after_open s i fd d e"
    have "files_ok s'" unfolding f(3)
      by (rule files_ok_open [OF kernel_invD(3) [OF assms(1)] assms(2) f(1)])
        (use f(2) assms(3) in \<open>simp_all add: free_desc_Some counts_below_def\<close>)
    from kernel_inv_tables [OF assms(1) this, where pt = "process_table s'" and a = "fcb_table s'" and b = "file_desc_table s'"]
    show ?thesis using set_file_only [of i fd "Some d" s] by (simp add: f(3) after_open_def set_file_def)
  qed
  then show "kernel_inv s' R W K T ps" "same_run s s'" "mem s' = mem s" "ttbr0 s' = ttbr0 s" by simp_all
qed

lemma file_at_opened:
  assumes "file_at i fd s = Inr (d, s1)" "fcb_at d s1 = Inr (f, s2)"
  shows "opened s i fd d f" "s1 = s" "s2 = s"
  using assms by (auto simp: opened_def file_at_def fcb_at_def split: if_splits option.splits)

lemma close_file_keeps:
  assumes "kernel_inv s R W K T ps" "i < 10" "close_file i fd s = Inr (u, s')"
  shows "kernel_inv s' R W K T ps" "same_run s s'"
proof -
  obtain d f where op: "opened s i fd d f"
    using assms(3) by (auto simp: close_file_def kbind_Inr_iff dest!: file_at_opened(1))
  note c = files_ok_close [OF kernel_invD(3) [OF assms(1)] assms(2) op]
  then have s': "s' = after_close s i (nat (sint fd)) f" using assms(3) by simp
  from kernel_inv_tables [OF assms(1) c(2), where pt = "process_table s'" and a = "fcb_table s'" and b = "file_desc_table s'"]
  show "kernel_inv s' R W K T ps" "same_run s s'"
    using set_file_only [of i "nat (sint fd)" None s] unfolding s' by (simp_all add: after_close_def set_file_def)
qed

lemma get_file_size_keeps: "get_file_size i fd s = Inr (n, s') \<Longrightarrow> s' = s"
  by (auto simp: get_file_size_def kbind_Inr_iff file_at_def fcb_at_def split: if_splits option.splits)

lemma files_ok_position: "files_ok (s\<lparr>file_desc_table := (file_desc_table s)(d := (file_desc_table s d)\<lparr>position := p\<rparr>)\<rparr>)
    = files_ok s"
proof -
  let ?s = "s\<lparr>file_desc_table := (file_desc_table s)(d := (file_desc_table s d)\<lparr>position := p\<rparr>)\<rparr>"
  have d: "fcb (file_desc_table ?s x) = fcb (file_desc_table s x)" "fd_count (file_desc_table ?s x) = fd_count (file_desc_table s x)" for x
    by simp_all
  have "holders ?s f = holders s f" for f unfolding holders_def d by simp
  then show ?thesis unfolding files_ok_def d by simp
qed

lemma read_file_keeps:
  assumes "kernel_inv s R W K T ps" "current_process s \<noteq> 0" "v < KERNEL_BASE" "read_file i fd v n s = Inr (r, s')"
  shows "kernel_inv s' R W K T ps" "same_run s s'"
proof -
  obtain d f where op: "opened s i fd d f"
    using assms(4) by (auto simp: read_file_def kbind_Inr_iff dest!: file_at_opened(1))
  note at = opened_at [OF op]
  have "kernel_inv s' R W K T ps \<and> same_run s s'"
  proof (cases "file_size (fcb_table s f) < position (file_desc_table s d) + n")
    case True
    then show ?thesis using assms(1,4) at by (simp add: read_file_def)
  next
    case False
    then obtain k s1 where s1: "read_raw_data (cluster_index (fcb_table s f)) v (position (file_desc_table s d)) n s = Inr (k, s1)"
      "s' = s1\<lparr>file_desc_table := (file_desc_table s1)(d := (file_desc_table s1 d)\<lparr>position := position (file_desc_table s1 d) + k\<rparr>)\<rparr>"
      using assms(4) at by (auto simp: read_file_def kbind_Inr_iff)
    obtain m where m: "s1 = s\<lparr>mem := m\<rparr>" "user_write s T m" using read_raw_data_user [OF assms(1-3) s1(1)] by blast
    have k: "kernel_inv s1 R W K T ps" using user_write_inv(1) [OF assms(1,2) m(2)] m(1) by simp
    have "files_ok s'" unfolding s1(2) files_ok_position by (rule kernel_invD(3) [OF k])
    from kernel_inv_tables [OF k this, where pt = "process_table s1" and a = "fcb_table s1" and b = "file_desc_table s'"]
    have "kernel_inv s' R W K T ps" "same_run s1 s'"
      using exI [of "\<lambda>f. process_table s1 i = (process_table s1 i)\<lparr>p_file := f\<rparr>" "p_file (process_table s1 i)" for i]
      unfolding s1(2) by simp_all
    moreover have "same_run s s1" unfolding m(1) by (rule user_write_run [OF assms(1,2) m(2)])
    ultimately show ?thesis using same_run_trans by blast
  qed
  then show "kernel_inv s' R W K T ps" "same_run s s'" by simp_all
qed

end
