(* ===== verification/Boot.thy ===== *)
theory Boot
  imports Syscalls
begin

text \<open>
  The boot of the kernel: \<open>kernel_main\<close> of kernel/kernel.c with the console test it runs first, and
  \<open>error_check\<close> of utils/assert.c. The theory shows that it starts the first process and
  lists, in order, everything it writes to the devices.
\<close>

section \<open>The code\<close>

text \<open>The system register \<open>currentel\<close>, under its number as the timer's registers.\<close>

definition CURRENT_EL :: u64 where "CURRENT_EL = 0xC212"

definition get_el :: "'a machine_scheme \<Rightarrow> u8 \<times> 'a machine_scheme" where
  "get_el s = (let (v, s) = inw CURRENT_EL s in (ucast (drop_bit 2 v), s))"

definition uart_test :: "'a machine_scheme \<Rightarrow> (unit, 'a machine_scheme) outcome" where
  "uart_test s =
     kbind (write_string (ascii ''Welcome! Uart is working '' @ [10] @ ascii ''Hola!!'' @ [10]) (init_uart s)) (\<lambda>_ s.
     kbind (printk (ascii ''Using Printk Function !!'' @ [13, 10]) [] s) (\<lambda>_ s.
     kbind (printk (ascii ''Testing Hex val: %x'' @ [10]) [Num 0x0123456789ABCDEF] s) (\<lambda>_ s.
     kbind (printk (ascii ''Testing unsigned val: %u'' @ [10]) [Num 2] s) (\<lambda>_ s.
     kbind (printk (ascii ''Testing signed val: %d'' @ [10]) [Num (- 4)] s) (\<lambda>_ s.
     kbind (printk (ascii ''Testing string : %s'' @ [10]) [Text (ascii ''this is pretty cool'' @ [10])] s) (\<lambda>_ s.
     Inr ((), s)))))))"

text \<open>
  \<open>init_system_call\<close> fills the constant table \<open>system_calls\<close>, and \<open>enable_irq\<close> unmasks interrupts,
  which arrive only later in the model: neither has an effect here.
\<close>

definition kernel_main :: "kernel \<Rightarrow> (unit, kernel) outcome" where
  "kernel_main s =
     (let (el, s) = get_el s in
      kbind (printk (ascii ''Current EL is EL%u'' @ [10]) [Num (ucast el)] s) (\<lambda>_ s.
      kbind (uart_test s) (\<lambda>_ s.
      kbind (init_memory s) (\<lambda>_ s.
      kbind (init_fs (init_interrupt_controller s)) (\<lambda>_ s.
      kbind (kassert True s) (\<lambda>_ s.
      init_process (init_timer s)))))))"

definition error_check :: "u8 list \<Rightarrow> u64 \<Rightarrow> 'a machine_scheme \<Rightarrow> (unit, 'a machine_scheme) outcome" where
  "error_check source_file line s =
     (let bar = [13, 10] @ ascii ''-----------------------------------'' @ [13, 10] in
      kbind (printk bar [] s) (\<lambda>_ s.
      kbind (printk (ascii ''                    ERROR CHECK'') [] s) (\<lambda>_ s.
      kbind (printk bar [] s) (\<lambda>_ s.
      kbind (printk (ascii ''Assertion Failed [%s: %u]'' @ [13, 10]) [Text source_file, Num line] s) (\<lambda>_ s.
      Inl Spin)))))"

section \<open>What boot writes to the devices\<close>

abbreviation sent_text :: "u8 list \<Rightarrow> (u64 \<times> u32) list" where
  "sent_text t \<equiv> map (\<lambda>c. (UART0_DR, ucast c)) t"

text \<open>The texts, with their arguments rendered.\<close>

definition el_text :: "u8 \<Rightarrow> u8 list" where
  "el_text el = ascii ''Current EL is EL'' @ show_base 10 (unat el) @ [10]"

definition test_text :: "u8 list" where
  "test_text = ascii ''Welcome! Uart is working '' @ [10] @ ascii ''Hola!!'' @ [10]
     @ ascii ''Using Printk Function !!'' @ [13, 10]
     @ ascii ''Testing Hex val: 123456789ABCDEFH'' @ [10] @ ascii ''Testing unsigned val: 2'' @ [10]
     @ ascii ''Testing signed val: -4'' @ [10] @ ascii ''Testing string : this is pretty cool'' @ [10, 10]"

definition uart_setup :: "(u64 \<times> u32) list" where
  "uart_setup = [(UART0_CR, 0), (UART0_IBRD, 26), (UART0_FBRD, 0), (UART0_LCRH, 0x60), (UART0_IMSC, 0x10),
     (UART0_CR, 0x301)]"

definition irq_setup :: "(u64 \<times> u32) list" where
  "irq_setup = [(DISABLE_BASIC_IRQS, 0xffffffff), (DISABLE_IRQS_1, 0xffffffff), (DISABLE_IRQS_2, 0xffffffff),
     (ENABLE_IRQS_2, 0x2000000)]"

text \<open>The timer counts a hundredth of a second.\<close>

definition timer_setup :: "u32 \<Rightarrow> (u64 \<times> u32) list" where
  "timer_setup freq = [(CNTP_TVAL_EL0, freq div 100), (CNTP_CTL_EL0, 1), (CNTP_EL0, 2)]"

lemma init_uart_does:
  "devices_only s (init_uart s)" "io_out (init_uart s) = io_out s @ uart_setup" "io_n (init_uart s) = io_n s"
  by (simp_all add: devices_only_def init_uart_def outw_def uart_setup_def)
    (intro exI [of _ "io_n s"] exI [of _ "io_out s @ uart_setup"] exI [of _ "timer_interval s"], simp add: uart_setup_def)

lemma init_irq_does:
  "devices_only s (init_interrupt_controller s)" "io_out (init_interrupt_controller s) = io_out s @ irq_setup"
  "io_n (init_interrupt_controller s) = io_n s"
  by (simp_all add: devices_only_def init_interrupt_controller_def outw_def irq_setup_def)
    (intro exI [of _ "io_n s"] exI [of _ "io_out s @ irq_setup"] exI [of _ "timer_interval s"], simp add: irq_setup_def)

text \<open>An operation that sends a text and does nothing else.\<close>

definition says :: "u8 list \<Rightarrow> (kernel \<Rightarrow> ('a, kernel) outcome) \<Rightarrow> bool" where
  "says t f \<longleftrightarrow> (\<forall>s. ready UART0_FR 5 s \<longrightarrow> (\<exists>x s'. f s = Inr (x, s') \<and> sent t s s'))"

lemma saysE:
  assumes "says t f" "ready UART0_FR 5 s"
  obtains x s' where "f s = Inr (x, s')" "sent t s s'"
  using assms unfolding says_def by blast

lemma sent_trans: "sent t s s' \<Longrightarrow> sent u s' s'' \<Longrightarrow> sent (t @ u) s s''"
  by (auto simp: sent_def)

lemma ready_sent: "sent t s s' \<Longrightarrow> ready reg b s' = ready reg b s"
  by (auto simp: sent_def ready_def)

lemma says_bind:
  assumes "says t f" "\<And>x. says u (g x)"
  shows "says (t @ u) (\<lambda>s. kbind (f s) g)"
  unfolding says_def
proof (intro allI impI)
  fix s :: kernel
  assume r: "ready UART0_FR 5 s"
  obtain x s1 where s1: "f s = Inr (x, s1)" "sent t s s1" using saysE [OF assms(1) r] .
  then have "ready UART0_FR 5 s1" using r by (simp add: ready_sent)
  then obtain y s2 where "g x s1 = Inr (y, s2)" "sent u s1 s2" using saysE [OF assms(2)] by blast
  with s1 sent_trans show "\<exists>x s'. kbind (f s) g = Inr (x, s') \<and> sent (t @ u) s s'" by fastforce
qed

lemma says_nothing: "says [] (\<lambda>s. Inr (x, s))"
  by (simp add: says_def sent_Nil)

lemma says_printk: "render fmt args = Some t \<Longrightarrow> length t \<le> 1024 \<Longrightarrow> says t (printk fmt args)"
  unfolding says_def using printk_renders [of _ fmt args] by fastforce

lemma says_write_string: "says t (write_string t)"
proof (induction t)
  case Nil
  then show ?case by (simp add: says_def sent_Nil)
next
  case (Cons c t)
  have "says [c] (write_char c)" unfolding says_def using write_char_sends by fastforce
  from says_bind [OF this Cons] show ?case by simp
qed

text \<open>What the test sends.\<close>

lemma rendered_tests:
  "render (ascii ''Testing Hex val: %x'' @ [10]) [Num 0x0123456789ABCDEF] = Some (ascii ''Testing Hex val: 123456789ABCDEFH'' @ [10])"
  "render (ascii ''Testing unsigned val: %u'' @ [10]) [Num 2] = Some (ascii ''Testing unsigned val: 2'' @ [10])"
  "render (ascii ''Testing signed val: %d'' @ [10]) [Num (- 4)] = Some (ascii ''Testing signed val: -4'' @ [10])"
  "render (ascii ''Testing string : %s'' @ [10]) [Text (ascii ''this is pretty cool'' @ [10])]
     = Some (ascii ''Testing string : this is pretty cool'' @ [10, 10])"
  "render (ascii ''Using Printk Function !!'' @ [13, 10]) [] = Some (ascii ''Using Printk Function !!'' @ [13, 10])"
  by (simp_all add: ascii_def show_base.simps digits_map_def show_int32_def)

lemma rendered_el: "render (ascii ''Current EL is EL%u'' @ [10]) [Num (ucast el)] = Some (el_text (el :: u8))"
proof -
  have "unat (ucast el :: u64) = unat el" using unat_u8_less [of el] by (simp add: unsigned_ucast_eq take_bit_nat_eq_self)
  then show ?thesis by (simp add: ascii_def el_text_def)
qed

lemma uart_test_says:
  fixes s :: kernel
  assumes "ready UART0_FR 5 s"
  shows "\<exists>s'. uart_test s = Inr ((), s') \<and> sent test_text (init_uart s) s'"
proof -
  let ?w = "write_string (ascii ''Welcome! Uart is working '' @ [10] @ ascii ''Hola!!'' @ [10])"
  let ?p0 = "printk (ascii ''Using Printk Function !!'' @ [13, 10]) []"
  let ?p1 = "printk (ascii ''Testing Hex val: %x'' @ [10]) [Num 0x0123456789ABCDEF]"
  let ?p2 = "printk (ascii ''Testing unsigned val: %u'' @ [10]) [Num 2]"
  let ?p3 = "printk (ascii ''Testing signed val: %d'' @ [10]) [Num (- 4)]"
  let ?p4 = "printk (ascii ''Testing string : %s'' @ [10]) [Text (ascii ''this is pretty cool'' @ [10])]"
  have "says (ascii ''Using Printk Function !!'' @ [13, 10]) ?p0" "says (ascii ''Testing Hex val: 123456789ABCDEFH'' @ [10]) ?p1"
    "says (ascii ''Testing unsigned val: 2'' @ [10]) ?p2" "says (ascii ''Testing signed val: -4'' @ [10]) ?p3"
    "says (ascii ''Testing string : this is pretty cool'' @ [10, 10]) ?p4"
    by (rule says_printk, simp only: rendered_tests, simp add: ascii_def)+
  note p = this
  have "says test_text (\<lambda>s. kbind (?w s) (\<lambda>_ s. kbind (?p0 s) (\<lambda>_ s. kbind (?p1 s) (\<lambda>_ s. kbind (?p2 s) (\<lambda>_ s.
      kbind (?p3 s) (\<lambda>_ s. kbind (?p4 s) (\<lambda>_ s. Inr ((), s))))))))" (is "says _ ?f")
    using says_bind [OF says_write_string [of "ascii ''Welcome! Uart is working '' @ [10] @ ascii ''Hola!!'' @ [10]"]
      says_bind [OF p(1) says_bind [OF p(2) says_bind [OF p(3) says_bind [OF p(4) says_bind [OF p(5) says_nothing]]]]]]
    unfolding test_text_def append_assoc append_Nil2 .
  moreover have "ready UART0_FR 5 (init_uart s)" using assms by (simp add: ready_devices [OF init_uart_does(1)])
  ultimately obtain x s' where "?f (init_uart s) = Inr (x, s')" "sent test_text (init_uart s) s'" by (rule saysE)
  then show ?thesis unfolding uart_test_def by (intro exI [of _ s'] conjI) simp_all
qed

lemma init_timer_does:
  "devices_only s (init_timer s)"
  "io_out (init_timer s) = io_out s @ timer_setup (io_in s CNTFRQ_EL0 (Suc (io_n s CNTFRQ_EL0)))"
  "timer_interval (init_timer s) = io_in s CNTFRQ_EL0 (io_n s CNTFRQ_EL0) div 100"
proof -
  let ?n = "(io_n s)(CNTFRQ_EL0 := Suc (Suc (io_n s CNTFRQ_EL0)))"
  have "init_timer s = s\<lparr>io_n := ?n, io_out := io_out s @ timer_setup (io_in s CNTFRQ_EL0 (Suc (io_n s CNTFRQ_EL0))),
      timer_interval := io_in s CNTFRQ_EL0 (io_n s CNTFRQ_EL0) div 100\<rparr>"
    by (simp add: init_timer_def enable_timer_def read_timer_freq_def set_timer_interval_def inw_def outw_def timer_setup_def Let_def)
  then show "devices_only s (init_timer s)"
    "io_out (init_timer s) = io_out s @ timer_setup (io_in s CNTFRQ_EL0 (Suc (io_n s CNTFRQ_EL0)))"
    "timer_interval (init_timer s) = io_in s CNTFRQ_EL0 (io_n s CNTFRQ_EL0) div 100"
    by (auto simp: devices_only_def)
qed

lemma error_check_stops: "\<exists>h. error_check f l s = Inl h"
  by (auto simp: error_check_def Let_def kbind_def split: sum.split)

section \<open>Boot\<close>

definition boot_log :: "u8 \<Rightarrow> u32 \<Rightarrow> (u64 \<times> u32) list" where
  "boot_log el freq = sent_text (el_text el) @ uart_setup @ sent_text test_text @ irq_setup @ sent_text loaded_text
     @ timer_setup freq"

text \<open>The console test, up to the first use of the heap.\<close>

lemma greeting:
  fixes s :: kernel
  assumes "ready UART0_FR 5 s"
  defines "el \<equiv> ucast (drop_bit 2 (io_in s CURRENT_EL (io_n s CURRENT_EL))) :: u8"
  shows "\<exists>s1. kernel_main s = kbind (init_memory s1) (\<lambda>_ s. kbind (init_fs (init_interrupt_controller s)) (\<lambda>_ s.
      init_process (init_timer s))) \<and> devices_only s s1
    \<and> io_out s1 = io_out s @ sent_text (el_text el) @ uart_setup @ sent_text test_text
    \<and> io_n s1 CNTFRQ_EL0 = io_n s CNTFRQ_EL0"
proof -
  define s0 where "s0 = snd (get_el s)"
  have s0: "get_el s = (el, s0)" "devices_only s s0" "io_out s0 = io_out s" "io_n s0 CNTFRQ_EL0 = io_n s CNTFRQ_EL0"
    by (auto simp: s0_def get_el_def inw_def el_def CURRENT_EL_def CNTFRQ_EL0_def
        intro: devices_onlyI [where os = "io_out s" and t = "timer_interval s"])
  have r0: "ready UART0_FR 5 s0" using assms(1) by (simp add: ready_devices [OF s0(2)])
  have "says (el_text el) (printk (ascii ''Current EL is EL%u'' @ [10]) [Num (ucast el)])"
  proof (intro says_printk rendered_el)
    have "unat (ucast el :: u64) = unat el" using unat_u8_less [of el] by (simp add: unsigned_ucast_eq take_bit_nat_eq_self)
    then show "length (el_text el) \<le> 1024" using digit_loop_10(2) [of "ucast el"] by (simp add: el_text_def ascii_def)
  qed
  then obtain k s1 where s1: "printk (ascii ''Current EL is EL%u'' @ [10]) [Num (ucast el)] s0 = Inr (k, s1)" "sent (el_text el) s0 s1"
    using r0 by (rule saysE)
  have "ready UART0_FR 5 s1" using r0 by (simp add: ready_sent [OF s1(2)])
  then obtain s2 where s2: "uart_test s1 = Inr ((), s2)" "sent test_text (init_uart s1) s2" using uart_test_says by blast
  have fr: "CNTFRQ_EL0 \<noteq> UART0_FR"
    by (simp add: CNTFRQ_EL0_def UART0_FR_def UART_BASE_ADDR_def IO_BASE_ADDR_def P2V_def KERNEL_BASE_def)
  have "devices_only s s2"
    by (rule devices_only_trans [OF s0(2) devices_only_trans [OF sent_devices [OF s1(2)]
          devices_only_trans [OF init_uart_does(1) sent_devices [OF s2(2)]]]])
  moreover have "io_out s2 = io_out s @ sent_text (el_text el) @ uart_setup @ sent_text test_text"
    using s2(2) s1(2) s0(3) by (auto simp: sent_def init_uart_does)
  moreover have "io_n s2 CNTFRQ_EL0 = io_n s CNTFRQ_EL0"
    using s2(2) s1(2) s0(4) fr by (auto simp: sent_def init_uart_does)
  ultimately show ?thesis using s0(1) s1(1) s2(1)
    by (intro exI [of _ s2]) (simp add: kernel_main_def kassert_def)
qed

lemma kernel_main_runs:
  assumes "powered_on s e cl"
  shows "\<exists>s' S ps. kernel_main s = Inr ((), s') \<and> kernel_inv s' [1] [] [] (\<lambda>i. if i = 1 then S else T i) ps
     \<and> current_process s' = 0 \<and> p_pid (process_table s' 1) = 1
     \<and> bytes (mem s') (user_page (mem s') S) 2097152 = program_page (mem s) e cl
     \<and> starts_program (mem s') (p_tf (process_table s' 1))
     \<and> length ps + 7 = card {p. page_ok (kernel_end s) p} \<and> fresh_files s'
     \<and> conts s' = (conts s)(1 := To_user) \<and> key_buffer s' = key_buffer s \<and> io_in s' = io_in s
     \<and> io_out s' = io_out s @ boot_log (ucast (drop_bit 2 (io_in s CURRENT_EL (io_n s CURRENT_EL))))
         (io_in s CNTFRQ_EL0 (Suc (io_n s CNTFRQ_EL0)))
     \<and> timer_interval s' = io_in s CNTFRQ_EL0 (io_n s CNTFRQ_EL0) div 100"
proof -
  obtain s1 where s1: "kernel_main s = kbind (init_memory s1) (\<lambda>_ s. kbind (init_fs (init_interrupt_controller s)) (\<lambda>_ s.
      init_process (init_timer s)))" "devices_only s s1"
    "io_out s1 = io_out s @ sent_text (el_text (ucast (drop_bit 2 (io_in s CURRENT_EL (io_n s CURRENT_EL))))) @ uart_setup
       @ sent_text test_text" "io_n s1 CNTFRQ_EL0 = io_n s CNTFRQ_EL0"
    using greeting [of s] assms by (auto simp: powered_on_def)
  note f1 = devices_only_fields [OF s1(2)]
  obtain s2 s3 s4 S ps where b: "init_memory s1 = Inr ((), s2)" "init_fs (init_interrupt_controller s2) = Inr ((), s3)"
    "init_process (init_timer s3) = Inr ((), s4)"
    "kernel_inv s4 [1] [] [] (\<lambda>i. if i = 1 then S else T i) ps" "current_process s4 = 0" "p_pid (process_table s4 1) = 1"
    "bytes (mem s4) (user_page (mem s4) S) 2097152 = program_page (mem s1) e cl"
    "starts_program (mem s4) (p_tf (process_table s4 1))" "length ps + 7 = card {p. page_ok (kernel_end s1) p}"
    "fresh_files s4" "conts s4 = (conts s1)(1 := To_user)" "key_buffer s4 = key_buffer s1" "io_in s4 = io_in s1"
    and dev: "io_out s2 = io_out s1" "io_out s3 = io_out (init_interrupt_controller s2) @ sent_text loaded_text"
    "io_n s2 = io_n s1" "\<forall>r. r \<noteq> UART0_FR \<longrightarrow> io_n s3 r = io_n (init_interrupt_controller s2) r"
    "io_out s4 = io_out (init_timer s3)" "timer_interval s4 = timer_interval (init_timer s3)" "io_in s3 = io_in s1"
    using boot_sequence [OF powered_on_devices [OF s1(2) assms] init_irq_does(1) init_timer_does(1), of T] by blast
  have fr: "CNTFRQ_EL0 \<noteq> UART0_FR"
    by (simp add: CNTFRQ_EL0_def UART0_FR_def UART_BASE_ADDR_def IO_BASE_ADDR_def P2V_def KERNEL_BASE_def)
  have "io_out s4 = io_out s @ boot_log (ucast (drop_bit 2 (io_in s CURRENT_EL (io_n s CURRENT_EL))))
         (io_in s CNTFRQ_EL0 (Suc (io_n s CNTFRQ_EL0)))"
    "timer_interval s4 = io_in s CNTFRQ_EL0 (io_n s CNTFRQ_EL0) div 100"
    using dev s1(3,4) fr by (simp_all add: init_timer_does init_irq_does boot_log_def f1)
  then show ?thesis using s1(1) b by (intro exI [of _ s4] exI [of _ S] exI [of _ ps]) (simp add: f1)
qed



end
