(* ===== verification/Reachable.thy ===== *)
theory Reachable
  imports Safety Boot
begin

text \<open>
  The kernel as a state machine: programs run and write their page, trap, are switched and go on, and
  devices interrupt. Whatever they do within the limits named here, every state that is reached is good.
\<close>

section \<open>Calls that return or switch\<close>

text \<open>
  A call that returns leaves its caller running with its trap frame where it was; either way the state is
  good and the other processes have the memory they had.
\<close>

definition caller_kept :: "kernel \<Rightarrow> kernel \<Rightarrow> bool" where
  "caller_kept s s' \<longleftrightarrow> others_kept s s' \<and> current_process s' = current_process s
     \<and> p_tf (process_table s' (current_process s)) = p_tf (process_table s (current_process s))"

definition good_result :: "nat \<Rightarrow> kernel \<Rightarrow> ('a progress, kernel) outcome \<Rightarrow> bool" where
  "good_result N s r \<longleftrightarrow> (\<forall>p s'. r = Inr (p, s') \<longrightarrow> good N s' \<and> others_kept s s' \<and> (p \<noteq> Switched \<longrightarrow> caller_kept s s'))"

lemma same_run_caller: "same_run s s' \<Longrightarrow> caller_kept s s'"
  by (simp add: same_run_def caller_kept_def)

lemma caller_kept_refl [simp]: "caller_kept s s"
  by (simp add: caller_kept_def)

lemma caller_kept_trans: "caller_kept s s' \<Longrightarrow> caller_kept s' s'' \<Longrightarrow> live s \<inter> live s'' \<subseteq> live s' \<Longrightarrow> caller_kept s s''"
  using others_kept_trans [of s s' s''] by (simp add: caller_kept_def)

lemma good_result_Inl [simp]: "good_result N s (Inl h)"
  by (simp add: good_result_def)

lemma good_result_switched [simp]: "good_result N s (Inr (Switched, s')) \<longleftrightarrow> good N s' \<and> others_kept s s'"
  by (simp add: good_result_def)

lemma good_result_Done [simp]: "good_result N s (Inr (Done v, s')) \<longleftrightarrow> good N s' \<and> caller_kept s s'"
  by (auto simp: good_result_def caller_kept_def)

lemma good_result_run:
  assumes "caller_kept s s1" "live s1 = live s" "good_result N s1 r"
  shows "good_result N s r"
  unfolding good_result_def
proof (intro allI impI)
  fix p s' assume r: "r = Inr (p, s')"
  then have g: "good N s'" "others_kept s1 s'" "p \<noteq> Switched \<Longrightarrow> caller_kept s1 s'"
    using assms(3) by (simp_all add: good_result_def)
  have "others_kept s s'" using others_kept_trans [OF _ g(2), of s] assms(1,2) by (simp add: caller_kept_def)
  with g caller_kept_trans [OF assms(1)] assms(2)
  show "good N s' \<and> others_kept s s' \<and> (p \<noteq> Switched \<longrightarrow> caller_kept s s')" by auto
qed

lemma good_map_progress: "good_result N s r \<Longrightarrow> good_result N s (map_progress f r)"
  by (cases r) (auto simp: good_result_def map_progress_def split: progress.splits)

lemma good_int_result:
  assumes "\<And>x s'. r = Inr (x, s') \<Longrightarrow> good N s' \<and> caller_kept s s'"
  shows "good_result N s (int_result f r)"
  using assms by (cases r) (auto simp: int_result_def)

lemma good_argument:
  assumes "\<And>x. argument a n s = Inr (x, s) \<Longrightarrow> good_result N s (f x s)"
  shows "good_result N s (kbind (argument a n s) f)"
proof (cases "argument a n s")
  case (Inr p)
  then obtain x where "argument a n s = Inr (x, s)" using argument_same by (cases p) blast
  with assms show ?thesis by simp
qed simp

text \<open>The pages of a process that are not among those written.\<close>

lemma keeps_space:
  assumes "kernel_inv s R W K T ps" "j \<in> live s" "keeps_pages U s s'"
  shows "\<forall>p \<in> space_pages (mem s) (T j). p \<notin> U \<longrightarrow> same_page (mem s) (mem s') p"
  using kernel_invD(8) [OF assms(1,2)] space_pages_ok assms(3) by (fastforce simp: keeps_pages_def process_ok_def)

text \<open>Collecting a child.\<close>

lemma good_wait:
  assumes "good N s" "current_process s \<noteq> 0"
  shows "good_result N s (wait pid s)"
proof -
  let ?c = "current_process s"
  obtain R W K T ps where inv: "kernel_inv s R W K T ps" "conts_ok s K" "keys_ok (key_buffer s)"
    "length ps + 5 * card (live s) = N" using goodE [OF assms(1)] .
  show ?thesis
  proof (cases "find (waits_for pid s) K")
    case None
    obtain s' where s': "wait pid s = Inr (Switched, s')" "sched_step s s'" "current_process s' = next_process R"
      "conts s' = (conts s)(?c := Wait_loop pid)" "kernel_inv s' (tl R) (W @ [?c]) K T ps"
      using kernel_wait_none [OF inv(1) None assms(2)] by blast
    have "insert (next_process R) (set (tl R @ (W @ [?c]) @ K)) - {0} = insert ?c (set (R @ W @ K)) - {0}"
      unfolding set_append [of "tl _"] by (rule next_append) auto
    moreover have "switched (Wait_loop pid) s R s'"
      using s' kernel_invD(6) [OF s'(5)] sched_step_fields(11) [OF s'(2)] by (simp add: switched_def)
    ultimately have "good N s'" using good_switched [OF inv _ s'(5)] assms(2) by simp
    then show ?thesis using s'(1) sched_others [OF s'(2)] by simp
  next
    case (Some i)
    obtain s' ps' where s': "wait pid s = Inr (Done (), s')" "kernel_inv s' R W (remove1 i K) T ps'"
      "set ps' = set ps \<union> owned (mem s) (process_table s i) (T i)" "current_process s' = ?c" "conts s' = conts s"
      "live s' = live s - {i}" "key_buffer s' = key_buffer s"
      "\<forall>j. j \<noteq> i \<longrightarrow> p_tf (process_table s' j) = p_tf (process_table s j)"
      "keeps_pages (set ps \<union> owned (mem s) (process_table s i) (T i)) s s'"
      using kernel_wait_found [OF inv(1) Some] by blast
    have iK: "i \<in> set K" using Some by (auto simp: find_Some_iff)
    moreover from this have "i \<noteq> 0" using kernel_inv_current(3) [OF inv(1)] by auto
    ultimately have i: "i \<in> live s" unfolding live_queues [OF kernel_invD(1) [OF inv(1)]] by simp
    have ic: "i \<noteq> ?c" using iK kernel_inv_current(2) [OF inv(1)] by auto
    have "distinct K" using kernel_inv_current(4) [OF inv(1)] by simp
    then have K: "set (remove1 i K) = set K - {i}" by (rule set_remove1_eq)
    have "length ps + 5 = length ps'"
      using new_process_takes_five [OF inv(1) i, of ps'] s'(3) kernel_invD(7) [OF s'(2)] by (simp add: heap_inv_def)
    moreover have "card (live s) = Suc (card (live s'))"
      unfolding s'(6) using i by (intro card.remove) (simp_all add: live_def)
    ultimately have "length ps' + 5 * card (live s') = N" using inv(4) by simp
    moreover have "conts_ok s' (remove1 i K)" using inv(2) by (auto simp: conts_ok_def s'(5,6) K)
    ultimately have "good N s'" using inv(3) s'(7) by (intro goodI [OF s'(2)]) simp_all
    moreover have "others_kept s s'"
    proof (rule others_kept_pages [OF inv(1) s'(2)])
      fix j assume "j \<in> live s" "j \<in> live s'"
      then have "j \<noteq> i" "j \<in> live s" using s'(6) by auto
      then have "p \<notin> set ps \<union> owned (mem s) (process_table s i) (T i)" if "p \<in> space_pages (mem s) (T j)" for p
        using that memory_okD(3,4) [OF kernel_invD(2) [OF inv(1)]] i by (fastforce simp: owned_def)
      with keeps_space [OF inv(1) \<open>j \<in> live s\<close> s'(9)]
      show "T j = T j \<and> (\<forall>p \<in> space_pages (mem s) (T j). same_page (mem s) (mem s') p)" by blast
    qed
    ultimately show ?thesis using s'(1,4,8) ic by (simp add: caller_kept_def)
  qed
qed

text \<open>Reading a key: any well-formed buffer stays well formed, whatever the index that was kept over the sleep.\<close>

lemma take_key_ok:
  assumes "keys_ok kb" "take_key front kb = Inr (c, kb')"
  shows "keys_ok kb'"
proof -
  obtain f where k: "sint (c_rem (kb_front kb + 1) 500) = int (Suc f mod 500)" "kb_size kb = 500"
    using keys_okE [OF assms(1)] by metis
  have "kb' = kb\<lparr>kb_front := c_rem (kb_front kb + 1) 500\<rparr>"
    using assms(2) k(2) by (auto simp: take_key_def Let_def split: option.splits)
  with assms(1) k(1) show ?thesis by (simp add: keys_ok_def)
qed

lemma good_keys:
  assumes "good N s" "keys_ok kb"
  shows "good N (s\<lparr>key_buffer := kb\<rparr>)"
proof -
  obtain R W K T ps where inv: "kernel_inv s R W K T ps" "conts_ok s K" "keys_ok (key_buffer s)"
    "length ps + 5 * card (live s) = N" using goodE [OF assms(1)] .
  have l: "live (s\<lparr>key_buffer := kb\<rparr>) = live s" by (simp add: live_def)
  have k: "kernel_inv (s\<lparr>key_buffer := kb\<rparr>) R W K T ps" using inv(1) by simp
  have "conts_ok (s\<lparr>key_buffer := kb\<rparr>) K" using inv(2) l by (simp add: conts_ok_def)
  from goodI [OF k this] show ?thesis using inv(4) assms(2) l by simp
qed

lemma good_take_key:
  assumes "good N s" "on_keys (take_key front) s = Inr (c, s')"
  shows "good N s'" "caller_kept s s'"
proof -
  obtain kb where kb: "take_key front (key_buffer s) = Inr (c, kb)" "s' = s\<lparr>key_buffer := kb\<rparr>"
    using assms(2) by (auto simp: on_keys_def split: sum.splits)
  have "keys_ok (key_buffer s)" using assms(1) by (simp add: good_def)
  from good_keys [OF assms(1) take_key_ok [OF this kb(1)]] kb(2)
  show "good N s'" "caller_kept s s'" by (simp_all add: caller_kept_def others_kept_same)
qed

lemma good_sleeping:
  assumes "good N s" "current_process s \<noteq> 0" "valid_cont k"
  shows "good_result N s (kbind (sleep v k s) (\<lambda>_ s. Inr (Switched, s)))"
proof -
  obtain R W K T ps where inv: "kernel_inv s R W K T ps" "conts_ok s K" "keys_ok (key_buffer s)"
    "length ps + 5 * card (live s) = N" using goodE [OF assms(1)] .
  from good_sleep [OF inv assms(2,3), of v] sched_others show ?thesis by (auto simp: switched_def)
qed

lemma good_exiting:
  assumes "good N s" "current_process s \<noteq> 0"
  shows "good_result N s (kbind (exit s) (\<lambda>_ s. Inr (Switched, s)))"
proof -
  obtain R W K T ps where inv: "kernel_inv s R W K T ps" "conts_ok s K" "keys_ok (key_buffer s)"
    "length ps + 5 * card (live s) = N" using goodE [OF assms(1)] .
  from good_exit [OF inv assms(2)] show ?thesis by auto
qed

lemma good_read_key:
  assumes "good N s" "current_process s \<noteq> 0"
  shows "good_result N s (read_key_buffer s)"
proof -
  have "keys_ok (key_buffer s)" using assms(1) by (simp add: good_def)
  then have "buffer_index (kb_front (key_buffer s)) \<noteq> None"
    using keys_okE by (metis option.distinct(1))
  then have "valid_cont (Key_read (kb_front (key_buffer s)))" by simp
  from good_sleeping [OF assms this, of "- 2"]
  have sl: "good_result N s (kbind (sleep (- 2) (Key_read (kb_front (key_buffer s))) s) (\<lambda>_ s. Inr (Switched :: u8 progress, s)))" .
  have "good_result N s (kbind (on_keys (take_key (kb_front (key_buffer s))) s) (\<lambda>c s. Inr (Done c, s)))"
    using good_take_key [OF assms(1)] by (cases "on_keys (take_key (kb_front (key_buffer s))) s") auto
  with sl show ?thesis by (cases "kb_front (key_buffer s) = kb_end (key_buffer s)") (simp_all only: read_key_buffer_def Let_def if_True if_False simp_thms)
qed

lemma good_sleep_loop:
  assumes "good N s" "current_process s \<noteq> 0"
  shows "good_result N s (sleep_loop old n s)"
  using assms(1) by (simp add: sleep_loop_def good_sleeping [OF assms])

section \<open>The other calls\<close>

text \<open>
  What the code does not check: counts and process ids that would overflow their \<open>int\<close>, and buffers given
  by a program that lie in the kernel.
\<close>

definition within_limits :: "kernel \<Rightarrow> bool" where
  "within_limits s \<longleftrightarrow> counts_below (2 ^ 31 - 101) s \<and> sint (pid_num s) < 2 ^ 31 - 1"

definition user_buffer :: "u64 \<Rightarrow> nat \<Rightarrow> kernel \<Rightarrow> bool" where
  "user_buffer argptr n s \<longleftrightarrow> (case argument argptr n s of Inl h \<Rightarrow> True | Inr (b, s') \<Rightarrow> b < KERNEL_BASE)"

lemma current_less:
  assumes "good N s" shows "current_process s < 10"
proof -
  obtain R W K T ps where inv: "kernel_inv s R W K T ps" using goodE [OF assms] .
  from kernel_inv_current(1) [OF inv] show ?thesis by (simp add: NUM_PROC_def)
qed

lemma limits_count: "within_limits s \<Longrightarrow> counts_below (2 ^ 31 - 1) s"
  using counts_below_mono [of "2 ^ 31 - 101" s "2 ^ 31 - 1"] by (simp add: within_limits_def)

text \<open>A step that keeps the invariant under the same queues, tables and free list.\<close>

lemma goodE_kept:
  assumes "good N s"
  shows "\<exists>R W K T ps. kernel_inv s R W K T ps
    \<and> (\<forall>s'. kernel_inv s' R W K T ps \<longrightarrow> same_run s s' \<longrightarrow> good N s' \<and> caller_kept s s')"
proof -
  obtain R W K T ps where inv: "kernel_inv s R W K T ps" "conts_ok s K" "keys_ok (key_buffer s)"
    "length ps + 5 * card (live s) = N" using goodE [OF assms(1)] .
  have "good N s' \<and> caller_kept s s'" if "kernel_inv s' R W K T ps" "same_run s s'" for s'
    using same_run_good [OF inv(2-4) that(2,1)] same_run_caller [OF that(2)] by simp
  with inv(1) show ?thesis by blast
qed

lemma good_open_file:
  assumes "good N s" "within_limits s" "open_file (current_process s) path s = Inr (r, s')"
  shows "good N s' \<and> caller_kept s s'"
proof -
  obtain R W K T ps where inv: "kernel_inv s R W K T ps"
    "\<forall>s'. kernel_inv s' R W K T ps \<longrightarrow> same_run s s' \<longrightarrow> good N s' \<and> caller_kept s s'"
    using goodE_kept [OF assms(1)] by blast
  from open_file_keeps(1,2) [OF inv(1) current_less [OF assms(1)] limits_count [OF assms(2)] assms(3)]
  inv(2) show ?thesis by blast
qed

lemma good_close_file:
  assumes "good N s" "close_file (current_process s) fd s = Inr (u, s')"
  shows "good N s' \<and> caller_kept s s'"
proof -
  obtain R W K T ps where inv: "kernel_inv s R W K T ps"
    "\<forall>s'. kernel_inv s' R W K T ps \<longrightarrow> same_run s s' \<longrightarrow> good N s' \<and> caller_kept s s'"
    using goodE_kept [OF assms(1)] by blast
  from close_file_keeps [OF inv(1) current_less [OF assms(1)] assms(2)] inv(2) show ?thesis by blast
qed

lemma good_read_file:
  assumes "good N s" "current_process s \<noteq> 0" "b < KERNEL_BASE" "read_file i fd b n s = Inr (r, s')"
  shows "good N s' \<and> caller_kept s s'"
proof -
  obtain R W K T ps where inv: "kernel_inv s R W K T ps"
    "\<forall>s'. kernel_inv s' R W K T ps \<longrightarrow> same_run s s' \<longrightarrow> good N s' \<and> caller_kept s s'"
    using goodE_kept [OF assms(1)] by blast
  from read_file_keeps [OF inv(1) assms(2-4)] inv(2) show ?thesis by blast
qed

lemma good_read_root:
  assumes "good N s" "current_process s \<noteq> 0" "b < KERNEL_BASE" "read_root_directory b s = Inr (r, s')"
  shows "good N s' \<and> caller_kept s s'"
proof -
  obtain R W K T ps where inv: "kernel_inv s R W K T ps"
    "\<forall>s'. kernel_inv s' R W K T ps \<longrightarrow> same_run s s' \<longrightarrow> good N s' \<and> caller_kept s s'"
    using goodE_kept [OF assms(1)] by blast
  have copy: "\<exists>n. copy_to b (get_root_directory (mem s)) n s = Inr ((), s')"
    using assms(4) by (auto simp: read_root_directory_def Let_def kbind_Inr_iff)
  then obtain n where n: "copy_to b (get_root_directory (mem s)) n s = Inr ((), s')" by blast
  have "far 12884901888 (get_root_directory (mem s))" by (rule far_mono [OF far_root]) simp
  then obtain m where m: "s' = s\<lparr>mem := m\<rparr>" "user_write s T m"
    using copy_to_user(1) [OF inv(1) assms(2,3) _ _ n, of 12884901888] by auto
  from user_write_inv(1) [OF inv(1) assms(2) m(2)] user_write_run [OF inv(1) assms(2) m(2)] inv(2)
  show ?thesis unfolding m(1) by blast
qed

lemma good_fork:
  assumes "good N s" "current_process s \<noteq> 0" "within_limits s" "fork s = Inr (r, s')"
  shows "good N s' \<and> caller_kept s s'"
proof -
  let ?c = "current_process s"
  obtain R W K T ps where inv: "kernel_inv s R W K T ps" "conts_ok s K" "keys_ok (key_buffer s)"
    "length ps + 5 * card (live s) = N" using goodE [OF assms(1)] .
  have lim: "counts_below (2 ^ 31 - 101) s" "sint (pid_num s) < 2 ^ 31 - 1"
    using assms(3) by (simp_all add: within_limits_def)
  obtain i where i: "find_unused_process s = Some i"
    using fork_fails(1) [OF inv(1)] assms(4) by (cases "find_unused_process s") auto
  have "5 \<le> length ps"
    using fork_short_of_pages [OF inv(1) assms(2) i] assms(4) by (cases "length ps < 5") auto
  from fork_runs [OF inv(1) assms(2) lim i this] obtain s1 S ps' where s1: "fork s = Inr (pid_num s, s1)"
    "kernel_inv s1 (R @ [i]) W K (T(i := S)) ps'" "current_process s1 = ?c"
    "set ps' \<union> owned (mem s1) (process_table s1 i) S = set ps" "conts s1 = (conts s)(i := To_user)"
    "live s1 = insert i (live s)" "key_buffer s1 = key_buffer s"
    "p_tf (process_table s1 ?c) = p_tf (process_table s ?c)" "keeps_pages (set ps) s s1" by blast
  have s': "s' = s1" using s1(1) assms(4) by simp
  have i0: "i \<noteq> 0" "i \<notin> live s" using free_slot [OF kernel_invD(1) [OF inv(1)] i] by auto
  have "i \<in> live s1" using s1(6) by simp
  moreover have "heap_inv s ps" using kernel_invD(7) [OF inv(1)] .
  moreover have "set ps = set ps' \<union> owned (mem s1) (process_table s1 i) ((T(i := S)) i)" using s1(4) by simp
  ultimately have "length ps' + 5 = length ps"
    using new_process_takes_five [OF s1(2)] by (simp add: heap_inv_def)
  moreover have "card (live s1) = Suc (card (live s))"
    unfolding s1(6) using i0 by (intro card_insert_disjoint) (simp_all add: live_def)
  ultimately have "length ps' + 5 * card (live s1) = N" using inv(4) by simp
  moreover have "conts_ok s1 K" using inv(2) i0 by (auto simp: conts_ok_def s1(5,6))
  ultimately have "good N s1" using inv(3) s1(7) by (intro goodI [OF s1(2)]) simp_all
  moreover have "others_kept s s1"
  proof (rule others_kept_pages [OF inv(1) s1(2)])
    fix j assume j: "j \<in> live s"
    then have "p \<notin> set ps" if "p \<in> space_pages (mem s) (T j)" for p
      using that memory_okD(3) [OF kernel_invD(2) [OF inv(1)]] by (fastforce simp: owned_def)
    with keeps_space [OF inv(1) j s1(9)] j i0 show "(T(i := S)) j = T j \<and> (\<forall>p \<in> space_pages (mem s) (T j). same_page (mem s) (mem s1) p)"
      by auto
  qed
  ultimately show ?thesis using s1(3,8) by (simp add: s' caller_kept_def)
qed

text \<open>\<open>exec\<close>, whatever is in the file: a program larger than the page faults, it does not overwrite others.\<close>

lemma fill_to_user:
  assumes "kernel_inv s R W K T ps" "current_process s \<noteq> 0" "v < KERNEL_BASE" "fill_to v x n s = Inr (u, s')"
  shows "\<exists>m. s' = s\<lparr>mem := m\<rparr> \<and> user_write s T m"
proof (cases "n = 0")
  case True
  then have "s' = s\<lparr>mem := mem s\<rparr>" using assms(4) by (simp add: fill_to_def)
  then show ?thesis using user_write_refl by blast
next
  case False
  let ?p = "user_page (mem s) (T (current_process s))"
  obtain a where a: "kaddr s v (unat n) = Some a" "s' = s\<lparr>mem := memset (mem s) a x n\<rparr>"
    using assms(4) False by (auto simp: fill_to_def split: option.splits)
  obtain k where k: "a = ?p + of_nat k" "k + unat n \<le> 2097152" using kaddr_user [OF assms(1-3) a(1)] by blast
  note c = live_running(1) [OF assms(1,2)]
  have "\<not> in_range a (unat n) y" if "\<not> in_range ?p 2097152 y" for y
    using page_part [OF private_pages(6) [OF assms(1) c c] _ k(2)] k(1) that by blast
  then have "user_write s T (memset (mem s) a x n)"
    unfolding user_write_def by (simp add: memset_eq)
  with a(2) show ?thesis by blast
qed

lemma reset_frame_keeps:
  assumes "kernel_inv s R W K T ps" "current_process s \<noteq> 0"
  defines "tf \<equiv> p_tf (process_table s (current_process s))"
  shows "kernel_inv (s\<lparr>mem := reset_frame tf (mem s)\<rparr>) R W K T ps" "same_run s (s\<lparr>mem := reset_frame tf (mem s)\<rparr>)"
proof -
  let ?q = "p_stack (process_table s (current_process s))"
  note c = live_running(1) [OF assms(1,2)]
  have tf: "tf = ?q + PAGE_SIZE - TRAPFRAME_SIZE"
    using kernel_invD(8) [OF assms(1) c] by (simp add: process_ok_def tf_def)
  have "reset_frame tf (mem s) x = mem s x" if "\<not> in_range ?q 2097152 x" for x
    unfolding tf by (rule reset_frame_in_page [OF private_pages(7) [OF assms(1) c c] that])
  from stack_write_run [OF assms(1,2) this] show "kernel_inv (s\<lparr>mem := reset_frame tf (mem s)\<rparr>) R W K T ps"
    "same_run s (s\<lparr>mem := reset_frame tf (mem s)\<rparr>)" by simp_all
qed

lemma good_exec:
  assumes "good N s" "current_process s \<noteq> 0" "within_limits s"
  shows "good_result N s (exec (current_process s) path s)"
proof -
  let ?c = "current_process s"
  obtain R W K T ps where inv: "kernel_inv s R W K T ps"
    "\<forall>s'. kernel_inv s' R W K T ps \<longrightarrow> same_run s s' \<longrightarrow> good N s' \<and> caller_kept s s'"
    using goodE_kept [OF assms(1)] by blast
  have leave: "good_result N s (kbind (exit s1) (\<lambda>_ s. Inr (Switched, s)))"
    if "kernel_inv s1 R W K T ps" "same_run s s1" for s1
  proof -
    have "good N s1" "caller_kept s s1" "current_process s1 \<noteq> 0" "live s1 = live s"
      using inv(2) that assms(2) by (auto simp: same_run_def)
    then show ?thesis using good_result_run good_exiting by blast
  qed
  have "good_result N s r" if run: "exec ?c path s = r" "r = Inr (p, s')" for r p s'
  proof -
    obtain fd s1 where s1: "open_file ?c path s = Inr (fd, s1)" using run by (auto simp: exec_def kbind_Inr_iff)
    note k1 = open_file_keeps(1,2) [OF inv(1) current_less [OF assms(1)] limits_count [OF assms(3)] s1]
    have c1: "current_process s1 \<noteq> 0" using k1(2) assms(2) by (simp add: same_run_def)
    show ?thesis
    proof (cases "fd = - 1")
      case True
      then have "r = kbind (exit s1) (\<lambda>_ s. Inr (Switched, s))" using s1 run(1) by (simp add: exec_def)
      then show ?thesis by (simp only: leave [OF k1])
    next
      case False
      obtain s2 n s3 x s4 where s2: "fill_to 0x400000 0 (ucast PAGE_SIZE) s1 = Inr ((), s2)"
        "get_file_size ?c fd s2 = Inr (n, s3)" "read_file ?c fd 0x400000 n s3 = Inr (x, s4)"
        using run s1 False by (auto simp: exec_def kbind_Inr_iff)
      obtain m where m: "s2 = s1\<lparr>mem := m\<rparr>" "user_write s1 T m"
        using fill_to_user [OF k1(1) c1 _ s2(1)] by (auto simp: KERNEL_BASE_def)
      have k2: "kernel_inv s2 R W K T ps" "same_run s1 s2"
        using user_write_inv(1) [OF k1(1) c1 m(2)] user_write_run [OF k1(1) c1 m(2)] by (simp_all add: m(1))
      have s3: "s3 = s2" using get_file_size_keeps [OF s2(2)] .
      have c2: "current_process s3 \<noteq> 0" using k2(2) c1 s3 by (simp add: same_run_def)
      have k3: "kernel_inv s4 R W K T ps" "same_run s s4"
        using read_file_keeps [OF k2(1)[folded s3] c2 _ s2(3)] same_run_trans [OF k1(2) same_run_trans [OF k2(2)]] s3
        by (auto simp: KERNEL_BASE_def)
      show ?thesis
      proof (cases "x = 0xffffffff")
        case True
        then have "r = kbind (exit s4) (\<lambda>_ s. Inr (Switched, s))" using s1 s2 False run(1) by (simp add: exec_def)
        then show ?thesis by (simp only: leave [OF k3])
      next
        case ok: False
        obtain s5 where s5: "close_file ?c fd s4 = Inr ((), s5)"
          using run s1 s2 False ok by (auto simp: exec_def kbind_Inr_iff)
        note k5 = close_file_keeps [OF k3(1) current_less [OF assms(1)] s5]
        let ?s6 = "s5\<lparr>mem := reset_frame (p_tf (process_table s5 ?c)) (mem s5)\<rparr>"
        have sr: "same_run s s5" using same_run_trans [OF k3(2) k5(2)] .
        then have c5: "current_process s5 = ?c" by (simp add: same_run_def)
        note k6 = reset_frame_keeps [OF k5(1), unfolded c5, OF assms(2)]
        have "same_run s ?s6" using same_run_trans [OF sr k6(2)] .
        then have "good N ?s6 \<and> caller_kept s ?s6" using inv(2) k6(1) by blast
        moreover have "r = Inr (Done 0, ?s6)"
          using s1 s2 False ok s5 run(1) by (simp add: exec_def reset_frame_def Let_def)
        ultimately show ?thesis by simp
      qed
    qed
  qed
  then show ?thesis by (cases "exec ?c path s") auto
qed

section \<open>System calls\<close>

definition buffers_ok :: "nat \<Rightarrow> u64 \<Rightarrow> kernel \<Rightarrow> bool" where
  "buffers_ok i argptr s \<longleftrightarrow> (i = 7 \<longrightarrow> user_buffer argptr 1 s) \<and> (i = 12 \<longrightarrow> user_buffer argptr 0 s)"

lemma good_same: "good N s \<Longrightarrow> good N s \<and> caller_kept s s"
  by simp

lemma io_same_run: "io_step s s' \<Longrightarrow> caller_kept s s'"
  by (rule same_run_caller [OF same_run_io])

lemma good_sys_write:
  assumes "good N s"
  shows "good_result N s (sys_write argptr s)"
  unfolding sys_write_def
proof (rule good_argument)+
  fix b n
  show "good_result N s (kbind (write_user (nat (sint (ucast n :: i32))) b s) (\<lambda>_ s. int_result ucast (argument argptr 1 s)))"
  proof (cases "write_user (nat (sint (ucast n :: i32))) b s")
    case (Inr p)
    then obtain s1 where s1: "write_user (nat (sint (ucast n :: i32))) b s = Inr ((), s1)" by (cases p) simp
    then have io: "io_step s s1" by (rule write_user_io)
    then have "good N s1" using good_io assms by blast
    then have "good_result N s1 (int_result ucast (argument argptr 1 s1))"
      using argument_same good_same by (intro good_int_result) blast
    from good_result_run [OF io_same_run [OF io] io_step_fields(7) [OF io] this] s1 show ?thesis by simp
  qed simp
qed

lemma good_system_calls:
  assumes "good N s" "current_process s \<noteq> 0" "within_limits s" "buffers_ok i argptr s" "system_calls i = Some f"
  shows "good_result N s (f argptr s)"
proof -
  have b7: "b < KERNEL_BASE" if "i = 7" "argument argptr 1 s = Inr (b, s)" for b
    using assms(4) that by (simp add: buffers_ok_def user_buffer_def)
  have b12: "b < KERNEL_BASE" if "i = 12" "argument argptr 0 s = Inr (b, s)" for b
    using assms(4) that by (simp add: buffers_ok_def user_buffer_def)
  note wait = good_map_progress [OF good_wait [OF assms(1,2)]]
  have "good_result N s (sys_sleep argptr s)"
    unfolding sys_sleep_def by (intro good_argument good_sleep_loop assms)
  moreover have "good_result N s (sys_exit argptr s)"
    unfolding sys_exit_def by (rule good_exiting [OF assms(1,2)])
  moreover have "good_result N s (sys_wait argptr s)"
    unfolding sys_wait_def by (intro good_argument good_map_progress good_wait assms)
  moreover have "good_result N s (sys_open_file argptr s)"
    unfolding sys_open_file_def by (intro good_argument good_int_result good_open_file [OF assms(1,3)])
  moreover have "good_result N s (sys_close_file argptr s)"
    unfolding sys_close_file_def by (intro good_argument good_int_result good_close_file [OF assms(1)])
  moreover have "good_result N s (sys_get_file_size argptr s)"
    unfolding sys_get_file_size_def using good_same [OF assms(1)]
    by (intro good_argument good_int_result) (auto dest: get_file_size_keeps)
  moreover have "good_result N s (sys_read_file argptr s)" if "i = 7"
    unfolding sys_read_file_def using b7 [OF that]
    by (intro good_argument good_int_result good_read_file [OF assms(1,2)])
  moreover have "good_result N s (sys_fork argptr s)"
    unfolding sys_fork_def by (intro good_int_result good_fork [OF assms(1-3)])
  moreover have "good_result N s (sys_getpid argptr s)"
    unfolding sys_getpid_def using good_same [OF assms(1)] by simp
  moreover have "good_result N s (sys_exec argptr s)"
    unfolding sys_exec_def by (intro good_argument good_exec assms)
  moreover have "good_result N s (sys_keyboard_read argptr s)"
    unfolding sys_keyboard_read_def by (intro good_map_progress good_read_key assms)
  moreover have "good_result N s (sys_read_root_directory argptr s)" if "i = 12"
    unfolding sys_read_root_directory_def using b12 [OF that]
    by (intro good_argument good_int_result good_read_root [OF assms(1,2)])
  ultimately show ?thesis
    using good_sys_write [OF assms(1)] assms(5) by (auto simp: system_calls_def split: if_splits)
qed

text \<open>The result goes to \<open>x0\<close> of the caller's trap frame.\<close>

lemma good_result_write:
  assumes "good N s" "current_process s \<noteq> 0" "tf = p_tf (process_table s (current_process s))"
  shows "good N (s\<lparr>mem := st64 (mem s) tf v\<rparr>)" "caller_kept s (s\<lparr>mem := st64 (mem s) tf v\<rparr>)"
proof -
  obtain R W K T ps where inv: "kernel_inv s R W K T ps"
    "\<forall>s'. kernel_inv s' R W K T ps \<longrightarrow> same_run s s' \<longrightarrow> good N s' \<and> caller_kept s s'"
    using goodE_kept [OF assms(1)] by blast
  have c: "current_process s \<in> live s" using live_running(1) [OF inv(1) assms(2)] .
  from stack_write_run [OF inv(1) assms(2) frame_write_in_stack [OF inv(1) c assms(3)]] inv(2)
  show "good N (s\<lparr>mem := st64 (mem s) tf v\<rparr>)" "caller_kept s (s\<lparr>mem := st64 (mem s) tf v\<rparr>)" by simp_all
qed

lemma good_set_result:
  assumes "good_result N s r" "current_process s \<noteq> 0" "tf = p_tf (process_table s (current_process s))"
  shows "good_result N s (set_result tf r)"
proof (cases r)
  case (Inr q)
  then obtain p s' where p: "r = Inr (p, s')" by (cases q) simp
  show ?thesis
  proof (cases p)
    case (Done v)
    then have g: "good N s'" "caller_kept s s'" using assms(1) p by simp_all
    from g(2) assms(2,3) have c: "current_process s' \<noteq> 0" "tf = p_tf (process_table s' (current_process s'))"
      by (simp_all add: caller_kept_def)
    have "live (s'\<lparr>mem := m\<rparr>) = live s'" for m by (simp add: live_def)
    with good_result_write [OF g(1) c, of "scast v"] caller_kept_trans [OF g(2)]
    show ?thesis by (simp add: set_result_def p Done)
  next
    case Switched
    then show ?thesis using assms(1) by (simp add: set_result_def p)
  qed
qed (simp add: set_result_def)

text \<open>The call that the trap frame asks for stays within what the kernel does not check.\<close>

definition call_ok :: "u64 \<Rightarrow> kernel \<Rightarrow> bool" where
  "call_ok tf s \<longleftrightarrow> within_limits s
     \<and> buffers_ok (nat (sint (ld64 (mem s) (tf + 64)))) (ld64 (mem s) (tf + 8)) s"

lemma good_system_call:
  assumes "good N s" "current_process s \<noteq> 0" "tf = p_tf (process_table s (current_process s))" "call_ok tf s"
  shows "good_result N s (system_call tf s)"
proof -
  let ?i = "ld64 (mem s) (tf + 64)" and ?argptr = "ld64 (mem s) (tf + 8)"
  show ?thesis
  proof (cases "sint (ld64 (mem s) tf) < 0 \<or> sint ?i < 0 \<or> 12 < sint ?i")
    case True
    have "good_result N s (kbind (printk (ascii ''INVALID SVC'' @ [10]) [] s) (\<lambda>_ s.
        Inr (Done (), s\<lparr>mem := st64 (mem s) tf (- 1)\<rparr>)))"
    proof (cases "printk (ascii ''INVALID SVC'' @ [10]) [] s")
      case (Inr q)
      then obtain n s1 where s1: "printk (ascii ''INVALID SVC'' @ [10]) [] s = Inr (n, s1)" by (cases q) simp
      then have io: "io_step s s1" by (rule printk_io)
      then have g: "good N s1" using good_io assms(1) by blast
      have c: "current_process s1 \<noteq> 0" "tf = p_tf (process_table s1 (current_process s1))"
        using assms(2,3) by (simp_all add: io_step_fields [OF io])
      have "live (s1\<lparr>mem := m\<rparr>) = live s1" for m by (simp add: live_def)
      with good_result_write [OF g c, of "- 1"] caller_kept_trans [OF io_same_run [OF io]] s1 show ?thesis by simp
    qed simp
    with True show ?thesis by (simp add: system_call_def Let_def)
  next
    case False
    show ?thesis
    proof (cases "system_calls (nat (sint ?i))")
      case None
      then show ?thesis using False by (simp add: system_call_def Let_def)
    next
      case (Some f)
      have "good_result N s (f ?argptr s)"
        using assms(4) Some by (intro good_system_calls [OF assms(1,2)]) (simp_all add: call_ok_def)
      from good_set_result [OF this assms(2,3)] Some False show ?thesis
        by (simp add: system_call_def Let_def)
    qed
  qed
qed

section \<open>Exceptions\<close>

lemma good_wake_up:
  assumes "good N s"
  shows "\<exists>s'. wake_up v s = Inr ((), s') \<and> good N s' \<and> caller_kept s s' \<and> live s' = live s"
proof -
  obtain R W K T ps where inv: "kernel_inv s R W K T ps" "conts_ok s K" "keys_ok (key_buffer s)"
    "length ps + 5 * card (live s) = N" using goodE [OF assms(1)] .
  obtain s' where s': "wake_up v s = Inr ((), s')" "sched_step s s'" "same_cpu s s'"
    "kernel_inv s' (R @ filter (waits_for v s) W) (filter (\<lambda>j. \<not> waits_for v s j) W) K T ps"
    using kernel_wake_up [OF inv(1), of v] by blast
  have c: "current_process s' = current_process s" "conts s' = conts s" using s'(3) by (simp_all add: same_cpu_def)
  have l: "live s' = live s"
    unfolding live_queues [OF kernel_invD(1) [OF inv(1)]] live_queues [OF kernel_invD(1) [OF s'(4)]] c by auto
  moreover have "conts_ok s' K" using inv(2) l by (simp add: conts_ok_def c)
  moreover have "keys_ok (key_buffer s')" using inv(3) sched_step_fields(7) [OF s'(2)] by simp
  ultimately have "good N s'" using inv(4) by (intro goodI [OF s'(4)]) simp_all
  with s'(1) c l sched_others [OF s'(2)] sched_step_fields(13) [OF s'(2)] show ?thesis by (simp add: caller_kept_def)
qed

lemma good_change:
  assumes "good N s"
  shows "good N (s\<lparr>ticks := t\<rparr>)" "good N (s\<lparr>conts := (conts s)(c := To_user)\<rparr>)" "good N (s\<lparr>io_out := os\<rparr>)"
proof -
  obtain R W K T ps where inv: "kernel_inv s R W K T ps" "conts_ok s K" "keys_ok (key_buffer s)"
    "length ps + 5 * card (live s) = N" using goodE [OF assms(1)] .
  have l: "live (s\<lparr>ticks := t\<rparr>) = live s" "live (s\<lparr>conts := f\<rparr>) = live s" for f by (simp_all add: live_def)
  have 1: "kernel_inv (s\<lparr>ticks := t\<rparr>) R W K T ps" using inv(1) by simp
  have "conts_ok (s\<lparr>ticks := t\<rparr>) K" using inv(2) l by (simp add: conts_ok_def)
  from goodI [OF 1 this] show "good N (s\<lparr>ticks := t\<rparr>)" using inv(3,4) l by simp
  have 2: "kernel_inv (s\<lparr>conts := (conts s)(c := To_user)\<rparr>) R W K T ps" using inv(1) by simp
  have "conts_ok (s\<lparr>conts := (conts s)(c := To_user)\<rparr>) K" using inv(2) l by (simp add: conts_ok_def)
  from goodI [OF 2 this] show "good N (s\<lparr>conts := (conts s)(c := To_user)\<rparr>)" using inv(3,4) l by simp
  show "good N (s\<lparr>io_out := os\<rparr>)" using good_io [OF io_stepI(2)] assms by blast
qed

text \<open>Changes that no process can see.\<close>

lemma unseen_run:
  "caller_kept s (s\<lparr>ticks := t\<rparr>)" "caller_kept s (s\<lparr>conts := f\<rparr>)" "caller_kept s (s\<lparr>io_out := os\<rparr>)"
  "caller_kept s (s\<lparr>key_buffer := kb\<rparr>)"
  "live (s\<lparr>ticks := t\<rparr>) = live s" "live (s\<lparr>conts := f\<rparr>) = live s" "live (s\<lparr>io_out := os\<rparr>) = live s"
  "live (s\<lparr>key_buffer := kb\<rparr>) = live s"
  by (simp_all add: caller_kept_def others_kept_same live_def)

lemma caller_kept_run: "caller_kept s s' \<Longrightarrow> live s' = live s \<Longrightarrow> caller_kept s' s'' \<Longrightarrow> caller_kept s s''"
  using caller_kept_trans by blast

lemma good_timer:
  assumes "good N s" "timer_interrupt_handler s = Inr (u, s')"
  shows "good N s'" "caller_kept s s'" "live s' = live s"
proof -
  define s1 where "s1 = snd (read_timer_status s)"
  have io: "io_step s s1" by (simp add: s1_def read_timer_status_def inw_def io_stepI(1))
  then have g1: "good N s1" using good_io assms(1) by blast
  let ?t = "s1\<lparr>ticks := ticks s1 + 1\<rparr>"
  obtain s2 where s2: "wake_up (- 1) ?t = Inr ((), s2)" "good N s2" "caller_kept ?t s2" "live s2 = live ?t"
    using good_wake_up [OF good_change(1) [OF g1]] by blast
  let ?s3 = "set_timer_interval (timer_interval s2) s2"
  have "s' = s1 \<or> s' = ?s3"
    using assms(2) s2(1) by (auto simp: timer_interrupt_handler_def s1_def Let_def split: if_splits prod.splits)
  moreover have "good N ?s3"
    using good_change(3) [OF s2(2)] by (simp add: set_timer_interval_def outw_def)
  moreover have l: "live ?t = live s" using unseen_run(5) io_step_fields(7) [OF io] by simp
  have "caller_kept s ?t" using caller_kept_run [OF io_same_run [OF io] io_step_fields(7) [OF io] unseen_run(1)] .
  from caller_kept_run [OF this l caller_kept_run [OF s2(3,4) unseen_run(3)]]
  have "caller_kept s ?s3" by (simp add: set_timer_interval_def outw_def)
  moreover have "live ?s3 = live s" using s2(4) l by (simp add: set_timer_interval_def outw_def unseen_run(7))
  ultimately show "good N s'" "caller_kept s s'" "live s' = live s"
    using g1 io_same_run [OF io] io_step_fields(7) [OF io] by auto
qed

lemma read_char_io: "read_char s = Inr (c, s') \<Longrightarrow> io_step s s'"
  by (auto simp: read_char_def inw_def split: option.splits intro: io_step_trans [OF poll_io io_stepI(1)])

lemma good_uart:
  assumes "good N s" "uart_interrupt_handler s = Inr (u, s')"
  shows "good N s'" "caller_kept s s'"
proof -
  define s1 where "s1 = snd (inw UART0_MIS s)"
  have io: "io_step s s1" by (simp add: s1_def inw_def io_stepI(1))
  then have g1: "good N s1" using good_io assms(1) by blast
  show "good N s'" "caller_kept s s'"
  proof (atomize (full), cases "s' = s1")
    case True
    then show "good N s' \<and> caller_kept s s'" using g1 io_same_run [OF io] by simp
  next
    case False
    then obtain s5 where s5: "keyboard_handler s1 = Inr ((), s5)" "s' = outw UART0_ICR (push_bit 4 1) s5"
      using assms(2) by (auto simp: uart_interrupt_handler_def s1_def kbind_Inr_iff split: if_splits prod.splits)
    then obtain c s2 s3 where s2: "read_char s1 = Inr (c, s2)" "on_keys (write_key_buffer c) s2 = Inr ((), s3)"
      "wake_up (- 2) s3 = Inr ((), s5)" by (auto simp: keyboard_handler_def kbind_Inr_iff)
    have io2: "io_step s s2" using io_step_trans [OF io read_char_io [OF s2(1)]] .
    then have g2: "good N s2" using good_io assms(1) by blast
    then have "keys_ok (key_buffer s2)" by (simp add: good_def)
    from on_keys_write [OF this, of c] s2(2) obtain kb where kb: "s3 = s2\<lparr>key_buffer := kb\<rparr>" "keys_ok kb" by auto
    have "good N s3" unfolding kb(1) by (rule good_keys [OF g2 kb(2)])
    from good_wake_up [OF this, of "- 2"] s2(3) have s5g: "good N s5" "caller_kept s3 s5" "live s5 = live s3" by auto
    have "good N s'" using good_change(3) [OF s5g(1)] s5(2) by (simp add: outw_def)
    moreover have "caller_kept s s3" unfolding kb(1)
      by (rule caller_kept_run [OF io_same_run [OF io2] io_step_fields(7) [OF io2] unseen_run(4)])
    then have "caller_kept s s'"
      using caller_kept_run [OF _ _ caller_kept_run [OF s5g(2,3) unseen_run(3)]] io_step_fields(7) [OF io2]
      by (simp add: s5(2) outw_def kb(1) unseen_run)
    ultimately show "good N s' \<and> caller_kept s s'" by blast
  qed
qed

lemma kbind_io_good:
  assumes "good N s" "\<And>n s'. r = Inr (n, s') \<Longrightarrow> io_step s s'"
    "\<And>n s'. good N s' \<Longrightarrow> io_step s s' \<Longrightarrow> good_result N s' (f n s')"
  shows "good_result N s (kbind r f)"
proof (cases r)
  case (Inr q)
  then obtain n s' where q: "r = Inr (n, s')" by (cases q) simp
  then have io: "io_step s s'" by (rule assms(2))
  then have "good N s'" using good_io assms(1) by blast
  from good_result_run [OF io_same_run [OF io] io_step_fields(7) [OF io] assms(3) [OF this io]] q show ?thesis by simp
qed simp

lemma good_yield_result: "good N s \<Longrightarrow> good_result N s (yield s)"
  using good_yield [of N s] by (auto simp: good_result_def)

lemma good_spin: "good_result N s (kbind r (\<lambda>_ s. Inl h))"
  by (cases r) auto

lemma good_result_if:
  "good_result N s x \<Longrightarrow> good_result N s y \<Longrightarrow> good_result N s z \<Longrightarrow> good_result N s (if b then x else if c then y else z)"
  by simp

lemma good_user_error:
  assumes "good N s" "current_process s \<noteq> 0"
  shows "good_result N s (kbind (printk f a s) (\<lambda>_ s. kbind (printk g (b s) s) (\<lambda>_ s. kbind (exit s) (\<lambda>_ s. Inr (Switched, s)))))"
proof (rule kbind_io_good [OF assms(1) printk_io])
  fix n s1 assume s1: "good N s1" "io_step s s1"
  show "good_result N s1 (kbind (printk g (b s1) s1) (\<lambda>_ s. kbind (exit s) (\<lambda>_ s. Inr (Switched, s))))"
  proof (rule kbind_io_good [OF s1(1) printk_io])
    fix n s2 assume s2: "good N s2" "io_step s1 s2"
    show "good_result N s2 (kbind (exit s2) (\<lambda>_ s. Inr (Switched, s)))"
      using assms(2) by (intro good_exiting s2(1)) (simp add: io_step_fields(3) [OF s2(2)] io_step_fields(3) [OF s1(2)])
  qed
qed

lemma good_timer_yield:
  assumes "good N s"
  shows "good_result N s (kbind (timer_interrupt_handler s) (\<lambda>_ s. yield s))"
proof (cases "timer_interrupt_handler s")
  case (Inr q)
  then obtain s1 where s1: "timer_interrupt_handler s = Inr ((), s1)" by (cases q) simp
  note g = good_timer [OF assms s1]
  from good_result_run [OF g(2,3) good_yield_result [OF g(1)]] s1 show ?thesis by simp
qed simp

lemma good_uart_return:
  assumes "good N s"
  shows "good_result N s (kbind (uart_interrupt_handler s) (\<lambda>_ s. Inr (Done (), s)))"
proof (cases "uart_interrupt_handler s")
  case (Inr q)
  then obtain s1 where s1: "uart_interrupt_handler s = Inr ((), s1)" by (cases q) simp
  from good_uart [OF assms s1] s1 show ?thesis by simp
qed simp

lemma good_exception:
  assumes "good N s" "ld64 (mem s) (tf + 256) = 2 \<or> current_process s \<noteq> 0 \<and> tf = p_tf (process_table s (current_process s))"
    "ld64 (mem s) (tf + 256) = 3 \<Longrightarrow> call_ok tf s"
  shows "good_result N s (exception_handler tf s)"
proof -
  define n where "n = ld64 (mem s) (tf + 256)"
  consider "n = 1" | "n = 2" | "n = 3" | "n \<noteq> 1" "n \<noteq> 2" "n \<noteq> 3" by blast
  then show ?thesis
  proof cases
    case 1
    then have c: "current_process s \<noteq> 0" using assms(2) n_def by auto
    show ?thesis
      unfolding exception_handler_def n_def [symmetric] Let_def 1
      by (simp only: refl if_True split: if_split) (intro conjI impI good_user_error [OF assms(1) c] good_spin)
  next
    case 2
    define s1 where "s1 = snd (inw CNTP_STATUS_EL0 s)"
    define s2 where "s2 = snd (get_irq_number s1)"
    have io: "io_step s s1" "io_step s s2"
      using io_step_trans by (simp_all add: s1_def s2_def get_irq_number_def inw_def io_stepI(1))
    then have g: "good N s1" "good N s2" using good_io assms(1) by blast+
    have k: "good_result N s r" if "good_result N s' r" "io_step s s'" for s' r
      using good_result_run [OF io_same_run [OF that(2)] io_step_fields(7) [OF that(2)] that(1)] .
    have "\<exists>b c. exception_handler tf s = (if b then kbind (timer_interrupt_handler s1) (\<lambda>_ s. yield s)
        else if c then kbind (uart_interrupt_handler s2) (\<lambda>_ s. Inr (Done (), s))
        else kbind (printk (ascii ''unknown irq '' @ [13, 10]) [] s2) (\<lambda>_ s. Inl Spin))"
      using 2 unfolding exception_handler_def n_def [symmetric] Let_def s1_def s2_def
      by (simp split: prod.split) blast
    then obtain b c where e: "exception_handler tf s = (if b then kbind (timer_interrupt_handler s1) (\<lambda>_ s. yield s)
        else if c then kbind (uart_interrupt_handler s2) (\<lambda>_ s. Inr (Done (), s))
        else kbind (printk (ascii ''unknown irq '' @ [13, 10]) [] s2) (\<lambda>_ s. Inl Spin))" by (elim exE)
    show ?thesis unfolding e
      by (rule good_result_if [OF k [OF good_timer_yield [OF g(1)] io(1)] k [OF good_uart_return [OF g(2)] io(2)] good_spin])
  next
    case 3
    then have c: "current_process s \<noteq> 0" "tf = p_tf (process_table s (current_process s))" "call_ok tf s"
      using assms(2,3) n_def by auto
    have "exception_handler tf s = system_call tf s" using 3 by (simp add: exception_handler_def n_def [symmetric] Let_def)
    with good_system_call [OF assms(1) c] show ?thesis by simp
  next
    case 4
    with good_spin show ?thesis by (simp add: exception_handler_def n_def [symmetric] Let_def)
  qed
qed

text \<open>Going on after a switch.\<close>

lemma good_running_cont:
  assumes "good N s"
  shows "conts s (current_process s) \<noteq> Exited" "current_process s = 0 \<Longrightarrow> conts s (current_process s) = To_user"
proof -
  obtain R W K T ps where inv: "kernel_inv s R W K T ps" "conts_ok s K" using goodE [OF assms] .
  show "conts s (current_process s) = To_user" if "current_process s = 0" using that inv(2) by (simp add: conts_ok_def)
  moreover have "valid_cont (conts s (current_process s))" if "current_process s \<noteq> 0"
    using inv(2) live_running [OF inv(1) that] unfolding conts_ok_def by blast
  ultimately show "conts s (current_process s) \<noteq> Exited" by (cases "current_process s = 0") auto
qed

lemma good_resume:
  assumes "good N s"
  shows "good_result N s (resume s)"
proof -
  let ?c = "current_process s"
  define s1 where "s1 = s\<lparr>conts := (conts s)(?c := To_user)\<rparr>"
  have g: "good N s1" unfolding s1_def by (rule good_change(2) [OF assms])
  have k: "caller_kept s s1" "live s1 = live s" by (simp_all add: s1_def unseen_run)
  have c1: "current_process s1 = ?c" "p_tf (process_table s1 ?c) = p_tf (process_table s ?c)" by (simp_all add: s1_def)
  have sr: "good_result N s1 (set_result (p_tf (process_table s ?c)) r)" if "good_result N s1 r" "?c \<noteq> 0" for r
    using good_set_result [OF that(1)] that(2) c1 by simp
  have nz: "?c \<noteq> 0" if "conts s ?c \<noteq> To_user" using good_running_cont(2) [OF assms] that by blast
  have "good_result N s1 (resume s)"
  proof (cases "conts s ?c")
    case To_user
    then show ?thesis using g by (simp add: resume_def Let_def s1_def)
  next
    case (Sys_sleep old n)
    then have "?c \<noteq> 0" by (intro nz) simp
    with Sys_sleep sr [OF good_sleep_loop [OF g]] show ?thesis by (simp add: resume_def Let_def c1(1) s1_def [symmetric])
  next
    case (Wait_loop pid)
    then have "?c \<noteq> 0" by (intro nz) simp
    with Wait_loop sr [OF good_map_progress [OF good_wait [OF g]]] show ?thesis
      by (simp add: resume_def Let_def c1(1) s1_def [symmetric])
  next
    case (Key_read front)
    then have "?c \<noteq> 0" by (intro nz) simp
    moreover have "good_result N s1 (int_result ucast (on_keys (take_key front) s1))"
      using good_take_key [OF g] by (intro good_int_result) blast
    ultimately show ?thesis using Key_read sr by (simp add: resume_def Let_def s1_def [symmetric])
  next
    case Exited
    then show ?thesis using good_running_cont(1) [OF assms] by simp
  qed
  from good_result_run [OF k(1,2) this] show ?thesis .
qed

section \<open>The machine\<close>

text \<open>
  \<open>program\<close>: the running program changes its page, and the processor saves its registers on top of its
  stack page. \<open>trap\<close>: it traps, or is interrupted. \<open>idle\<close>: the idle process, on the stack it was booted with,
  is interrupted. \<open>go_on\<close>: the kernel goes on where it was switched away from.
\<close>

inductive kernel_step :: "kernel \<Rightarrow> kernel \<Rightarrow> bool" where
  program: "current_process s \<noteq> 0 \<Longrightarrow> conts s (current_process s) = To_user \<Longrightarrow>
    kaddr s 0x400000 2097152 = Some u \<Longrightarrow> q = p_stack (process_table s (current_process s)) \<Longrightarrow>
    (\<And>x. \<not> in_range u 2097152 x \<Longrightarrow> \<not> in_range q 2097152 x \<Longrightarrow> m x = mem s x) \<Longrightarrow>
    kernel_step s (s\<lparr>mem := m\<rparr>)"
| trap: "current_process s \<noteq> 0 \<Longrightarrow> conts s (current_process s) = To_user \<Longrightarrow>
    tf = p_tf (process_table s (current_process s)) \<Longrightarrow> (ld64 (mem s) (tf + 256) = 3 \<longrightarrow> call_ok tf s) \<Longrightarrow>
    exception_handler tf s = Inr (r, s') \<Longrightarrow> kernel_step s s'"
| idle: "current_process s = 0 \<Longrightarrow> (\<And>p x. page_ok (kernel_end s) p \<Longrightarrow> in_range p 2097152 x \<Longrightarrow> m x = mem s x) \<Longrightarrow>
    image_eq (mem s) m \<Longrightarrow> ld64 m (tf + 256) = 2 \<Longrightarrow>
    exception_handler tf (s\<lparr>mem := m\<rparr>) = Inr (r, s') \<Longrightarrow> kernel_step s s'"
| go_on: "conts s (current_process s) \<noteq> To_user \<Longrightarrow> resume s = Inr (r, s') \<Longrightarrow> kernel_step s s'"

inductive_cases kernel_stepE: "kernel_step s s'"

lemma good_program:
  assumes "good N s" "current_process s \<noteq> 0" "kaddr s 0x400000 2097152 = Some u"
    "q = p_stack (process_table s (current_process s))"
    "\<And>x. \<not> in_range u 2097152 x \<Longrightarrow> \<not> in_range q 2097152 x \<Longrightarrow> m x = mem s x"
  shows "good N (s\<lparr>mem := m\<rparr>) \<and> others_kept s (s\<lparr>mem := m\<rparr>)"
proof -
  let ?c = "current_process s"
  obtain R W K T ps where inv: "kernel_inv s R W K T ps"
    "\<forall>s'. kernel_inv s' R W K T ps \<longrightarrow> same_run s s' \<longrightarrow> good N s' \<and> caller_kept s s'"
    using goodE_kept [OF assms(1)] by blast
  have u: "u = user_page (mem s) (T ?c)"
    using resolves_kaddr [OF kernel_user_resolves [OF inv(1) assms(2)], of 0 2097152] assms(3) by simp
  define m1 where "m1 x = (if in_range u 2097152 x then m x else mem s x)" for x
  have w: "user_write s T m1" by (simp add: user_write_def m1_def u)
  note k1 = user_write_inv(1) [OF inv(1) assms(2) w] user_write_run [OF inv(1) assms(2) w]
  let ?s1 = "s\<lparr>mem := m1\<rparr>"
  have "m x = mem ?s1 x" if "\<not> in_range (p_stack (process_table ?s1 (current_process ?s1))) 2097152 x" for x
    using that assms(5) [of x] by (simp add: m1_def assms(4))
  from stack_write_run [OF k1(1) _ this] assms(2)
  have k2: "kernel_inv (?s1\<lparr>mem := m\<rparr>) R W K T ps" "same_run ?s1 (?s1\<lparr>mem := m\<rparr>)" by simp_all
  from inv(2) k2(1) same_run_trans [OF k1(2) k2(2)] show ?thesis by (simp add: caller_kept_def)
qed

lemma boot_stack_write:
  assumes "kernel_inv s R W K T ps"
    "\<And>p x. page_ok (kernel_end s) p \<Longrightarrow> in_range p 2097152 x \<Longrightarrow> m x = mem s x" "image_eq (mem s) m"
  shows "kernel_inv (s\<lparr>mem := m\<rparr>) R W K T ps" "same_run s (s\<lparr>mem := m\<rparr>)"
proof -
  have kp: "keeps_pages {0} s (s\<lparr>mem := m\<rparr>)" using assms(2,3) unfolding keeps_pages_def same_page_def by simp blast
  have z: "0 \<notin> set ps" using heap_pages_ok [OF kernel_invD(7) [OF assms(1)]] page_ok_bounds(4) by blast
  have sp: "0 \<notin> space_pages (mem s) (T i)" if "i \<in> live s" for i
  proof -
    have "addr_space (mem s) (kernel_end s) (p_page_map (process_table s i)) (T i)"
      using kernel_invD(8) [OF assms(1) that] by (simp add: process_ok_def)
    from space_pages_ok [OF this, of 0] show ?thesis using page_ok_bounds(4) by auto
  qed
  then have "\<forall>i \<in> live s. 0 \<notin> ran (T i)" by (auto simp: space_pages_def)
  with kp z show k: "kernel_inv (s\<lparr>mem := m\<rparr>) R W K T ps" by (intro kernel_inv_page_write(1) [OF assms(1)])
  show "same_run s (s\<lparr>mem := m\<rparr>)"
    using keeps_space [OF assms(1) _ kp] sp by (intro same_run_mem others_kept_pages [OF assms(1) k]) fastforce
qed

lemma good_kernel_step:
  assumes "kernel_step s s'" "good N s"
  shows "good N s'" "others_kept s s'"
proof -
  from assms have "good N s' \<and> others_kept s s'"
  proof induction
    case (program s u q m)
    then show ?case using good_program by blast
  next
    case (trap s tf r s')
    then have "good_result N s (exception_handler tf s)" by (intro good_exception) auto
    with trap show ?case by (simp add: good_result_def)
  next
    case (idle s m tf r s')
    obtain R W K T ps where inv: "kernel_inv s R W K T ps"
      "\<forall>s'. kernel_inv s' R W K T ps \<longrightarrow> same_run s s' \<longrightarrow> good N s' \<and> caller_kept s s'"
      using goodE_kept [OF idle.prems] by blast
    note b = boot_stack_write [OF inv(1) idle.hyps(2,3)]
    then have g: "good N (s\<lparr>mem := m\<rparr>)" "caller_kept s (s\<lparr>mem := m\<rparr>)" using inv(2) by simp_all
    then have "good_result N (s\<lparr>mem := m\<rparr>) (exception_handler tf (s\<lparr>mem := m\<rparr>))"
      using idle.hyps(4) by (intro good_exception) auto
    moreover have "live (s\<lparr>mem := m\<rparr>) = live s" by (simp add: live_def)
    ultimately have "good_result N s (exception_handler tf (s\<lparr>mem := m\<rparr>))" using good_result_run g(2) by blast
    with idle.hyps(5) show ?case by (simp add: good_result_def)
  next
    case (go_on s r s')
    with good_resume [of N s] show ?case by (simp add: good_result_def)
  qed
  then show "good N s'" "others_kept s s'" by simp_all
qed

lemma good_reachable: "kernel_step\<^sup>*\<^sup>* s s' \<Longrightarrow> good N s \<Longrightarrow> good N s'"
  by (induction rule: rtranclp_induct) (auto intro: good_kernel_step(1))

text \<open>The state after boot.\<close>

lemma good_boot:
  assumes "powered_on s e cl" "kernel_main s = Inr ((), s3)"
  shows "good (card {p. page_ok (kernel_end s) p} - 2) s3" "2 \<le> card {p. page_ok (kernel_end s) p}"
proof -
  obtain S ps where b: "kernel_inv s3 [1] [] [] (\<lambda>i. if i = 1 then S else Map.empty) ps" "current_process s3 = 0"
    "length ps + 7 = card {p. page_ok (kernel_end s) p}" "conts s3 = (conts s)(1 := To_user)" "key_buffer s3 = key_buffer s"
    using kernel_main_runs [OF assms(1), of "\<lambda>_. Map.empty"] assms(2) by (elim exE) auto
  have l: "live s3 = {1}" using live_queues [OF kernel_invD(1) [OF b(1)]] b(2) by simp
  note on = assms(1) [unfolded powered_on_def]
  have "conts_ok s3 []" using on by (simp add: conts_ok_def b(4) l)
  moreover have "keys_ok (key_buffer s3)" using on by (simp add: keys_ok_def b(5))
  ultimately show "good (card {p. page_ok (kernel_end s) p} - 2) s3" using b(3) l by (intro goodI [OF b(1)]) simp_all
  show "2 \<le> card {p. page_ok (kernel_end s) p}" using b(3) by simp
qed

section \<open>Properties\<close>


text \<open>A machine whose registers all read 6: the timer has fired.\<close>

definition ticking_machine :: kernel where
  "ticking_machine = sample_machine\<lparr>io_in := (\<lambda>_ _. 6)\<rparr>"

lemma ticking_powered_on: "powered_on ticking_machine 0 [2, 3]"
  using sample_powered_on by (simp add: powered_on_def ticking_machine_def loadable_def) (auto simp: ready_def)

text \<open>The interrupt finds the idle process on the boot stack below 0x80000 and hands over to process 1.\<close>

lemma ticking_interrupt:
  assumes "kernel_inv s [1] [] [] T ps" "current_process s = 0" "io_in s = (\<lambda>_ _. 6)"
  shows "\<exists>s'. kernel_step s s' \<and> current_process s' = 1"
proof -
  define m where "m = st64 (mem s) 0x7ff00 2"
  have low: "(0x7ff00::u64) + of_nat i < KERNEL_BASE" if "i < 8" for i
    using that by (simp add: word_less_nat_alt word_arith)
  have out: "m x = mem s x" if "KERNEL_BASE \<le> x" for x
    unfolding m_def using that low by (intro wr_other) (metis not_le)
  have page: "m x = mem s x" if "page_ok (kernel_end s) p" "in_range p 2097152 x" for p x
  proof (rule out)
    have "unat p \<le> unat x" using that page_ok_bounds(2) [OF that(1)] by (simp add: in_range_iff)
    with page_ok_bounds(1) [OF that(1)] show "KERNEL_BASE \<le> x" by (simp add: word_le_nat_alt)
  qed
  have "KERNEL_BASE \<le> FS_BASE" by (simp add: FS_BASE_def P2V_def KERNEL_BASE_def)
  then have img: "image_eq (mem s) m" unfolding image_eq_def using out order_trans by blast
  let ?s = "s\<lparr>mem := m\<rparr>"
  define s1 where "s1 = snd (inw CNTP_STATUS_EL0 ?s)"
  have s1: "s1 = s\<lparr>mem := m, io_n := (io_n s)(CNTP_STATUS_EL0 := Suc (io_n s CNTP_STATUS_EL0))\<rparr>"
    by (simp add: s1_def inw_def)
  have "kernel_inv ?s [1] [] [] T ps" by (rule boot_stack_write(1) [OF assms(1) page img])
  then have k1: "kernel_inv s1 [1] [] [] T ps" unfolding s1 by simp
  obtain s2 where s2: "timer_interrupt_handler s1 = Inr ((), s2)" "current_process s2 = 0" "kernel_inv s2 [1] [] [] T ps"
    using timer_handler_runs [OF k1] assms(2,3) by (auto simp: s1)
  obtain s3 where s3: "yield s2 = Inr (Switched, s3)" "switched To_user s2 [1] s3"
    using kernel_yield_switch [OF s2(3)] by auto
  have "exception_handler (0x7ff00 - 256) ?s = Inr (Switched, s3)"
    using s2(1) s3(1) assms(3) by (simp add: exception_handler_def m_def [symmetric] Let_def s1_def inw_def) (simp add: m_def)
  then have "kernel_step s s3"
    by (intro kernel_step.idle [where tf = "0x7ff00 - 256", OF assms(2) page img]) (simp_all add: m_def)
  moreover have "current_process s3 = 1" using s3(2) by (simp add: switched_def next_process_def)
  ultimately show ?thesis by blast
qed

text \<open>The booted machine of the examples and its first interrupt.\<close>

lemma first_interrupt:
  "\<exists>s3 s4. kernel_main ticking_machine = Inr ((), s3) \<and> current_process s3 = 0 \<and> kernel_step s3 s4 \<and> current_process s4 = 1
     \<and> 1 \<in> live s3 \<and> 1 \<in> live s4"
proof -
  obtain s3 S ps where b: "kernel_main ticking_machine = Inr ((), s3)"
    "kernel_inv s3 [1] [] [] (\<lambda>i. if i = 1 then S else Map.empty) ps"
    "current_process s3 = 0" "io_in s3 = io_in ticking_machine"
    using kernel_main_runs [OF ticking_powered_on, of "\<lambda>_. Map.empty"] by blast
  obtain s4 where s4: "kernel_step s3 s4" "current_process s4 = 1"
    using ticking_interrupt [OF b(2,3)] b(4) by (auto simp: ticking_machine_def)
  obtain R W K T ps' where "kernel_inv s4 R W K T ps'"
    using goodE [OF good_kernel_step(1) [OF s4(1) good_boot(1) [OF ticking_powered_on b(1)]]] .
  then have "1 \<in> live s4" using live_running(1) s4(2) by (metis one_neq_zero)
  moreover have "1 \<in> live s3" using live_queues [OF kernel_invD(1) [OF b(2)]] by simp
  ultimately show ?thesis using b(1,3) s4 by blast
qed




lemma system_calls_full: "k \<le> 12 \<Longrightarrow> \<exists>f. system_calls k = Some f"
proof -
  assume "k \<le> 12"
  then have "k \<in> set [0..<13]" by simp
  moreover have "\<forall>k \<in> set [0..<13]. \<exists>f. system_calls k = Some f" by (simp add: upt_rec system_calls_def)
  ultimately show ?thesis by blast
qed

text \<open>
  Property C11: \<open>system_call\<close> dispatches on \<open>x8\<close>. A negative argument count, a negative number or one above 12
  prints a message and gives -1, touching nothing else; every other number has an entry in the table, so
  no null pointer is called, and what the entry gives goes to \<open>x0\<close>, sign extended, unless the call
  switched to another process or failed.
\<close>

theorem system_call_dispatch:
  fixes tf :: u64 and s :: kernel
  assumes "ready UART0_FR 5 s"
  defines "i \<equiv> ld64 (mem s) (tf + 64)" and "argptr \<equiv> ld64 (mem s) (tf + 8)"
  shows "if sint (ld64 (mem s) tf) < 0 \<or> sint i < 0 \<or> 12 < sint i
    then \<exists>s1. sent (ascii ''INVALID SVC'' @ [10]) s s1
      \<and> system_call tf s = Inr (Done (), s1\<lparr>mem := st64 (mem s) tf (- 1)\<rparr>)
    else \<exists>f. system_calls (nat (sint i)) = Some f \<and> system_call tf s = (case f argptr s of
        Inl h \<Rightarrow> Inl h
      | Inr (Switched, s') \<Rightarrow> Inr (Switched, s')
      | Inr (Done v, s') \<Rightarrow> Inr (Done (), s'\<lparr>mem := st64 (mem s') tf (scast v)\<rparr>))"
proof (cases "sint (ld64 (mem s) tf) < 0 \<or> sint i < 0 \<or> 12 < sint i")
  case True
  have r: "render (ascii ''INVALID SVC'' @ [10]) [] = Some (ascii ''INVALID SVC'' @ [10])" by (simp add: ascii_def)
  have "length (ascii ''INVALID SVC'' @ [10]) \<le> 1024" by (simp add: ascii_def)
  with r printk_renders [OF assms(1), of "ascii ''INVALID SVC'' @ [10]" "[]"] obtain s1 k where
    s1: "printk (ascii ''INVALID SVC'' @ [10]) [] s = Inr (k, s1)" "sent (ascii ''INVALID SVC'' @ [10]) s s1"
    by (auto simp: r split: if_splits)
  from s1(2) have "mem s1 = mem s" by (auto simp: sent_def)
  with s1 True show ?thesis unfolding i_def by (auto simp: system_call_def Let_def)
next
  case False
  then have "nat (sint i) \<le> 12" by linarith
  then obtain f where f: "system_calls (nat (sint i)) = Some f" using system_calls_full by blast
  have "system_call tf s = set_result tf (f argptr s)"
    using False f by (simp add: system_call_def Let_def i_def argptr_def)
  with False f show ?thesis
    by (auto simp: set_result_def kbind_def split: sum.split prod.split progress.split)
qed

text \<open>A process asks for call 42, and for its process id.\<close>

lemma system_call_dispatch_witness:
  "(\<exists>s1. system_call 0x1000 (sample_kernel\<lparr>mem := st64 (\<lambda>_. 0) 0x1040 42\<rparr>) = Inr (Done (), s1)
     \<and> ld64 (mem s1) 0x1000 = - 1)
   \<and> (\<exists>s1. system_call 0x1000 (sample_kernel\<lparr>mem := st64 (\<lambda>_. 0) 0x1040 9\<rparr>) = Inr (Done (), s1)
     \<and> ld64 (mem s1) 0x1000 = 1)"
proof -
  let ?s = "\<lambda>v. sample_kernel\<lparr>mem := st64 (\<lambda>_. 0) 0x1040 v\<rparr>"
  have ready: "ready UART0_FR 5 (?s v)" for v by (auto simp: ready_def sample_kernel_def)
  have x0: "ld64 (st64 (\<lambda>_. 0) 0x1040 v) 0x1000 = 0" for v
    by (subst rd_wr_apart) (simp_all add: apart_def rd_zero)
  have "\<exists>s1. system_call 0x1000 (?s 42) = Inr (Done (), s1) \<and> ld64 (mem s1) 0x1000 = - 1"
    using system_call_dispatch [OF ready, of 42 "0x1000"] x0 by auto
  moreover have "p_pid (process_table (?s 9) (current_process (?s 9))) = 1"
    by (simp add: sample_kernel_def sample_table_def)
  then have "\<exists>s1. system_call 0x1000 (?s 9) = Inr (Done (), s1) \<and> ld64 (mem s1) 0x1000 = 1"
    using system_call_dispatch [OF ready, of 9 "0x1000"] x0 by (auto simp: system_calls_def sys_getpid_def)
  ultimately show ?thesis by blast
qed

text \<open>
  Property C22: a process that calls \<open>sleep\<close> for \<open>n\<close> ticks at tick \<open>t0\<close> returns at once when \<open>n\<close> is 0, and else
  waits for the next tick. Whenever it runs again it goes back to waiting as long as fewer than \<open>n\<close> ticks have
  passed, so nothing that wakes the sleepers early lets it return early, and returns 0 to its program
  the first time it runs after that. The difference of the counters wraps, so the clock may overflow.
\<close>

theorem sleep_lasts_its_ticks:
  assumes "kernel_inv s R W K T ps" "current_process s = c" "c \<noteq> 0"
  shows "(\<forall>n. argument argptr 0 s = Inr (n, s) \<longrightarrow> (if n = 0 then sys_sleep argptr s = Inr (Done 0, s)
      else \<exists>s'. sys_sleep argptr s = Inr (Switched, s') \<and> conts s' c = Sys_sleep (ticks s) n \<and> waits_for (- 1) s' c
        \<and> kernel_inv s' (tl R) (W @ [c]) K T ps))
    \<and> (\<forall>t0 n. conts s c = Sys_sleep t0 n \<longrightarrow> (if unat (ticks s - t0) < unat n
      then \<exists>s'. resume s = Inr (Switched, s') \<and> conts s' c = Sys_sleep t0 n \<and> waits_for (- 1) s' c
        \<and> kernel_inv s' (tl R) (W @ [c]) K T ps
      else \<exists>s'. resume s = Inr (Done (), s') \<and> kernel_inv s' R W K T ps \<and> current_process s' = c \<and> conts s' c = To_user
        \<and> mem s' = st64 (mem s) (p_tf (process_table s c)) 0))"
proof -
  have sl: "\<exists>s'. kbind (sleep (- 1) (Sys_sleep t n) s1) (\<lambda>_ s. Inr (Switched :: i32 progress, s)) = Inr (Switched, s')
      \<and> conts s' c = Sys_sleep t n \<and> waits_for (- 1) s' c \<and> kernel_inv s' (tl R) (W @ [c]) K T ps"
    if "kernel_inv s1 R W K T ps" "current_process s1 = c" for s1 t n
    using kernel_sleep [OF that(1), of "- 1" "Sys_sleep t n"] that(2) assms(3) by (auto simp: switched_def)
  have call: "if n = 0 then sys_sleep argptr s = Inr (Done 0, s)
      else \<exists>s'. sys_sleep argptr s = Inr (Switched, s') \<and> conts s' c = Sys_sleep (ticks s) n \<and> waits_for (- 1) s' c
        \<and> kernel_inv s' (tl R) (W @ [c]) K T ps"
    if "argument argptr 0 s = Inr (n, s)" for n
    using that sl [OF assms(1,2), of "ticks s" n]
    by (simp add: sys_sleep_def sleep_loop_def get_ticks_def word_neq_0_conv)
  have again: "if unat (ticks s - t0) < unat n
      then \<exists>s'. resume s = Inr (Switched, s') \<and> conts s' c = Sys_sleep t0 n \<and> waits_for (- 1) s' c
        \<and> kernel_inv s' (tl R) (W @ [c]) K T ps
      else \<exists>s'. resume s = Inr (Done (), s') \<and> kernel_inv s' R W K T ps \<and> current_process s' = c \<and> conts s' c = To_user
        \<and> mem s' = st64 (mem s) (p_tf (process_table s c)) 0"
    if k: "conts s c = Sys_sleep t0 n" for t0 n
  proof -
    let ?s = "s\<lparr>conts := (conts s)(c := To_user)\<rparr>"
    have i: "kernel_inv ?s R W K T ps" using assms(1) by simp
    have r: "resume s = set_result (p_tf (process_table s c)) (sleep_loop t0 n ?s)"
      using k assms(2) by (simp add: resume_def Let_def)
    show ?thesis
    proof (cases "ticks s - t0 < n")
      case True
      then show ?thesis using sl [OF i, of t0 n] assms(2)
        by (auto simp: r sleep_loop_def get_ticks_def set_result_def word_less_nat_alt kbind_Inr_iff)
    next
      case False
      have "kernel_inv (?s\<lparr>mem := st64 (mem ?s) (p_tf (process_table s c)) 0\<rparr>) R W K T ps"
        by (rule trap_frame_write [OF i, of c]) (use live_running(1) [OF i] assms(2,3) in simp_all)
      with False assms(2) show ?thesis by (simp add: r sleep_loop_def get_ticks_def set_result_def word_less_nat_alt)
    qed
  qed
  from call again show ?thesis by blast
qed

text \<open>The first process sleeps for one tick and is still asleep when it is woken without one.\<close>

lemma sleep_lasts_its_ticks_witness:
  "\<exists>s s' s''. current_process s = 1 \<and> conts s 1 = Sys_sleep (ticks s) 1 \<and> resume s = Inr (Switched, s')
     \<and> resume (s\<lparr>ticks := ticks s + 1\<rparr>) = Inr (Done (), s'') \<and> current_process s'' = 1"
proof -
  obtain s0 T ps where r: "running s0 T ps" using sample_running by blast
  define s where "s = s0\<lparr>conts := (conts s0)(1 := Sys_sleep (ticks s0) 1)\<rparr>"
  have s: "kernel_inv s [] [] [] T ps" "current_process s = 1" "conts s 1 = Sys_sleep (ticks s) 1"
    using r by (simp_all add: s_def running_def)
  then have i: "kernel_inv (s\<lparr>ticks := ticks s + 1\<rparr>) [] [] [] T ps" by simp
  have "\<exists>s'. resume s = Inr (Switched, s')"
    using sleep_lasts_its_ticks [OF s(1,2), of 0] s(3) by auto
  moreover have "\<exists>s''. resume (s\<lparr>ticks := ticks s + 1\<rparr>) = Inr (Done (), s'') \<and> current_process s'' = 1"
    using sleep_lasts_its_ticks [OF i, of 1 0] s(2,3) by auto
  ultimately show ?thesis using s(2,3) by blast
qed

end
