(* ===== verification/User.thy ===== *)
theory User
  imports Console FatRead
begin

text \<open>
  The programs that run on the kernel: \<open>printf\<close> of user/lib/print.c, \<open>all_caps_char\<close> of user/lib/utils.c,
  the shell of user/console/console.c with its line editor, user/ls/ls.c, user/test/test.c, the first program
  user/mainp.c, and user/startup.s, which runs each of them. A program is modelled by the system calls it makes.
  The line editor is proved equal to one on lists, and what it echoes to show the line on a terminal.
\<close>

section \<open>Programs and system calls\<close>

text \<open>
  The wrappers of user/lib/syscall.s, with the strings they are given instead of the addresses. The
  answers of the kernel are arbitrary: \<open>keys\<close> are the characters that \<open>keyboard_read\<close> returns one after the
  other, \<open>answers\<close> what \<open>x0\<close> holds after the other calls, by their position in \<open>calls\<close>, and \<open>listing\<close> the
  entries that \<open>read_root_directory\<close> copies to the buffer.
\<close>

datatype call = Writeu "u8 list" | Exitu | Waitu i32 | Open_file "u8 list" | Close_file i32 | Forku | Getpid
  | Execu "u8 list" | Read_root_directory

record program =
  keys :: "nat \<Rightarrow> u8"
  keys_read :: nat
  answers :: "nat \<Rightarrow> u64"
  listing :: "nat \<Rightarrow> DirEntry"
  calls :: "call list"

definition keyboard_read :: "program \<Rightarrow> u8 \<times> program" where
  "keyboard_read p = (keys p (keys_read p), p\<lparr>keys_read := Suc (keys_read p)\<rparr>)"

definition svc :: "call \<Rightarrow> program \<Rightarrow> (i32, program) outcome" where
  "svc c p = Inr (ucast (answers p (length (calls p))), p\<lparr>calls := calls p @ [c]\<rparr>)"

text \<open>\<open>exit\<close> and \<open>exec\<close> do not come back, whether \<open>exec\<close> finds its file or not.\<close>

datatype 'a user = Back 'a | Gone

definition ubind :: "('a user, program) outcome \<Rightarrow> ('a \<Rightarrow> program \<Rightarrow> ('b user, program) outcome) \<Rightarrow> ('b user, program) outcome"
  where "ubind r f = kbind r (\<lambda>u p. case u of Back x \<Rightarrow> f x p | Gone \<Rightarrow> Inr (Gone, p))"

lemma ubind_simps [simp]:
  "ubind (Inl h) f = Inl h" "ubind (Inr (Back x, p)) f = f x p" "ubind (Inr (Gone, p)) f = Inr (Gone, p)"
  by (simp_all add: ubind_def)

definition leave :: "call \<Rightarrow> program \<Rightarrow> ('a user, program) outcome" where
  "leave c p = kbind (svc c p) (\<lambda>_ p. Inr (Gone, p))"

definition printf :: "u8 list \<Rightarrow> va list \<Rightarrow> program \<Rightarrow> (nat, program) outcome" where
  "printf format args p = (case printk_loop format args 0 (\<lambda>_. 0) of
     Inl h \<Rightarrow> Inl h
   | Inr (buffer_size, buffer) \<Rightarrow> kbind (svc (Writeu (map buffer [0..<buffer_size])) p) (\<lambda>_ p. Inr (buffer_size, p)))"

text \<open>\<open>start\<close> of startup.s runs \<open>main\<close> and exits.\<close>

definition start :: "(program \<Rightarrow> (unit user, program) outcome) \<Rightarrow> program \<Rightarrow> (unit user, program) outcome" where
  "start main p = ubind (main p) (\<lambda>_. leave Exitu)"

section \<open>The line editor\<close>

text \<open>Bytes of an array, and the string that starts there.\<close>

definition store :: "nat \<Rightarrow> nat \<Rightarrow> u8 \<Rightarrow> text_buffer \<Rightarrow> (unit, text_buffer) outcome" where
  "store n i c b = (if i < n then Inr ((), b(i := c)) else Inl Out_of_bounds)"

definition c_string :: "u8 list \<Rightarrow> u8 list" where
  "c_string = takeWhile (\<lambda>c. c \<noteq> 0)"

abbreviation print_string :: "u8 list \<Rightarrow> program \<Rightarrow> (nat, program) outcome" where
  "print_string t \<equiv> printf (ascii ''%s'') [Text (c_string t)]"

text \<open>
  The loop of \<open>read_cmd\<close> on its array \<open>ch[4]\<close>, the caller's \<open>buffer[100]\<close> and \<open>buffer_size\<close>. \<open>None\<close>: it waits
  for keys for ever.
\<close>

partial_function (option) read_cmd_loop ::
    "u8 list \<Rightarrow> text_buffer \<Rightarrow> nat \<Rightarrow> program \<Rightarrow> (nat \<times> text_buffer, program) outcome option" where
  "read_cmd_loop ch b n p = (let (k, p) = keyboard_read p; ch = ch[0 := k] in
     if k = 13 \<or> 80 < n then
       let ch = if k = 13 then ch[0 := 13, 1 := 10] else ch
       in Some (kbind (print_string ch p) (\<lambda>_ p. Inr ((n, b), p)))
     else if k = 127 then
       if 0 < n then
         (case store 100 (n - 1) 0 b of
           Inl h \<Rightarrow> Some (Inl h)
         | Inr (_, b) \<Rightarrow>
             let ch = ch[0 := 8, 1 := 32, 2 := 8] in
             (case print_string ch p of
               Inl h \<Rightarrow> Some (Inl h)
             | Inr (_, p) \<Rightarrow> read_cmd_loop (ch[1 := 0, 2 := 0]) b (n - 1) p))
       else read_cmd_loop ch b n p
     else
       (case store 100 n k b of
         Inl h \<Rightarrow> Some (Inl h)
       | Inr (_, b) \<Rightarrow>
           (case print_string ch p of
             Inl h \<Rightarrow> Some (Inl h)
           | Inr (_, p) \<Rightarrow> read_cmd_loop ch b (n + 1) p)))"

definition read_cmd :: "text_buffer \<Rightarrow> program \<Rightarrow> (nat \<times> text_buffer, program) outcome option" where
  "read_cmd b p = read_cmd_loop [0, 0, 0, 0] b 0 p"

section \<open>The shell\<close>

text \<open>\<open>all_caps_char\<close> on the 100 bytes it is called with.\<close>

definition cap :: "u8 \<Rightarrow> u8" where
  "cap c = (if 0x61 \<le> c \<and> c \<le> 0x7a then c - 32 else c)"

function all_caps_char :: "nat \<Rightarrow> text_buffer \<Rightarrow> (unit, text_buffer) outcome" where
  "all_caps_char i b =
     (if 100 \<le> i then Inl Out_of_bounds
      else if b i = 0 then Inr ((), b) else all_caps_char (Suc i) (b(i := cap (b i))))"
  by auto
termination by (relation "measure (\<lambda>(i, b). 100 - i)") auto

declare all_caps_char.simps [simp del]

abbreviation array_string :: "text_buffer \<Rightarrow> u8 list" where
  "array_string b \<equiv> c_string (map b [0..<100])"

text \<open>One round of the loop in \<open>main\<close>.\<close>

definition shell_round :: "program \<Rightarrow> (unit user, program) outcome option" where
  "shell_round p = (case printf (ascii ''shell# '') [] p of
     Inl h \<Rightarrow> Some (Inl h)
   | Inr (_, p) \<Rightarrow> (case read_cmd (\<lambda>_. 0) p of
       None \<Rightarrow> None
     | Some r \<Rightarrow> Some (kbind r (\<lambda>(n, b) p.
         if n = 0 then Inr (Back (), p)
         else case all_caps_char 0 b of
           Inl h \<Rightarrow> Inl h
         | Inr (_, b) \<Rightarrow>
             kbind (svc (Open_file (array_string b)) p) (\<lambda>fd p.
             if fd = - 1 then kbind (printf (ascii ''No Such file'' @ [13, 10]) [] p) (\<lambda>_ p. Inr (Back (), p))
             else
               kbind (svc (Close_file fd) p) (\<lambda>_ p.
               kbind (svc Forku p) (\<lambda>pid p.
               if pid = 0 then leave (Execu (array_string b)) p
               else kbind (svc (Waitu pid) p) (\<lambda>_ p. Inr (Back (), p)))))))))"

text \<open>The first \<open>n\<close> rounds.\<close>

primrec shell :: "nat \<Rightarrow> program \<Rightarrow> (unit user, program) outcome option" where
  "shell 0 p = Some (Inr (Back (), p))"
| "shell (Suc n) p = (case shell_round p of
     None \<Rightarrow> None
   | Some (Inl h) \<Rightarrow> Some (Inl h)
   | Some (Inr (Gone, p)) \<Rightarrow> Some (Inr (Gone, p))
   | Some (Inr (Back _, p)) \<Rightarrow> shell n p)"

section \<open>The other programs\<close>

text \<open>The first program, user/mainp.c.\<close>

definition init_main :: "program \<Rightarrow> (unit user, program) outcome" where
  "init_main p = kbind (svc Forku p) (\<lambda>pid p.
     if pid = 0 then leave (Execu (ascii ''CONSOLE.BIN'')) p
     else kbind (svc (Waitu pid) p) (\<lambda>_ p. Inr (Back (), p)))"

definition test_main :: "program \<Rightarrow> (unit user, program) outcome" where
  "test_main p = kbind (svc Getpid p) (\<lambda>pid p.
     kbind (printf (ascii ''This is a test exec program PID:%d'' @ [10]) [Num (scast pid)] p) (\<lambda>_ p. Inr (Back (), p)))"

text \<open>
  \<open>ls\<close> has room for 1024 entries; the kernel copies as many as the volume has. \<open>name\<close> is the array
  \<open>name[10]\<close>, of which the last two bytes stay 0.
\<close>

definition ls_entry :: "nat \<Rightarrow> u8 list \<times> program \<Rightarrow> (u8 list, program) outcome" where
  "ls_entry i = (\<lambda>(nm, p). if 1024 \<le> i then Inl Out_of_bounds else
     let e = listing p i in
     if name e ! 0 = 0 \<or> name e ! 0 = 0xe5 \<or> attributes e = 0xf \<or> attributes e = 8 then Inr (nm, p)
     else
       let nm = take 8 (name e) @ drop 8 nm in
       if attributes e AND 0x10 = 0x10
       then kbind (printf (ascii ''%s      YES          %ub'' @ [13, 10]) [Text (c_string nm), Num (ucast (dir_file_size e))] p)
         (\<lambda>_ p. Inr (nm, p))
       else kbind (printf (ascii ''%s      NO           %ub'' @ [13, 10]) [Text (c_string nm), Num (ucast (dir_file_size e))] p)
         (\<lambda>_ p. Inr (nm, p)))"

primrec ls_loop :: "nat \<Rightarrow> nat \<Rightarrow> u8 list \<Rightarrow> program \<Rightarrow> (unit user, program) outcome" where
  "ls_loop 0 i nm p = Inr (Back (), p)"
| "ls_loop (Suc k) i nm p = kbind (ls_entry i (nm, p)) (\<lambda>nm. ls_loop k (Suc i) nm)"

definition ls_main :: "program \<Rightarrow> (unit user, program) outcome" where
  "ls_main p = kbind (svc Read_root_directory p) (\<lambda>count p.
     if count \<noteq> 0 then
       kbind (printf ([13, 10] @ ascii ''NAME          DIR          FILE SIZE '' @ [13, 10]) [] p) (\<lambda>_ p.
       kbind (printf (ascii ''-------------------------------------------'' @ [13, 10]) [] p) (\<lambda>_ p.
       ls_loop (nat (sint count)) 0 (replicate 10 0) p))
     else Inr (Back (), p))"

section \<open>Printing\<close>

abbreviation called :: "call list \<Rightarrow> program \<Rightarrow> program" where
  "called cs p \<equiv> p\<lparr>calls := calls p @ cs\<rparr>"

lemma printf_renders:
  "printf fmt args p = (case render fmt args of
     Some t \<Rightarrow> if length t \<le> 1024 then Inr (length t, called [Writeu t] p) else Inl Out_of_bounds
   | None \<Rightarrow> Inl Out_of_bounds)"
proof -
  have "map (spliced (\<lambda>_. 0) 0 t) [0..<length t] = t" for t using map_spliced [of "\<lambda>_. 0" 0 t] by simp
  then show ?thesis
    by (simp add: printf_def printk_loop_renders rendered_def svc_def split: option.split)
qed

lemma printf_text: "percent \<notin> set t \<Longrightarrow> length t \<le> 1024 \<Longrightarrow> printf t [] p = Inr (length t, called [Writeu t] p)"
  by (simp add: printf_renders render_text)

lemma printf_string: "length t \<le> 1024 \<Longrightarrow> printf (ascii ''%s'') [Text t] p = Inr (length t, called [Writeu t] p)"
  by (simp add: printf_renders ascii_def)

lemma c_string_simps [simp]: "c_string [] = []" "c_string (0 # cs) = []" "c \<noteq> 0 \<Longrightarrow> c_string (c # cs) = c # c_string cs"
  by (simp_all add: c_string_def)

lemma length_c_string: "length (c_string t) \<le> length t"
  by (simp add: c_string_def length_takeWhile_le)

section \<open>A line editor on lists\<close>

text \<open>
  The line before the first key, the keys; then the line that is entered, the texts that are echoed, and
  how many of the keys were used, or \<open>None\<close> when the line is still open after all of them.
\<close>

fun edit :: "u8 list \<Rightarrow> u8 list \<Rightarrow> (u8 list \<times> u8 list list \<times> nat) option" where
  "edit line [] = None"
| "edit line (k # ks) =
     (if k = 13 then Some (line, [[13, 10]], 1)
      else if 80 < length line then Some (line, [c_string [k]], 1)
      else if k = 127 \<and> line = [] then map_option (\<lambda>(l, es, n). (l, es, Suc n)) (edit line ks)
      else if k = 127 then map_option (\<lambda>(l, es, n). (l, [8, 32, 8] # es, Suc n)) (edit (butlast line) ks)
      else map_option (\<lambda>(l, es, n). (l, c_string [k] # es, Suc n)) (edit (line @ [k]) ks))"

text \<open>The next \<open>n\<close> keys.\<close>

definition typed :: "program \<Rightarrow> nat \<Rightarrow> u8 list" where
  "typed p n = map (\<lambda>i. keys p (keys_read p + i)) [0..<n]"

lemma typed_Suc: "typed p (Suc n) = keys p (keys_read p) # typed (p\<lparr>keys_read := Suc (keys_read p)\<rparr>) n"
  by (simp add: typed_def upt_conv_Cons map_Suc_upt [symmetric] del: upt_Suc)

lemma typed_called [simp]: "typed (called cs p) n = typed p n"
  by (simp add: typed_def)

text \<open>The buffer holds the line, and zeros after it.\<close>

definition line_in :: "u8 list \<Rightarrow> text_buffer \<Rightarrow> bool" where
  "line_in l b \<longleftrightarrow> length l \<le> 81 \<and> (\<forall>i. b i = (if i < length l then l ! i else 0))"

lemma line_in_bytes: "line_in l b \<Longrightarrow> map b [0..<100] = l @ replicate (100 - length l) 0"
  by (rule nth_equalityI) (auto simp: line_in_def nth_append)

lemma line_in_snoc: "line_in l b \<Longrightarrow> length l \<le> 80 \<Longrightarrow> line_in (l @ [k]) (b(length l := k))"
  by (auto simp: line_in_def nth_append)

lemma line_in_butlast: "line_in l b \<Longrightarrow> l \<noteq> [] \<Longrightarrow> line_in (butlast l) (b(length l - 1 := 0))"
  by (auto simp: line_in_def nth_butlast)

lemma read_cmd_edits:
  assumes "edit l (typed p n) = Some (l', es, m)" "line_in l b"
  shows "\<exists>b'. read_cmd_loop [x, 0, 0, 0] b (length l) p
       = Some (Inr ((length l', b'), (called (map Writeu es) p)\<lparr>keys_read := keys_read p + m\<rparr>)) \<and> line_in l' b'"
  using assms
proof (induction n arbitrary: l p es m b x)
  case 0
  then show ?case by (simp add: typed_def)
next
  case (Suc n)
  let ?k = "keys p (keys_read p)"
  let ?p = "p\<lparr>keys_read := Suc (keys_read p)\<rparr>"
  note loop = read_cmd_loop.simps [of "[x, 0, 0, 0]" b "length l" p]
  have e: "edit l (?k # typed ?p n) = Some (l', es, m)" using Suc.prems(1) by (simp add: typed_Suc)
  have one: "print_string [c, 0, 0, 0] q = Inr (length (c_string [c]), called [Writeu (c_string [c])] q)" for c q
    by (cases "c = 0") (simp_all add: printf_string)
  consider (enter) "?k = 13" | (full) "?k \<noteq> 13" "80 < length l" | (ignored) "?k = 127" "l = []"
    | (rub) "?k = 127" "l \<noteq> []" "length l \<le> 80" | (char) "?k \<noteq> 13" "?k \<noteq> 127" "length l \<le> 80"
    by fastforce
  then show ?case
  proof cases
    case enter
    with e have r: "l' = l" "es = [[13, 10]]" "m = 1" by auto
    show ?thesis using enter Suc.prems(2) unfolding r by (subst loop) (simp add: keyboard_read_def printf_string)
  next
    case full
    with e have r: "l' = l" "es = [c_string [?k]]" "m = 1" by auto
    show ?thesis using full Suc.prems(2) unfolding r by (subst loop) (simp add: keyboard_read_def one)
  next
    case ignored
    with e obtain m' where m: "edit l (typed ?p n) = Some (l', es, m')" "m = Suc m'" by auto
    from Suc.IH [OF m(1) Suc.prems(2)] ignored m(2) show ?thesis by (subst loop) (simp add: keyboard_read_def)
  next
    case rub
    let ?q = "called [Writeu [8, 32, 8]] ?p"
    obtain es' m' where m: "edit (butlast l) (typed ?p n) = Some (l', es', m')" "es = [8, 32, 8] # es'" "m = Suc m'"
      using e rub by auto
    have "edit (butlast l) (typed ?q n) = Some (l', es', m')" using m(1) by (simp only: typed_called)
    define b1 where "b1 = b(length l - 1 := 0)"
    have b1: "store 100 (length l - 1) 0 b = Inr ((), b1)" "line_in (butlast l) b1"
      using rub line_in_butlast [OF Suc.prems(2) rub(2)] by (simp_all add: store_def b1_def)
    from Suc.IH [OF \<open>edit (butlast l) (typed ?q n) = _\<close> b1(2)] rub m(2,3) b1(1) show ?thesis
      by (subst loop) (simp add: keyboard_read_def printf_string)
  next
    case char
    let ?q = "called [Writeu (c_string [?k])] ?p"
    obtain es' m' where m: "edit (l @ [?k]) (typed ?p n) = Some (l', es', m')" "es = c_string [?k] # es'" "m = Suc m'"
      using e char by auto
    have "edit (l @ [?k]) (typed ?q n) = Some (l', es', m')" using m(1) by (simp only: typed_called)
    define b1 where "b1 = b(length l := ?k)"
    have b1: "store 100 (length l) ?k b = Inr ((), b1)" "line_in (l @ [?k]) b1"
      using char line_in_snoc [OF Suc.prems(2) char(3)] by (simp_all add: store_def b1_def)
    from Suc.IH [OF \<open>edit (l @ [?k]) (typed ?q n) = _\<close> b1(2)] char m(2,3) b1(1) show ?thesis
      by (subst loop) (simp add: keyboard_read_def one)
  qed
qed

text \<open>Conversely, when \<open>read_cmd\<close> returns, some prefix of the keys enters a line.\<close>

lemma print_key_string: "length ch = 4 \<Longrightarrow> print_string ch p = Inr (length (c_string ch), called [Writeu (c_string ch)] p)"
  using length_c_string [of ch] by (simp add: printf_string)

lemma read_cmd_loop_enters:
  assumes "read_cmd_loop ch b n p = Some r"
  shows "\<forall>l. length ch = 4 \<longrightarrow> length l = n \<longrightarrow> n \<le> 81 \<longrightarrow> (\<exists>k. edit l (typed p k) \<noteq> None)"
proof (rule read_cmd_loop.raw_induct [OF _ assms])
  fix loop :: "u8 list \<Rightarrow> text_buffer \<Rightarrow> nat \<Rightarrow> program \<Rightarrow> (nat \<times> text_buffer, program) outcome option"
    and ch b n and p :: program and r
  assume IH: "\<And>ch b n p r. loop ch b n p = Some r
    \<Longrightarrow> \<forall>l. length ch = 4 \<longrightarrow> length l = n \<longrightarrow> n \<le> 81 \<longrightarrow> (\<exists>k. edit l (typed p k) \<noteq> None)"
  let ?k = "keys p (keys_read p)" and ?p = "p\<lparr>keys_read := Suc (keys_read p)\<rparr>"
  assume run: "(let (k, p) = keyboard_read p; ch = ch[0 := k] in
     if k = 13 \<or> 80 < n then
       let ch = if k = 13 then ch[0 := 13, 1 := 10] else ch
       in Some (kbind (print_string ch p) (\<lambda>_ p. Inr ((n, b), p)))
     else if k = 127 then
       if 0 < n then
         (case store 100 (n - 1) 0 b of
           Inl h \<Rightarrow> Some (Inl h)
         | Inr (_, b) \<Rightarrow>
             let ch = ch[0 := 8, 1 := 32, 2 := 8] in
             (case print_string ch p of
               Inl h \<Rightarrow> Some (Inl h)
             | Inr (_, p) \<Rightarrow> loop (ch[1 := 0, 2 := 0]) b (n - 1) p))
       else loop ch b n p
     else
       (case store 100 n k b of
         Inl h \<Rightarrow> Some (Inl h)
       | Inr (_, b) \<Rightarrow>
           (case print_string ch p of
             Inl h \<Rightarrow> Some (Inl h)
           | Inr (_, p) \<Rightarrow> loop ch b (n + 1) p))) = Some r"
  show "\<forall>l. length ch = 4 \<longrightarrow> length l = n \<longrightarrow> n \<le> 81 \<longrightarrow> (\<exists>k. edit l (typed p k) \<noteq> None)"
  proof (intro allI impI)
    fix l :: "u8 list"
    assume ch: "length ch = 4" and n: "length l = n" "n \<le> 81"
    have next_key: "\<exists>k. edit l (typed p k) \<noteq> None" if "edit l (?k # typed ?p k) \<noteq> None" for k
      using that by (intro exI [of _ "Suc k"]) (simp add: typed_Suc del: edit.simps)
    have rest: "\<exists>k. edit l' (typed ?p k) \<noteq> None"
      if "loop ch' b' (length l') (called cs ?p) = Some r" "length ch' = 4" "length l' \<le> 81" for ch' b' cs l'
      using IH [OF that(1)] that(2,3) unfolding typed_called by blast
    consider (stop) "?k = 13 \<or> 80 < n" | (ignored) "?k = 127" "l = []"
      | (rub) "?k = 127" "l \<noteq> []" "n \<le> 80" | (char) "?k \<noteq> 13" "?k \<noteq> 127" "n \<le> 80"
      using n by fastforce
    then show "\<exists>k. edit l (typed p k) \<noteq> None"
    proof cases
      case stop
      with n next_key [of 0] show ?thesis by (cases "?k = 13") simp_all
    next
      case ignored
      with run n have "loop (ch[0 := 127]) b (length l) (called [] ?p) = Some r" by (simp add: keyboard_read_def)
      from rest [OF this] ch ignored(2) obtain k where "edit l (typed ?p k) \<noteq> None" by auto
      with ignored next_key [of k] show ?thesis by auto
    next
      case rub
      let ?ch = "ch[0 := 127, 0 := 8, 1 := 32, 2 := 8]"
      define b1 where "b1 = b(n - 1 := 0)"
      have "store 100 (n - 1) 0 b = Inr ((), b1)" "0 < n" using rub n by (auto simp: store_def b1_def)
      with run n rub ch have "loop (?ch[1 := 0, 2 := 0]) b1 (length (butlast l)) (called [Writeu (c_string ?ch)] ?p) = Some r"
        by (simp add: keyboard_read_def print_key_string Let_def)
      moreover have "length (butlast l) \<le> 81" using n by simp
      ultimately obtain k where "edit (butlast l) (typed ?p k) \<noteq> None" using rest ch by (metis length_list_update)
      with rub n next_key [of k] show ?thesis by auto
    next
      case char
      let ?ch = "ch[0 := ?k]"
      define b1 where "b1 = b(n := ?k)"
      have "store 100 n ?k b = Inr ((), b1)" using char by (simp add: store_def b1_def)
      with run n char ch have "loop ?ch b1 (length (l @ [?k])) (called [Writeu (c_string ?ch)] ?p) = Some r"
        by (simp add: keyboard_read_def print_key_string Let_def)
      from rest [OF this] ch n char obtain k where "edit (l @ [?k]) (typed ?p k) \<noteq> None" by auto
      with char n next_key [of k] show ?thesis by auto
    qed
  qed
qed

section \<open>What read_cmd does\<close>

lemma read_cmd_enters:
  assumes "edit [] (typed p n) = Some (l, es, m)"
  shows "\<exists>b. read_cmd (\<lambda>_. 0) p
     = Some (Inr ((length l, b), (called (map Writeu es) p)\<lparr>keys_read := keys_read p + m\<rparr>)) \<and> line_in l b"
  using read_cmd_edits [OF assms, of "\<lambda>_. 0" 0] by (simp add: read_cmd_def line_in_def)

lemma read_cmd_waits: "read_cmd (\<lambda>_. 0) p = None \<longleftrightarrow> (\<forall>n. edit [] (typed p n) = None)"
proof (cases "read_cmd (\<lambda>_. 0) p")
  case None
  have "edit [] (typed p n) = None" for n
    using read_cmd_enters [of p n] None by (cases "edit [] (typed p n)") auto
  with None show ?thesis by simp
next
  case (Some r)
  then show ?thesis using read_cmd_loop_enters [of "[0, 0, 0, 0]" "\<lambda>_. 0" 0 p r] by (auto simp: read_cmd_def)
qed

text \<open>A line that is entered uses no more keys than there are up to the first return key.\<close>

lemma edit_return: "13 \<in> set ks \<Longrightarrow> \<exists>l' es m. edit l ks = Some (l', es, m) \<and> m \<le> length (takeWhile (\<lambda>k. k \<noteq> 13) ks) + 1"
proof (induction l ks rule: edit.induct)
  case (1 line)
  then show ?case by simp
next
  case (2 line k ks)
  show ?case
  proof (cases "k = 13 \<or> 80 < length line")
    case True
    then show ?thesis by auto
  next
    case False
    with 2(4) have "13 \<in> set ks" by simp
    with 2(1-3) False show ?thesis by (cases "k = 127"; cases "line = []") fastforce+
  qed
qed

lemma edit_line_length: "edit l ks = Some (l', es, m) \<Longrightarrow> length l \<le> 81 \<Longrightarrow> length l' \<le> 81 \<and> m \<le> length ks"
proof (induction l ks arbitrary: es m rule: edit.induct)
  case (1 line)
  then show ?case by simp
next
  case (2 line k ks)
  then show ?case by (auto split: if_splits)
qed

text \<open>
  Property C25: \<open>read_cmd\<close> is the line editor on lists: for whatever keys are typed, it returns the line that the
  editor enters, with zeros after it in the buffer, has echoed the editor's texts one call each, and has used
  as many keys; and it waits for ever exactly when no line is ever entered.
\<close>

theorem read_cmd_is_editor:
  "(case edit [] (typed p n) of
      Some (l, es, m) \<Rightarrow> \<exists>b. read_cmd (\<lambda>_. 0) p
         = Some (Inr ((length l, b), (called (map Writeu es) p)\<lparr>keys_read := keys_read p + m\<rparr>))
       \<and> map b [0..<100] = l @ replicate (100 - length l) 0
    | None \<Rightarrow> True)
   \<and> (read_cmd (\<lambda>_. 0) p = None \<longleftrightarrow> (\<forall>n. edit [] (typed p n) = None))"
proof (cases "edit [] (typed p n)")
  case None
  then show ?thesis using read_cmd_waits [of p] by simp
next
  case (Some r)
  obtain l es m where r: "r = (l, es, m)" by (cases r) auto
  from read_cmd_enters [of p n l es m] Some r line_in_bytes read_cmd_waits [of p] show ?thesis by auto
qed

text \<open>
  Property C33: whatever is typed, \<open>read_cmd\<close> stays within the shell's buffer of 100 bytes: it never fails, the line has at most
  81 characters, and the bytes after it are zero, so it is a C string for the calls that follow.
\<close>

theorem read_cmd_in_bounds:
  assumes "read_cmd (\<lambda>_. 0) p = Some r"
  shows "\<exists>n b p'. r = Inr ((n, b), p') \<and> n \<le> 81 \<and> (\<forall>i \<ge> n. b i = 0)"
proof -
  obtain n l es m where e: "edit [] (typed p n) = Some (l, es, m)" using read_cmd_waits [of p] assms by auto
  then obtain b where b: "read_cmd (\<lambda>_. 0) p
     = Some (Inr ((length l, b), (called (map Writeu es) p)\<lparr>keys_read := keys_read p + m\<rparr>))" "line_in l b"
    using read_cmd_enters by blast
  have "\<forall>i \<ge> length l. b i = 0" using b(2) by (simp add: line_in_def)
  with b assms edit_line_length [OF e] show ?thesis by auto
qed

definition typist :: "u8 list \<Rightarrow> program" where
  "typist ks = \<lparr>keys = (\<lambda>i. if i < length ks then ks ! i else 13), keys_read = 0, answers = (\<lambda>_. 3),
     listing = (\<lambda>_. load_DirEntry (\<lambda>_. 0) 0), calls = []\<rparr>"

lemma typist_keys: "typed (typist ks) (length ks) = ks"
  by (rule nth_equalityI) (simp_all add: typed_def typist_def)

text \<open>Rubbing out a character and typing another.\<close>

lemma read_cmd_in_bounds_witness:
  "\<exists>r n b p'. read_cmd (\<lambda>_. 0) (typist [0x6d, 127, 0x6c, 0x73, 13]) = Some r \<and> r = Inr ((n, b), p') \<and> n \<le> 81 \<and> b n = 0"
proof -
  have "edit [] (typed (typist [0x6d, 127, 0x6c, 0x73, 13]) (length [0x6d, 127, 0x6c, 0x73, 13 :: u8]))
      = Some ([0x6c, 0x73], [[0x6d], [8, 32, 8], [0x6c], [0x73], [13, 10]], 5)"
    unfolding typist_keys by simp
  from read_cmd_enters [OF this] obtain r where r: "read_cmd (\<lambda>_. 0) (typist [0x6d, 127, 0x6c, 0x73, 13]) = Some r"
    by blast
  from read_cmd_in_bounds [OF r] r show ?thesis by auto
qed

text \<open>
  Property C34: \<open>read_cmd\<close> returns once the return key is pressed: it uses no key after the first one of them. Without it
  and with less than 82 characters it goes on waiting.
\<close>

theorem read_cmd_returns:
  assumes "keys_read p \<le> j" "keys p j = 13"
  shows "\<exists>n b p'. read_cmd (\<lambda>_. 0) p = Some (Inr ((n, b), p')) \<and> keys_read p < keys_read p' \<and> keys_read p' \<le> Suc j"
proof -
  let ?n = "Suc (j - keys_read p)"
  have "typed p ?n ! (j - keys_read p) = 13" using assms by (simp add: typed_def del: upt_Suc)
  then have "13 \<in> set (typed p ?n)" by (metis lessI length_map length_upt nth_mem typed_def diff_zero)
  then obtain l es m where e: "edit [] (typed p ?n) = Some (l, es, m)" using edit_return by blast
  have "m \<le> ?n" using edit_line_length [OF e] by (simp add: typed_def)
  moreover have "0 < m" using e by (auto simp: typed_Suc split: if_splits)
  ultimately show ?thesis using read_cmd_enters [OF e] assms(1) by auto
qed

lemma read_cmd_returns_witness:
  "\<exists>n b p'. read_cmd (\<lambda>_. 0) (typist [127, 0x61]) = Some (Inr ((n, b), p')) \<and> keys_read p' \<le> 3"
  using read_cmd_returns [of "typist [127, 0x61]" 2] by (auto simp: typist_def)

section \<open>The shell and its programs\<close>

lemma cap_0: "cap c = 0 \<longleftrightarrow> c = 0"
proof (cases "0x61 \<le> c \<and> c \<le> 0x7a")
  case True
  have "c \<noteq> 0" "c \<noteq> 32" using True by (auto simp del: word_le_sub1)
  with True show ?thesis by (simp add: cap_def)
next
  case False
  then show ?thesis unfolding cap_def by (simp only: if_False)
qed

lemma c_string_append: "0 \<notin> set a \<Longrightarrow> c_string (a @ b) = a @ c_string b"
  by (induction a) auto

lemma c_string_pad: "c_string (l @ replicate k 0) = c_string l"
proof (induction l)
  case Nil
  show ?case by (cases k) simp_all
next
  case (Cons c l)
  then show ?case by (cases "c = 0") simp_all
qed

text \<open>The string in the buffer, in capitals.\<close>

lemma all_caps_string:
  assumes "b k = 0" "i \<le> k" "k < 100"
  shows "\<exists>b'. all_caps_char i b = Inr ((), b')
    \<and> c_string (map b' [i..<100]) = map cap (c_string (map b [i..<100])) \<and> (\<forall>j < i. b' j = b j)"
  using assms
proof (induction "k - i" arbitrary: i b)
  case 0
  then have "b i = 0" "i < 100" by auto
  then show ?case by (subst all_caps_char.simps) (simp add: upt_conv_Cons)
next
  case (Suc n)
  show ?case
  proof (cases "b i = 0")
    case True
    with Suc.prems show ?thesis by (subst all_caps_char.simps) (simp add: upt_conv_Cons)
  next
    case False
    let ?b = "b(i := cap (b i))"
    have less: "i < k" "i < 100" using Suc.hyps(2) Suc.prems by auto
    then obtain b' where b': "all_caps_char (Suc i) ?b = Inr ((), b')"
      "c_string (map b' [Suc i..<100]) = map cap (c_string (map ?b [Suc i..<100]))" "\<forall>j < Suc i. b' j = ?b j"
    proof -
      have "n = k - Suc i" "?b k = 0" "Suc i \<le> k" using Suc.hyps(2) Suc.prems(1) less(1) by auto
      from Suc.hyps(1) [of "Suc i" ?b, OF this Suc.prems(3)] that show thesis by blast
    qed
    have "b' i = cap (b i)" using b'(3) by simp
    moreover have "map ?b [Suc i..<100] = map b [Suc i..<100]" by simp
    ultimately have "c_string (map b' [i..<100]) = map cap (c_string (map b [i..<100]))"
      using b'(2) less(2) False cap_0 [of "b i"] by (simp add: upt_conv_Cons)
    moreover have "\<forall>j < i. b' j = b j" using b'(3) by simp
    ultimately show ?thesis using b'(1) False less by (subst all_caps_char.simps) (simp add: exI [of _ b'])
  qed
qed

lemma line_all_caps:
  assumes "line_in l b"
  shows "\<exists>b'. all_caps_char 0 b = Inr ((), b') \<and> array_string b' = map cap (c_string l)"
proof -
  have "b (length l) = 0" "length l < 100" using assms by (simp_all add: line_in_def)
  from all_caps_string [where b = b and k = "length l" and i = 0, OF this(1) _ this(2)] line_in_bytes [OF assms] show ?thesis
    by (auto simp: c_string_pad)
qed

text \<open>What the shell does with a line, given what the kernel answers to its next calls.\<close>

definition prompt :: "u8 list" where "prompt = ascii ''shell# ''"

definition run_line :: "u8 list \<Rightarrow> program \<Rightarrow> unit user \<times> call list" where
  "run_line l p =
     (let file = map cap (c_string l); n = length (calls p); x0 = (\<lambda>k. ucast (answers p (n + k)) :: i32) in
      if l = [] then (Back (), [])
      else if x0 0 = - 1 then (Back (), [Open_file file, Writeu (ascii ''No Such file'' @ [13, 10])])
      else if x0 2 = 0 then (Gone, [Open_file file, Close_file (x0 0), Forku, Execu file])
      else (Back (), [Open_file file, Close_file (x0 0), Forku, Waitu (x0 2)]))"

text \<open>
  Property C26: one round of the shell, for whatever is typed and however the kernel answers. It prompts and reads a
  line as \<open>read_cmd\<close> does. For an empty line it does nothing; otherwise it opens the file whose name is the line in
  capitals. If that fails it says so; else it closes the file and forks, the child executes the file by the same
  name and never comes back, the parent waits for the child.
\<close>

theorem shell_round_runs_line:
  assumes "edit [] (typed p n) = Some (l, es, m)"
  defines "p1 \<equiv> (called (map Writeu (prompt # es)) p)\<lparr>keys_read := keys_read p + m\<rparr>"
  shows "shell_round p = Some (Inr (fst (run_line l p1), called (snd (run_line l p1)) p1))"
proof -
  let ?p0 = "called [Writeu prompt] p"
  have "edit [] (typed ?p0 n) = Some (l, es, m)" using assms(1) by (simp only: typed_called)
  from read_cmd_enters [OF this] obtain b where b: "read_cmd (\<lambda>_. 0) ?p0 = Some (Inr ((length l, b), p1))" "line_in l b"
    by (auto simp: p1_def)
  obtain b' where b': "all_caps_char 0 b = Inr ((), b')" "array_string b' = map cap (c_string l)"
    using line_all_caps [OF b(2)] by blast
  have pr: "printf (ascii ''shell# '') [] p = Inr (length prompt, ?p0)"
    "printf (ascii ''No Such file'' @ [13, 10]) [] q = Inr (14, called [Writeu (ascii ''No Such file'' @ [13, 10])] q)" for q
    by (subst printf_text; simp add: prompt_def ascii_def)+
  have round: "shell_round p = Some (if l = [] then Inr (Back (), p1) else
      kbind (svc (Open_file (array_string b')) p1) (\<lambda>fd p.
        if fd = - 1 then kbind (printf (ascii ''No Such file'' @ [13, 10]) [] p) (\<lambda>_ p. Inr (Back (), p))
        else kbind (svc (Close_file fd) p) (\<lambda>_ p. kbind (svc Forku p) (\<lambda>pid p.
          if pid = 0 then leave (Execu (array_string b')) p
          else kbind (svc (Waitu pid) p) (\<lambda>_ p. Inr (Back (), p))))))"
    by (simp add: shell_round_def pr(1) b(1) b'(1))
  show ?thesis unfolding round b'(2) run_line_def Let_def
    by (simp add: svc_def leave_def pr(2))
qed

text \<open>\<open>ls\<close> is typed, found, forked and waited for.\<close>

lemma shell_round_runs_line_witness:
  "\<exists>p'. shell_round (typist [0x6c, 0x73, 13]) = Some (Inr (Back (), p')) \<and> calls p' = [Writeu prompt, Writeu [0x6c], Writeu [0x73],
     Writeu [13, 10], Open_file (ascii ''LS''), Close_file 3, Forku, Waitu 3]"
proof -
  have "edit [] (typed (typist [0x6c, 0x73, 13]) (length [0x6c, 0x73, 13 :: u8]))
      = Some ([0x6c, 0x73], [[0x6c], [0x73], [13, 10]], 3)"
    unfolding typist_keys by simp
  from shell_round_runs_line [OF this] show ?thesis
    by (simp add: run_line_def Let_def typist_def cap_def ascii_def)
qed

section \<open>The directory listing\<close>

definition shown :: "DirEntry \<Rightarrow> bool" where
  "shown e \<longleftrightarrow> name e ! 0 \<noteq> 0 \<and> name e ! 0 \<noteq> 0xe5 \<and> attributes e \<noteq> 0xf \<and> attributes e \<noteq> 8"

definition ls_line :: "DirEntry \<Rightarrow> u8 list" where
  "ls_line e = c_string (name e)
     @ (if attributes e AND 0x10 = 0x10 then ascii ''      YES          '' else ascii ''      NO           '')
     @ show_base 10 (unat (dir_file_size e)) @ ascii ''b'' @ [13, 10]"

definition ls_header :: "u8 list list" where
  "ls_header = [[13, 10] @ ascii ''NAME          DIR          FILE SIZE '' @ [13, 10],
     ascii ''-------------------------------------------'' @ [13, 10]]"

lemma show_size: "show_base 10 (unat (ucast w :: u64)) = show_base 10 (unat (w :: u32))"
  by simp

lemma ls_entry_prints:
  assumes "i < 1024" "length (name (listing p i)) = 8" "drop 8 nm = [0, 0]"
  shows "\<exists>nm'. ls_entry i (nm, p) = Inr (nm', called (if shown (listing p i) then [Writeu (ls_line (listing p i))] else []) p)
    \<and> drop 8 nm' = [0, 0]"
proof (cases "shown (listing p i)")
  case False
  then show ?thesis using assms by (auto simp: ls_entry_def shown_def)
next
  case True
  let ?e = "listing p i"
  let ?nm = "take 8 (name ?e) @ drop 8 nm"
  have nm: "c_string ?nm = c_string (name ?e)" "drop 8 ?nm = [0, 0]"
    using assms(2,3) c_string_pad [of "name ?e" 2] by (simp_all add: numeral_2_eq_2)
  have "length (c_string (name ?e)) \<le> 8" using length_c_string [of "name ?e"] assms(2) by simp
  moreover have "length (show_base 10 (unat (dir_file_size ?e))) \<le> 20"
    using digit_loop_10(2) [of "ucast (dir_file_size ?e)"] by simp
  ultimately have len: "length (ls_line ?e) \<le> 1024" by (simp add: ls_line_def ascii_def)
  have r: "render (ascii ''%s      YES          %ub'' @ [13, 10]) [Text t, Num (ucast w)]
      = Some (t @ ascii ''      YES          '' @ show_base 10 (unat w) @ ascii ''b'' @ [13, 10])"
    "render (ascii ''%s      NO           %ub'' @ [13, 10]) [Text t, Num (ucast w)]
      = Some (t @ ascii ''      NO           '' @ show_base 10 (unat w) @ ascii ''b'' @ [13, 10])" for t and w :: u32
    by (simp_all add: ascii_def)
  show ?thesis
    using True assms(1) len nm(2) unfolding ls_entry_def shown_def
    by (intro exI [of _ ?nm]) (simp add: Let_def printf_renders r nm(1) ls_line_def split: if_splits)
qed

lemma ls_loop_prints:
  assumes "i + k \<le> 1024" "\<forall>j < i + k. length (name (listing p j)) = 8" "drop 8 nm = [0, 0]"
  shows "ls_loop k i nm p = Inr (Back (), called (map (\<lambda>e. Writeu (ls_line e)) (filter shown (map (listing p) [i..<i + k]))) p)"
  using assms
proof (induction k arbitrary: i nm p)
  case 0
  then show ?case by simp
next
  case (Suc k)
  let ?cs = "if shown (listing p i) then [Writeu (ls_line (listing p i))] else []"
  obtain nm' where e: "ls_entry i (nm, p) = Inr (nm', called ?cs p)" "drop 8 nm' = [0, 0]"
    using ls_entry_prints [of i p nm] Suc.prems by auto
  have "ls_loop k (Suc i) nm' (called ?cs p)
      = Inr (Back (), called (map (\<lambda>e. Writeu (ls_line e)) (filter shown (map (listing p) [Suc i..<Suc i + k]))) (called ?cs p))"
    using Suc.IH [of "Suc i" "called ?cs p" nm'] Suc.prems e(2) by simp
  moreover have "[i..<i + Suc k] = i # [Suc i..<Suc i + k]" by (simp add: upt_conv_Cons)
  ultimately show ?case using e(1) by simp
qed

lemma ls_loop_overruns:
  assumes "i \<le> 1024" "1024 < i + k" "\<forall>j < 1024. length (name (listing p j)) = 8" "drop 8 nm = [0, 0]"
  shows "ls_loop k i nm p = Inl Out_of_bounds"
  using assms
proof (induction k arbitrary: i nm p)
  case 0
  then show ?case by simp
next
  case (Suc k)
  show ?case
  proof (cases "i < 1024")
    case True
    let ?cs = "if shown (listing p i) then [Writeu (ls_line (listing p i))] else []"
    obtain nm' where e: "ls_entry i (nm, p) = Inr (nm', called ?cs p)" "drop 8 nm' = [0, 0]"
      using ls_entry_prints [of i p nm] Suc.prems True by auto
    have "ls_loop k (Suc i) nm' (called ?cs p) = Inl Out_of_bounds"
      using Suc.IH [of "Suc i" "called ?cs p" nm'] Suc.prems True e(2) by simp
    with e(1) show ?thesis by simp
  next
    case False
    then show ?thesis by (simp add: ls_entry_def)
  qed
qed

text \<open>
  Property C35: \<open>ls\<close> prints a header and then one line for each entry of the root directory that is in use, is no
  part of a long name and no volume label, in the order of the directory, with its name, whether it is a
  directory, and its size; nothing for an empty directory. Its buffer holds 1024 entries: with more of them it reads past the end.
\<close>

theorem ls_lists_directory:
  fixes p :: program
  assumes "\<forall>i < 1024. length (name (listing p i)) = 8"
  defines "count \<equiv> sint (ucast (answers p (length (calls p))) :: i32)"
  shows "ls_main p = (if 1024 < count then Inl Out_of_bounds
     else Inr (Back (), called (Read_root_directory # (if count = 0 then [] else map Writeu ls_header
       @ map (\<lambda>e. Writeu (ls_line e)) (filter shown (map (listing p) [0..<nat count])))) p))"
proof -
  let ?w = "ucast (answers p (length (calls p))) :: i32"
  have "?w = 0 \<longleftrightarrow> count = 0" by (metis count_def signed_0 signed_word_eqI)
  let ?q = "called (Read_root_directory # map Writeu ls_header) p"
  have h: "printf (13 # 10 # ascii ''NAME          DIR          FILE SIZE '' @ [13, 10]) [] q = Inr (41, called [Writeu (ls_header ! 0)] q)"
    "printf (ascii ''-------------------------------------------'' @ [13, 10]) [] q = Inr (45, called [Writeu (ls_header ! 1)] q)" for q
    by (subst printf_text; simp add: ls_header_def ascii_def)+
  have run: "ls_main p = (if count = 0 then Inr (Back (), called [Read_root_directory] p)
      else ls_loop (nat count) 0 (replicate 10 0) ?q)"
    using \<open>?w = 0 \<longleftrightarrow> count = 0\<close> by (simp add: ls_main_def svc_def h count_def [symmetric]) (simp add: ls_header_def)
  have nm: "drop 8 (replicate 10 0) = [0, 0 :: u8]" by (simp add: numeral_eq_Suc)
  show ?thesis
  proof (cases "1024 < count")
    case True
    then have "ls_loop (nat count) 0 (replicate 10 0) ?q = Inl Out_of_bounds" using assms(1) nm by (intro ls_loop_overruns) auto
    with True show ?thesis by (simp add: run)
  next
    case False
    then have "ls_loop (nat count) 0 (replicate 10 0) ?q
        = Inr (Back (), called (map (\<lambda>e. Writeu (ls_line e)) (filter shown (map (listing ?q) [0..<0 + nat count]))) ?q)"
      using assms(1) nm by (intro ls_loop_prints) auto
    with False show ?thesis by (simp add: run)
  qed
qed

text \<open>The volume of the examples: \<open>ls\<close> shows its file.\<close>

definition root_listing :: program where
  "root_listing = (typist [])\<lparr>answers := (\<lambda>_. 2), listing := (\<lambda>i. dir_entry sample_image i)\<rparr>"

lemma ls_lists_directory_witness:
  "\<exists>p'. ls_main root_listing = Inr (Back (), p')
     \<and> calls p' = Read_root_directory # map Writeu ls_header
       @ map (\<lambda>e. Writeu (ls_line e)) (filter shown (map (dir_entry sample_image) [0..<2]))"
proof -
  have "\<forall>i < 1024. length (name (listing root_listing i)) = 8"
    by (simp add: root_listing_def dir_entry_def load_DirEntry_def bytes_def)
  from ls_lists_directory [OF this] show ?thesis by (simp add: root_listing_def typist_def)
qed

section \<open>What the user sees\<close>

text \<open>
  One row of a terminal: its characters and the cursor. Backspace moves the cursor back, a return to the
  start; other characters are written at the cursor.
\<close>

definition tty_char :: "u8 \<Rightarrow> u8 list \<times> nat \<Rightarrow> u8 list \<times> nat" where
  "tty_char c = (\<lambda>(row, i). if c = 8 then (row, i - 1) else if c = 13 then (row, 0)
     else (take i row @ [c] @ drop (Suc i) row, Suc i))"

definition tty :: "u8 list \<Rightarrow> u8 list \<times> nat \<Rightarrow> u8 list \<times> nat" where
  "tty = fold tty_char"

definition printable :: "u8 \<Rightarrow> bool" where
  "printable k \<longleftrightarrow> 32 \<le> k \<and> k \<noteq> 127"

text \<open>The row shows a line, blank after it, with the cursor at its end.\<close>

definition shows_line :: "u8 list \<Rightarrow> u8 list \<times> nat \<Rightarrow> bool" where
  "shows_line l t \<longleftrightarrow> (\<exists>k. t = (l @ replicate k 32, length l))"

lemma tty_type:
  assumes "shows_line l t" "printable c"
  shows "shows_line (l @ [c]) (tty [c] t)"
proof -
  obtain k where t: "t = (l @ replicate k 32, length l)" using assms(1) by (auto simp: shows_line_def)
  have "c \<noteq> 8" "c \<noteq> 13" using assms(2) by (auto simp: printable_def)
  then have "tty [c] t = ((l @ [c]) @ replicate (k - 1) 32, length (l @ [c]))" by (simp add: tty_def tty_char_def t)
  then show ?thesis unfolding shows_line_def by blast
qed

lemma tty_rub:
  assumes "shows_line (l @ [c]) t"
  shows "shows_line l (tty [8, 32, 8] t)"
proof -
  obtain k where t: "t = (l @ [c] @ replicate k 32, Suc (length l))" using assms by (auto simp: shows_line_def)
  have "tty [8, 32, 8] t = (l @ replicate (Suc k) 32, length l)" by (simp add: tty_def tty_char_def t)
  then show ?thesis unfolding shows_line_def by blast
qed

lemma edit_shows:
  assumes "edit l ks = Some (l', es @ [[13, 10]], m)" "shows_line (pre @ l) t" "\<forall>k \<in> set ks. printable k \<or> k = 13 \<or> k = 127"
  shows "shows_line (pre @ l') (tty (concat es) t)"
  using assms
proof (induction l ks arbitrary: es m t rule: edit.induct)
  case (1 line)
  then show ?case by simp
next
  case (2 line k ks)
  have tty_append: "tty (a @ b) t = tty b (tty a t)" for a b t by (simp add: tty_def)
  have no_return: "c_string [k] \<noteq> [13, 10]" by (cases "k = 0") simp_all
  consider (enter) "k = 13" | (full) "k \<noteq> 13" "80 < length line" | (ignored) "k = 127" "line = []"
    | (rub) "k = 127" "line \<noteq> []" "length line \<le> 80" | (char) "k \<noteq> 13" "k \<noteq> 127" "length line \<le> 80"
    by fastforce
  then show ?case
  proof cases
    case enter
    with 2(4,5) show ?thesis by (simp add: tty_def)
  next
    case full
    with 2(4) no_return show ?thesis by (cases es) auto
  next
    case ignored
    with 2(4) obtain m' where "edit line ks = Some (l', es @ [[13, 10]], m')" by auto
    with 2(1) ignored 2(5,6) show ?thesis by simp
  next
    case rub
    then obtain es0 m' where e: "edit (butlast line) ks = Some (l', es0, m')" "es @ [[13, 10]] = [8, 32, 8] # es0"
      using 2(4) by auto
    then obtain es1 where es: "es = [8, 32, 8] # es1" "es0 = es1 @ [[13, 10]]" by (cases es) auto
    have "shows_line (pre @ butlast line @ [last line]) t" using 2(5) rub(2) by simp
    then have "shows_line (pre @ butlast line) (tty [8, 32, 8] t)" using tty_rub [of "pre @ butlast line"] by simp
    with 2(2) rub e(1) es 2(6) have "shows_line (pre @ l') (tty (concat es1) (tty [8, 32, 8] t))" by simp
    then show ?thesis using tty_append [of "[8, 32, 8]" "concat es1" t] by (simp add: es(1))
  next
    case char
    then have k: "printable k" "k \<noteq> 0" using 2(6) by (auto simp: printable_def)
    then obtain es0 m' where e: "edit (line @ [k]) ks = Some (l', es0, m')" "es @ [[13, 10]] = [k] # es0"
      using 2(4) char by auto
    then obtain es1 where es: "es = [k] # es1" "es0 = es1 @ [[13, 10]]" by (cases es) auto
    have "shows_line (pre @ line @ [k]) (tty [k] t)" using tty_type [OF 2(5) k(1)] by simp
    with 2(3) char e(1) es 2(6) have "shows_line (pre @ l') (tty (concat es1) (tty [k] t))" by simp
    then show ?thesis using tty_append [of "[k]" "concat es1" t] by (simp add: es(1))
  qed
qed



section \<open>The first program and the test program\<close>

lemma init_starts_shell:
  fixes p :: program
  defines "pid \<equiv> ucast (answers p (length (calls p))) :: i32"
  shows "start init_main p = Inr (Gone, called (if pid = 0 then [Forku, Execu (ascii ''CONSOLE.BIN'')]
     else [Forku, Waitu pid, Exitu]) p)"
  by (simp add: start_def init_main_def svc_def leave_def pid_def)

lemma test_prints_pid:
  fixes p :: program
  defines "pid \<equiv> ucast (answers p (length (calls p))) :: i32"
  shows "start test_main p = Inr (Gone, called [Getpid,
     Writeu (ascii ''This is a test exec program PID:'' @ show_int32 pid @ [10]), Exitu] p)"
proof -
  have w: "ucast (scast pid :: u64) = pid" by (rule bit_word_eqI) (simp add: bit_ucast_iff bit_signed_iff)
  have "render (ascii ''This is a test exec program PID:%d'' @ [10]) [Num (scast pid)]
      = Some (ascii ''This is a test exec program PID:'' @ show_int32 pid @ [10])"
    by (simp add: ascii_def w)
  moreover have "length (ascii ''This is a test exec program PID:'' @ show_int32 pid @ [10]) \<le> 1024"
    using length_show_int32 [of pid] by (simp add: ascii_def)
  ultimately show ?thesis by (simp add: start_def test_main_def svc_def leave_def pid_def printf_renders)
qed

end
