(* ===== verification/Traps.thy ===== *)
theory Traps
  imports Syscalls
begin

text \<open>
  Entering and leaving the kernel: the register side of vector_t/vector_table.s, with the trap frame
  of vector_t/exception_handler.h that it leaves in memory, and \<open>swap\<close>. A trap and its return give a program all its
  registers back, but for the result of a system call in \<open>x0\<close>; a forked child goes on like its parent.
\<close>

section \<open>Registers and trap frames\<close>

text \<open>The general registers \<open>x0\<close> to \<open>x30\<close>, the kernel's stack pointer, and the system registers that are saved.\<close>

record cpu =
  xr :: "nat \<Rightarrow> u64"
  sp :: u64
  sp_el0 :: u64
  elr :: u64
  spsr :: u64
  esr :: u64

record TrapFrame =
  tf_x :: "u64 list"
  tf_sp0 :: u64
  tf_trapno :: u64
  tf_esr :: u64
  tf_elr :: u64
  tf_spsr :: u64

definition field :: "memory \<Rightarrow> u64 \<Rightarrow> nat \<Rightarrow> u64" where
  "field m tf k = ld64 m (tf + of_nat (8 * k))"

definition load_TrapFrame :: "memory \<Rightarrow> u64 \<Rightarrow> TrapFrame" where
  "load_TrapFrame m tf = \<lparr>tf_x = map (field m tf) [0..<31], tf_sp0 = field m tf 31, tf_trapno = field m tf 32,
     tf_esr = field m tf 33, tf_elr = field m tf 34, tf_spsr = field m tf 35\<rparr>"

section \<open>Entry\<close>

definition set_x :: "nat \<Rightarrow> u64 \<Rightarrow> cpu \<Rightarrow> cpu" where
  "set_x i v c = c\<lparr>xr := (xr c)(i := v)\<rparr>"

definition stp :: "u64 \<Rightarrow> u64 \<Rightarrow> u64 \<Rightarrow> memory \<Rightarrow> memory" where
  "stp v w a m = st64 (st64 m a v) (a + 8) w"

text \<open>The pairs from \<open>x0, x1\<close> on, each 16 bytes after the one before.\<close>

primrec store_pairs :: "nat \<Rightarrow> cpu \<Rightarrow> memory \<Rightarrow> memory" where
  "store_pairs 0 c m = m"
| "store_pairs (Suc k) c m = stp (xr c (2 * k)) (xr c (2 * k + 1)) (sp c + of_nat (16 * k)) (store_pairs k c m)"

definition kernel_entry :: "cpu \<Rightarrow> memory \<Rightarrow> cpu \<times> memory" where
  "kernel_entry c m =
     (let c = c\<lparr>sp := sp c - of_nat (36 * 8)\<rparr>; m = store_pairs 15 c m; c = set_x 0 (sp_el0 c) c
      in (c, stp (xr c 30) (xr c 0) (sp c + of_nat (16 * 15)) m))"

definition handler_entry :: "cpu \<times> memory \<Rightarrow> cpu \<times> memory" where
  "handler_entry = (\<lambda>(c, m).
     let c = set_x 1 (esr c) c; m = stp (xr c 0) (xr c 1) (sp c + of_nat (16 * 16)) m;
       c = set_x 1 (spsr c) (set_x 0 (elr c) c); m = stp (xr c 0) (xr c 1) (sp c + of_nat (16 * 17)) m
     in (set_x 0 (sp c) c, m))"

text \<open>The exception class in the top bits of \<open>esr\<close> tells a system call from an error.\<close>

definition sync_handler :: "cpu \<Rightarrow> memory \<Rightarrow> cpu \<times> memory" where
  "sync_handler c m =
     (let (c, m) = kernel_entry c m; c = set_x 0 (esr c) c; c = set_x 1 (drop_bit 26 (xr c 0)) c;
        c = set_x 3 3 (set_x 2 1 c); c = set_x 0 (if xr c 1 \<noteq> 0x15 then xr c 2 else xr c 3) c
      in handler_entry (c, m))"

definition irq_handler :: "cpu \<Rightarrow> memory \<Rightarrow> cpu \<times> memory" where
  "irq_handler c m = (let (c, m) = kernel_entry c m in handler_entry (set_x 0 2 c, m))"

definition error_handler :: "cpu \<Rightarrow> memory \<Rightarrow> cpu \<times> memory" where
  "error_handler c m = (let (c, m) = kernel_entry c m in handler_entry (set_x 0 0 c, m))"

section \<open>Return\<close>

definition ldp :: "nat \<Rightarrow> nat \<Rightarrow> u64 \<Rightarrow> memory \<Rightarrow> cpu \<Rightarrow> cpu" where
  "ldp i j a m c = set_x j (ld64 m (a + 8)) (set_x i (ld64 m a) c)"

primrec load_pairs :: "nat \<Rightarrow> memory \<Rightarrow> cpu \<Rightarrow> cpu" where
  "load_pairs 0 m c = c"
| "load_pairs (Suc k) m c = ldp (2 * k) (2 * k + 1) (sp c + of_nat (16 * k)) m (load_pairs k m c)"

text \<open>\<open>eret\<close> goes on at \<open>elr\<close> with the state in \<open>spsr\<close>.\<close>

definition kernel_exit :: "memory \<Rightarrow> cpu \<Rightarrow> cpu" where
  "kernel_exit m c =
     (let c = ldp 30 0 (sp c + of_nat (16 * 15)) m c; c = c\<lparr>sp_el0 := xr c 0\<rparr>; c = load_pairs 15 m c
      in c\<lparr>sp := sp c + of_nat (36 * 8)\<rparr>)"

definition trap_return_code :: "memory \<Rightarrow> cpu \<Rightarrow> cpu" where
  "trap_return_code m c =
     (let c = ldp 0 1 (sp c + of_nat (16 * 17)) m c in kernel_exit m (c\<lparr>elr := xr c 0, spsr := xr c 1\<rparr>))"

text \<open>The first return to a program, from \<open>pstart\<close> with the trap frame in \<open>x0\<close>.\<close>

definition pstart :: "memory \<Rightarrow> cpu \<Rightarrow> cpu" where
  "pstart m c = trap_return_code m (c\<lparr>sp := xr c 0\<rparr>)"

section \<open>Switching stacks\<close>

text \<open>\<open>swap(prev, next)\<close>, with \<open>prev\<close> in \<open>x0\<close> and \<open>next\<close> in \<open>x1\<close>.\<close>

primrec save_callee :: "nat \<Rightarrow> cpu \<Rightarrow> memory \<Rightarrow> memory" where
  "save_callee 0 c m = m"
| "save_callee (Suc k) c m = stp (xr c (2 * k + 19)) (xr c (2 * k + 20)) (sp c + of_nat (16 * k)) (save_callee k c m)"

primrec load_callee :: "nat \<Rightarrow> memory \<Rightarrow> cpu \<Rightarrow> cpu" where
  "load_callee 0 m c = c"
| "load_callee (Suc k) m c = ldp (2 * k + 19) (2 * k + 20) (sp c + of_nat (16 * k)) m (load_callee k m c)"

definition swap :: "cpu \<Rightarrow> memory \<Rightarrow> cpu \<times> memory" where
  "swap c m =
     (let c = c\<lparr>sp := sp c - of_nat (12 * 8)\<rparr>; m = save_callee 6 c m; c = set_x 2 (sp c) c;
        m = st64 m (xr c 0) (xr c 2); c = load_callee 6 m (c\<lparr>sp := xr c 1\<rparr>)
      in (c\<lparr>sp := sp c + of_nat (12 * 8)\<rparr>, m))"

section \<open>Fields of the frame\<close>

lemma field_st64:
  assumes "i < 2 ^ 32" "j < 2 ^ 32"
  shows "field (st64 m (tf + of_nat (8 * j)) v) tf i = (if i = j then v else field m tf i)"
  using entry_st64 [OF assms, of m tf v] by (simp add: field_def entry_def del: rd.simps wr.simps)

lemma field_stp:
  assumes "i < 2 ^ 31" "j < 2 ^ 31"
  shows "field (stp v w (tf + of_nat (16 * j)) m) tf i
    = (if i = 2 * j then v else if i = 2 * j + 1 then w else field m tf i)"
proof -
  have a: "(tf :: u64) + of_nat (16 * j) = tf + of_nat (8 * (2 * j))" by simp
  have b: "(tf :: u64) + of_nat (16 * j) + 8 = tf + of_nat (8 * (2 * j + 1))" by (simp add: algebra_simps)
  have h: "i < 2 ^ 32" "2 * j < 2 ^ 32" "2 * j + 1 < 2 ^ 32" using assms by simp_all
  show ?thesis
    unfolding stp_def b unfolding a field_st64 [OF h(1,3)] field_st64 [OF h(1,2)] by simp
qed

lemma ldp_fields:
  "ldp i j (tf + of_nat (16 * k)) m c = set_x j (field m tf (2 * k + 1)) (set_x i (field m tf (2 * k)) c)"
proof -
  have "(tf :: u64) + of_nat (16 * k) = tf + of_nat (8 * (2 * k))"
    "tf + of_nat (16 * k) + 8 = tf + of_nat (8 * (2 * k + 1))" by (simp_all add: algebra_simps)
  then show ?thesis by (simp only: ldp_def field_def)
qed

lemma set_x_simps [simp]:
  "xr (set_x i v c) = (xr c)(i := v)" "sp (set_x i v c) = sp c" "sp_el0 (set_x i v c) = sp_el0 c" "elr (set_x i v c) = elr c"
  "spsr (set_x i v c) = spsr c" "esr (set_x i v c) = esr c"
  by (simp_all add: set_x_def)

lemma field_store_pairs:
  "n \<le> 2 ^ 20 \<Longrightarrow> i < 2 ^ 20 \<Longrightarrow> field (store_pairs n c m) (sp c) i = (if i < 2 * n then xr c i else field m (sp c) i)"
proof (induction n)
  case 0
  then show ?case by simp
next
  case (Suc n)
  have "i < 2 ^ 31" "n < 2 ^ 31" using Suc.prems by simp_all
  from field_stp [OF this] Suc show ?case by (auto simp: less_Suc_eq)
qed

lemma load_pairs_fields:
  "sp (load_pairs n m c) = sp c" "sp_el0 (load_pairs n m c) = sp_el0 c" "elr (load_pairs n m c) = elr c"
  "spsr (load_pairs n m c) = spsr c" "esr (load_pairs n m c) = esr c"
  "xr (load_pairs n m c) i = (if i < 2 * n then field m (sp c) i else xr c i)"
proof (induction n)
  case (Suc n)
  { case 1 then show ?case using Suc by (simp add: ldp_def) }
  { case 2 then show ?case using Suc by (simp add: ldp_def) }
  { case 3 then show ?case using Suc by (simp add: ldp_def) }
  { case 4 then show ?case using Suc by (simp add: ldp_def) }
  { case 5 then show ?case using Suc by (simp add: ldp_def) }
  { case 6 then show ?case unfolding load_pairs.simps ldp_fields using Suc by (auto simp: less_Suc_eq) }
qed simp_all

section \<open>The frame after entry, the registers after return\<close>

text \<open>\<open>n\<close> is the number that the handlers store with the frame.\<close>

definition entered :: "cpu \<Rightarrow> u64 \<Rightarrow> cpu \<Rightarrow> memory \<Rightarrow> bool" where
  "entered c n c' m' \<longleftrightarrow> sp c' = sp c - 288 \<and> xr c' 0 = sp c' \<and> load_TrapFrame m' (sp c')
     = \<lparr>tf_x = map (xr c) [0..<31], tf_sp0 = sp_el0 c, tf_trapno = n, tf_esr = esr c, tf_elr = elr c, tf_spsr = spsr c\<rparr>"

lemma kernel_entry_saves:
  assumes "kernel_entry c m = (c1, m1)"
  shows "sp c1 = sp c - 288" "esr c1 = esr c" "elr c1 = elr c" "spsr c1 = spsr c"
    "i < 31 \<Longrightarrow> field m1 (sp c1) i = xr c i" "field m1 (sp c1) 31 = sp_el0 c"
proof -
  let ?c = "c\<lparr>sp := sp c - 288\<rparr>"
  have e: "c1 = set_x 0 (sp_el0 c) ?c" "m1 = stp (xr c 30) (sp_el0 c) (sp ?c + of_nat (16 * 15)) (store_pairs 15 ?c m)"
    using assms by (simp_all add: kernel_entry_def Let_def)
  show "sp c1 = sp c - 288" "esr c1 = esr c" "elr c1 = elr c" "spsr c1 = spsr c" by (simp_all add: e(1))
  have f: "field m1 (sp c1) i = (if i = 30 then xr c 30 else if i = 31 then sp_el0 c else if i < 30 then xr c i else field m (sp c1) i)"
    if "i < 36" for i
    using field_stp [of i 15 "xr c 30" "sp_el0 c" "sp ?c" "store_pairs 15 ?c m"] field_store_pairs [of 15 i ?c m] that
    unfolding e(2) by (simp add: e(1))
  show "i < 31 \<Longrightarrow> field m1 (sp c1) i = xr c i" using f [of i] by (cases "i = 30") simp_all
  show "field m1 (sp c1) 31 = sp_el0 c" using f [of 31] by simp
qed

lemma handler_entry_saves:
  assumes "handler_entry (c, m) = (c1, m1)"
  shows "sp c1 = sp c" "xr c1 0 = sp c"
    "i < 36 \<Longrightarrow> field m1 (sp c) i = (if i < 32 then field m (sp c) i else [xr c 0, esr c, elr c, spsr c] ! (i - 32))"
proof -
  have m1: "m1 = stp (elr c) (spsr c) (sp c + of_nat (16 * 17)) (stp (xr c 0) (esr c) (sp c + of_nat (16 * 16)) m)"
    and c1: "sp c1 = sp c" "xr c1 0 = sp c"
    using assms by (auto simp: handler_entry_def Let_def)
  show "sp c1 = sp c" "xr c1 0 = sp c" using c1 by simp_all
  show "field m1 (sp c) i = (if i < 32 then field m (sp c) i else [xr c 0, esr c, elr c, spsr c] ! (i - 32))" if "i < 36"
  proof -
    have "i < 32 \<or> i = 32 \<or> i = 33 \<or> i = 34 \<or> i = 35" using that by linarith
    moreover have "i < 2 ^ 31" using that by simp
    ultimately show ?thesis
      unfolding m1 using field_stp [of i 17] field_stp [of i 16] by auto
  qed
qed

lemma entered_frame:
  assumes "kernel_entry c m = (c1, m1)" "handler_entry (c2, m1) = (c3, m3)" "xr c2 0 = n"
    "sp c2 = sp c1" "esr c2 = esr c1" "elr c2 = elr c1" "spsr c2 = spsr c1"
  shows "entered c n c3 m3"
proof -
  note k = kernel_entry_saves [OF assms(1)] and h = handler_entry_saves [OF assms(2)]
  have "map (field m3 (sp c3)) [0..<31] = map (xr c) [0..<31]"
    by (rule map_cong [OF refl]) (use h k(5) assms(4) in simp)
  then show ?thesis
    using h k assms(3-7) by (simp add: entered_def load_TrapFrame_def)
qed

lemma sync_entered: "sync_handler c m = (c1, m1) \<Longrightarrow> entered c (if drop_bit 26 (esr c) = 0x15 then 3 else 1) c1 m1"
  using kernel_entry_saves(2) [of c m]
  by (auto simp: sync_handler_def Let_def split: prod.splits intro!: entered_frame)

lemma irq_entered: "irq_handler c m = (c1, m1) \<Longrightarrow> entered c 2 c1 m1"
  by (auto simp: irq_handler_def Let_def split: prod.splits intro!: entered_frame)

lemma trap_return_loads:
  assumes "load_TrapFrame m (sp c) = f"
  shows "i < 31 \<Longrightarrow> xr (trap_return_code m c) i = tf_x f ! i" "sp (trap_return_code m c) = sp c + 288"
    "sp_el0 (trap_return_code m c) = tf_sp0 f" "elr (trap_return_code m c) = tf_elr f" "spsr (trap_return_code m c) = tf_spsr f"
proof -
  define c1 where "c1 = (let c = ldp 0 1 (sp c + of_nat (16 * 17)) m c in c\<lparr>elr := xr c 0, spsr := xr c 1\<rparr>)"
  have c1: "sp c1 = sp c" "elr c1 = field m (sp c) 34" "spsr c1 = field m (sp c) 35"
    unfolding c1_def ldp_fields by (simp_all add: Let_def)
  define c2 where "c2 = (let c = ldp 30 0 (sp c1 + of_nat (16 * 15)) m c1 in c\<lparr>sp_el0 := xr c 0\<rparr>)"
  have c2: "sp c2 = sp c" "elr c2 = field m (sp c) 34" "spsr c2 = field m (sp c) 35" "xr c2 30 = field m (sp c) 30"
    "sp_el0 c2 = field m (sp c) 31"
    unfolding c2_def ldp_fields by (simp_all add: Let_def c1)
  have r: "trap_return_code m c = (load_pairs 15 m c2)\<lparr>sp := sp c + of_nat (36 * 8)\<rparr>"
    by (simp add: trap_return_code_def kernel_exit_def Let_def c1_def c2_def load_pairs_fields ldp_def)
  note l = load_pairs_fields [of 15 m c2]
  show "sp (trap_return_code m c) = sp c + 288" by (simp add: r)
  show "sp_el0 (trap_return_code m c) = tf_sp0 f" "elr (trap_return_code m c) = tf_elr f" "spsr (trap_return_code m c) = tf_spsr f"
    using assms by (auto simp: r l c2 load_TrapFrame_def)
  show "xr (trap_return_code m c) i = tf_x f ! i" if "i < 31"
    using assms that c2(1,4) by (cases "i = 30") (auto simp: r l load_TrapFrame_def)
qed

section \<open>Trap and return\<close>

text \<open>\<open>c'\<close> is back in the program that trapped with \<open>c\<close>, with \<open>v\<close> as the result.\<close>

definition goes_on :: "cpu \<Rightarrow> u64 \<Rightarrow> cpu \<Rightarrow> bool" where
  "goes_on c v c' \<longleftrightarrow> xr c' 0 = v \<and> (\<forall>i \<in> {1..<31}. xr c' i = xr c i) \<and> sp_el0 c' = sp_el0 c \<and> elr c' = elr c \<and> spsr c' = spsr c"

lemma enteredD:
  assumes "entered c n c1 m"
  shows "sp c1 = sp c - 288" "xr c1 0 = sp c1" "field m (sp c1) i = xr c i \<or> 31 \<le> i" "field m (sp c1) 31 = sp_el0 c"
    "field m (sp c1) 32 = n" "field m (sp c1) 33 = esr c" "field m (sp c1) 34 = elr c" "field m (sp c1) 35 = spsr c"
proof -
  have f: "map (field m (sp c1)) [0..<31] = map (xr c) [0..<31]"
    using assms unfolding entered_def load_TrapFrame_def TrapFrame.ext_inject by blast
  show "field m (sp c1) i = xr c i \<or> 31 \<le> i"
    using arg_cong [OF f, of "\<lambda>xs. xs ! i"] by (cases "i < 31") simp_all
qed (use assms in \<open>unfold entered_def load_TrapFrame_def TrapFrame.ext_inject, blast+\<close>)

lemma frame_goes_on:
  assumes "entered c n c1 m" "sp c2 = tf" "\<And>k. k < 36 \<Longrightarrow> field m' tf k = (if k = 0 then v else field m (sp c1) k)"
  shows "goes_on c v (trap_return_code m' c2)" "sp (trap_return_code m' c2) = tf + 288"
proof -
  note r = trap_return_loads [OF refl, where m = m' and c = c2] and e = enteredD [OF assms(1)]
  have x: "xr (trap_return_code m' c2) i = (if i = 0 then v else xr c i)" if "i < 31" for i
    using r(1) [OF that] assms(3) [of i] that e(3) [of i] by (simp add: load_TrapFrame_def assms(2) del: upt_rec_numeral)
  show "goes_on c v (trap_return_code m' c2)"
    using x r(3-5) assms(3) e(4-8) by (simp add: goes_on_def load_TrapFrame_def assms(2) del: upt_rec_numeral)
  show "sp (trap_return_code m' c2) = tf + 288" using r(2) by (simp add: assms(2))
qed

lemma field_cong:
  assumes "\<And>l. 8 * k \<le> l \<Longrightarrow> l < 8 * k + 8 \<Longrightarrow> m (a + of_nat l) = m' (b + of_nat l)"
  shows "field m a k = field m' b k"
proof -
  have "(rd n m a :: u64) = rd n m' b" if "\<And>i. i < n \<Longrightarrow> m (a + of_nat i) = m' (b + of_nat i)" for n a b
    using that
  proof (induction n arbitrary: a b)
    case (Suc n)
    have "(rd n m (a + 1) :: u64) = rd n m' (b + 1)"
    proof (rule Suc.IH)
      fix i assume "i < n"
      then show "m (a + 1 + of_nat i) = m' (b + 1 + of_nat i)" using Suc.prems [of "Suc i"] by (simp add: add.assoc)
    qed
    then show ?case using Suc.prems [of 0] by simp
  qed simp
  from this [of 8 "a + of_nat (8 * k)" "b + of_nat (8 * k)"] show ?thesis
    unfolding field_def using assms [of "8 * k + _"] by (simp add: add.assoc)
qed

text \<open>The frame after the result is written.\<close>

lemma field_result: "k < 36 \<Longrightarrow> field (st64 m tf v) tf k = (if k = 0 then v else field m tf k)"
  using field_st64 [of k 0 m tf v] by simp

text \<open>
  Property C18: a trap and its return. A program that traps with the registers \<open>c\<close> finds its trap number in the frame
  that the handler is given: 3 for a system call and 1 for any other exception. If the frame still has these
  values on return, but for the result \<open>v\<close> in \<open>x0\<close>, then the program goes on with all the registers
  and the state it had, \<open>v\<close> in \<open>x0\<close>, and the kernel's stack pointer is back where it was.
\<close>

theorem trap_round_trip:
  assumes "sync_handler c m = (c1, m1)" "sp c2 = sp c1"
    "load_TrapFrame m' (sp c1) = (load_TrapFrame m1 (sp c1))\<lparr>tf_x := (tf_x (load_TrapFrame m1 (sp c1)))[0 := v]\<rparr>"
  shows "xr c1 0 = sp c1 \<and> field m1 (sp c1) 32 = (if drop_bit 26 (esr c) = 0x15 then 3 else 1)
     \<and> goes_on c v (trap_return_code m' c2) \<and> sp (trap_return_code m' c2) = sp c"
proof -
  note en = sync_entered [OF assms(1)]
  note r = trap_return_loads [OF assms(3) [folded assms(2)]]
  have f: "load_TrapFrame m1 (sp c1) = \<lparr>tf_x = map (xr c) [0..<31], tf_sp0 = sp_el0 c,
      tf_trapno = (if drop_bit 26 (esr c) = 0x15 then 3 else 1), tf_esr = esr c, tf_elr = elr c, tf_spsr = spsr c\<rparr>"
    using en unfolding entered_def by blast
  have "xr (trap_return_code m' c2) i = (if i = 0 then v else xr c i)" if "i < 31" for i
    using r(1) [OF that] that by (simp add: f assms(2) nth_list_update del: upt_rec_numeral)
  then have "goes_on c v (trap_return_code m' c2)" using r(3-5) by (simp add: goes_on_def f [folded assms(2)])
  with r(2) enteredD(1,2,5) [OF en] assms(2) show ?thesis by simp
qed

text \<open>A sample program: it asks for its process id, with the kernel's stack at 0x10000 and its own state in the rest.\<close>

definition sample_cpu :: "u64 \<Rightarrow> u64 \<Rightarrow> cpu" where
  "sample_cpu n a = \<lparr>xr = (\<lambda>i. of_nat i)(0 := 0, 8 := n), sp = a, sp_el0 = 0x5ffff0, elr = 0x400010, spsr = 0,
     esr = push_bit 26 0x15\<rparr>"

lemma sample_cpu_svc: "drop_bit 26 (esr (sample_cpu n a)) = 0x15" "xr (sample_cpu n a) 8 = n" "xr (sample_cpu n a) 0 = 0" "sp (sample_cpu n a) = a"
  by (simp_all add: sample_cpu_def)

lemma trap_round_trip_witness:
  "\<exists>c1 m1. sync_handler (sample_cpu 9 0x10000) (\<lambda>_. 0) = (c1, m1) \<and> field m1 (sp c1) 32 = 3
     \<and> goes_on (sample_cpu 9 0x10000) 5 (trap_return_code (st64 m1 (sp c1) 5) c1)"
proof -
  let ?c = "sample_cpu 9 0x10000"
  obtain c1 m1 where s: "sync_handler ?c (\<lambda>_. 0) = (c1, m1)" by (cases "sync_handler ?c (\<lambda>_. 0)")
  have f: "field (st64 m1 (sp c1) 5) (sp c1) k = (if k = 0 then 5 else field m1 (sp c1) k)" if "k < 36" for k
    by (rule field_result [OF that])
  have "map (field (st64 m1 (sp c1) 5) (sp c1)) [0..<31] = (map (field m1 (sp c1)) [0..<31])[0 := 5]"
    by (rule nth_equalityI) (auto simp: f nth_list_update simp del: upt_rec_numeral)
  then have "load_TrapFrame (st64 m1 (sp c1) 5) (sp c1)
      = (load_TrapFrame m1 (sp c1))\<lparr>tf_x := (tf_x (load_TrapFrame m1 (sp c1)))[0 := 5]\<rparr>"
    by (simp add: load_TrapFrame_def f del: upt_rec_numeral)
  from trap_round_trip [OF s refl this] s show ?thesis by (auto simp: sample_cpu_svc)
qed

section \<open>System calls as the program sees them\<close>

lemma call_fields:
  assumes "entered c 3 c1 (mem s)"
  shows "exception_handler (sp c1) s = system_call (sp c1) s" "ld64 (mem s) (sp c1) = xr c 0" "ld64 (mem s) (sp c1 + 8) = xr c 1"
    "ld64 (mem s) (sp c1 + 64) = xr c 8"
  using enteredD(3) [OF assms, of 0] enteredD(3) [OF assms, of 1] enteredD(3) [OF assms, of 8] enteredD(5) [OF assms]
  by (simp_all add: exception_handler_def field_def Let_def del: rd.simps)

lemma svc_entered: "sync_handler c m = (c1, m1) \<Longrightarrow> drop_bit 26 (esr c) = 0x15 \<Longrightarrow> entered c 3 c1 m1"
  using sync_entered [of c m c1 m1] by simp

text \<open>
  \<open>getpid\<close> from the \<open>svc\<close> instruction to the instruction after it. The program has its process id, sign
  extended, in \<open>x0\<close>, and every other register, its stack pointer and its program state as they were.
\<close>

theorem getpid_round_trip:
  fixes s :: kernel
  assumes "drop_bit 26 (esr c) = 0x15" "xr c 8 = 9" "0 \<le> sint (xr c 0)" "sync_handler c (mem s) = (c1, m1)" "sp c2 = sp c1"
  shows "\<exists>m'. exception_handler (sp c1) (s\<lparr>mem := m1\<rparr>) = Inr (Done (), s\<lparr>mem := m'\<rparr>)
     \<and> goes_on c (scast (p_pid (process_table s (current_process s)))) (trap_return_code m' c2)
     \<and> sp (trap_return_code m' c2) = sp c"
proof -
  let ?v = "scast (p_pid (process_table s (current_process s))) :: u64"
  have en: "entered c 3 c1 (mem (s\<lparr>mem := m1\<rparr>))" using svc_entered [OF assms(4,1)] by simp
  note cf = call_fields [OF en]
  have "exception_handler (sp c1) (s\<lparr>mem := m1\<rparr>) = Inr (Done (), s\<lparr>mem := st64 m1 (sp c1) ?v\<rparr>)"
    using cf assms(2,3) by (simp add: system_call_def system_calls_def sys_getpid_def set_result_def Let_def del: rd.simps wr.simps)
  moreover have "field (st64 m1 (sp c1) ?v) (sp c1) k = (if k = 0 then ?v else field m1 (sp c1) k)" if "k < 36" for k
    using field_result [OF that] .
  then have "goes_on c ?v (trap_return_code (st64 m1 (sp c1) ?v) c2)" "sp (trap_return_code (st64 m1 (sp c1) ?v) c2) = sp c1 + 288"
    using frame_goes_on [OF svc_entered [OF assms(4,1)] assms(5)] by simp_all
  ultimately show ?thesis using enteredD(1) [OF en] by auto
qed

lemma getpid_round_trip_witness:
  "\<exists>(s :: kernel) c1 m1 m'. sync_handler (sample_cpu 9 0x10000) (mem s) = (c1, m1)
     \<and> exception_handler (sp c1) (s\<lparr>mem := m1\<rparr>) = Inr (Done (), s\<lparr>mem := m'\<rparr>)
     \<and> goes_on (sample_cpu 9 0x10000) 1 (trap_return_code m' c1)"
proof -
  obtain s T ps where "running s T ps" using sample_running by blast
  then have p: "p_pid (process_table s (current_process s)) = 1" by (simp add: running_def)
  obtain c1 m1 where e: "sync_handler (sample_cpu 9 0x10000) (mem s) = (c1, m1)"
    by (cases "sync_handler (sample_cpu 9 0x10000) (mem s)")
  have "0 \<le> sint (xr (sample_cpu 9 0x10000) 0)" by (simp add: sample_cpu_svc)
  from getpid_round_trip [OF sample_cpu_svc(1,2) this e refl] e p show ?thesis by auto
qed

text \<open>A trap writes its frame and nothing else.\<close>

lemma stp_other:
  assumes "\<not> in_range q 2097152 x" "j + 16 \<le> 2097152"
  shows "stp v w (q + of_nat j) m x = m x"
  using st64_in_page [OF assms(1), of j] st64_in_page [OF assms(1), of "j + 8"] assms(2)
  by (simp add: stp_def add.assoc add.commute)

lemma store_pairs_other:
  assumes "\<not> in_range q 2097152 x" "sp c = q + of_nat j" "j + 16 * n \<le> 2097152"
  shows "store_pairs n c m x = m x"
  using assms(3)
proof (induction n)
  case (Suc n)
  have "stp v w (sp c + of_nat (16 * n)) (store_pairs n c m) x = store_pairs n c m x" for v w
    using stp_other [OF assms(1), of "j + 16 * n"] Suc.prems by (simp add: assms(2) add.assoc)
  with Suc show ?case unfolding store_pairs.simps by simp
qed simp

lemma kernel_entry_other:
  assumes "\<not> in_range q 2097152 x" "sp c - 288 = q + of_nat j" "j + 288 \<le> 2097152" "kernel_entry c m = (c1, m1)"
  shows "m1 x = m x"
proof -
  let ?c = "c\<lparr>sp := sp c - 288\<rparr>"
  have "m1 = stp (xr c 30) (sp_el0 c) (q + of_nat (j + 240)) (store_pairs 15 ?c m)"
    using assms(2,4) by (auto simp: kernel_entry_def Let_def add.assoc)
  then show ?thesis
    using stp_other [OF assms(1), of "j + 240"] store_pairs_other [OF assms(1), of ?c j 15] assms(2,3) by simp
qed

lemma handler_entry_other:
  assumes "\<not> in_range q 2097152 x" "sp c = q + of_nat j" "j + 288 \<le> 2097152" "handler_entry (c, m) = (c1, m1)"
  shows "m1 x = m x"
proof -
  have "m1 = stp (elr c) (spsr c) (q + of_nat (j + 272)) (stp (xr c 0) (esr c) (q + of_nat (j + 256)) m)"
    using assms(2,4) by (auto simp: handler_entry_def Let_def add.assoc)
  then show ?thesis
    using stp_other [OF assms(1), of "j + 272"] stp_other [OF assms(1), of "j + 256"] assms(3) by simp
qed

lemma sync_other:
  assumes "\<not> in_range q 2097152 x" "sp c - 288 = q + of_nat j" "j + 288 \<le> 2097152" "sync_handler c m = (c1, m1)"
  shows "m1 x = m x"
proof -
  obtain c2 m2 where k: "kernel_entry c m = (c2, m2)" by (cases "kernel_entry c m")
  then obtain c3 where c3: "handler_entry (c3, m2) = (c1, m1)" "sp c3 = sp c2"
    using assms(4) by (fastforce simp: sync_handler_def Let_def)
  have "sp c3 = q + of_nat j" using kernel_entry_saves(1) [OF k] c3(2) assms(2) by simp
  from handler_entry_other [OF assms(1) this assms(3) c3(1)] kernel_entry_other [OF assms(1-3) k]
  show ?thesis by simp
qed

lemma trap_kernel_inv:
  assumes "kernel_inv s R W K T ps" "i \<in> live s" "sp c = p_tf (process_table s i) + 288" "sync_handler c (mem s) = (c1, m1)"
  shows "kernel_inv (s\<lparr>mem := m1\<rparr>) R W K T ps" "sp c1 = p_tf (process_table s i)"
proof -
  have "sp c - 288 = p_stack (process_table s i) + of_nat 2096864"
    using kernel_invD(8) [OF assms(1,2)] assms(3) by (simp add: process_ok_def PAGE_SIZE_def TRAPFRAME_SIZE_def)
  from sync_other [OF _ this _ assms(4)] show "kernel_inv (s\<lparr>mem := m1\<rparr>) R W K T ps"
    by (intro kernel_inv_stack_write [OF assms(1,2)]) simp
  show "sp c1 = p_tf (process_table s i)" using enteredD(1) [OF sync_entered [OF assms(4)]] assms(3) by simp
qed

lemma frame_in_stack:
  assumes "process_ok m e p T" "l < 288"
  shows "in_range (p_stack p) 2097152 (p_tf p + of_nat l)"
proof -
  have e: "p_tf p + of_nat l = p_stack p + of_nat (2096864 + l)"
    using assms(1) by (simp add: process_ok_def PAGE_SIZE_def TRAPFRAME_SIZE_def)
  have "2096864 + l < 2097152" using assms(2) by simp
  then show ?thesis unfolding e by (subst in_range_add) (simp, blast)
qed

text \<open>The frames of the parent and of the child when the parent returns from \<open>fork\<close>.\<close>

lemma fork_frames:
  fixes s :: kernel
  defines "p \<equiv> process_table s (current_process s)"
  assumes "kernel_inv s R W K T ps" "current_process s \<noteq> 0" "counts_below (2 ^ 31 - 101) s" "sint (pid_num s) < 2 ^ 31 - 1"
    "find_unused_process s = Some i" "5 \<le> length ps"
  shows "\<exists>s'. set_result (p_tf p) (sys_fork a s) = Inr (Done (), s') \<and> p_pid (process_table s' i) = pid_num s
     \<and> (\<forall>k<36. field (mem s') (p_tf p) k = (if k = 0 then scast (pid_num s) else field (mem s) (p_tf p) k))
     \<and> (\<forall>k<36. field (mem s') (p_tf (process_table s' i)) k = (if k = 0 then 0 else field (mem s) (p_tf p) k))"
proof -
  let ?c = "current_process s"
  obtain s1 S ps' where s1: "fork s = Inr (pid_num s, s1)" "kernel_inv s1 (R @ [i]) W K (T(i := S)) ps'"
    "p_pid (process_table s1 i) = pid_num s" "ld64 (mem s1) (p_tf (process_table s1 i)) = 0"
    "\<forall>k. 8 \<le> k \<and> k < 288 \<longrightarrow> mem s1 (p_tf (process_table s1 i) + of_nat k) = mem s (p_tf p + of_nat k)"
    "keeps_pages (set ps) s s1" "live s1 = insert i (live s)" "p_tf (process_table s1 ?c) = p_tf p"
    "current_process s1 = ?c"
    using fork_runs [OF assms(2-7)] unfolding p_def by blast
  let ?ch = "process_table s1 i" let ?m = "st64 (mem s1) (p_tf p) (scast (pid_num s))"
  have c: "?c \<in> live s" using live_running(1) [OF assms(2,3)] .
  have ic: "i \<noteq> ?c" using free_slot(3) [OF kernel_invD(1) [OF assms(2)] assms(6)] .
  have ok: "process_ok (mem s) (kernel_end s) p (T ?c)" using kernel_invD(8) [OF assms(2) c] by (simp add: p_def)
  have okc: "process_ok (mem s1) (kernel_end s1) ?ch S" using kernel_invD(8) [OF s1(2), of i] s1(7) by simp
  have okp: "process_ok (mem s1) (kernel_end s1) (process_table s1 ?c) (T ?c)"
    using kernel_invD(8) [OF s1(2), of ?c] s1(7) c ic by simp
  have "p_stack p \<notin> set ps" "page_ok (kernel_end s) (p_stack p)" using private_pages [OF assms(2) c c] by (simp_all add: p_def)
  then have "same_page (mem s) (mem s1) (p_stack p)" using s1(6) by (simp add: keeps_pages_def)
  then have par: "field (mem s1) (p_tf p) k = field (mem s) (p_tf p) k" if "k < 36" for k
    using frame_in_stack [OF ok] that by (intro field_cong) (simp add: same_page_def)
  have ne: "p_stack (process_table s1 ?c) \<noteq> p_stack ?ch"
    using memory_okD(4) [OF kernel_invD(2) [OF s1(2)], of ?c i] s1(7) c ic by (auto simp: owned_def)
  have pk: "page_ok (kernel_end s1) (p_stack ?ch)" "page_ok (kernel_end s1) (p_stack (process_table s1 ?c))"
    using okc okp by (simp_all add: process_ok_def)
  have "?m (p_tf ?ch + of_nat l) = mem s1 (p_tf ?ch + of_nat l)" if "l < 288" for l
    using frame_write_in_stack [OF s1(2), of ?c "p_tf p"] s1(7,8) c not_in_other_page [OF pk(1,2) ne [symmetric] frame_in_stack [OF okc that]]
    by auto
  then have "field ?m (p_tf ?ch) k = field (mem s1) (p_tf ?ch) k" if "k < 36" for k
    using that by (intro field_cong) simp
  moreover have "field (mem s1) (p_tf ?ch) k = field (mem s) (p_tf p) k" if "k < 36" "k \<noteq> 0" for k
    using that s1(5) by (intro field_cong) simp
  moreover have "field (mem s1) (p_tf ?ch) 0 = 0" using s1(4) by (simp add: field_def)
  ultimately have "field ?m (p_tf ?ch) k = (if k = 0 then 0 else field (mem s) (p_tf p) k)" if "k < 36" for k
    using that by simp
  moreover have "set_result (p_tf p) (sys_fork a s) = Inr (Done (), s1\<lparr>mem := ?m\<rparr>)"
    by (simp add: sys_fork_def s1(1) set_result_def int_result_def)
  ultimately show ?thesis
    using s1(3) par field_result by (intro exI [of _ "s1\<lparr>mem := ?m\<rparr>"]) simp
qed

text \<open>
  Property C8: \<open>fork\<close> returns twice. When a process traps to call \<open>fork\<close>, it goes on with all its registers and the child's process
  id in \<open>x0\<close>, and the child, started from the trap frame that was made for it, goes on at the same instruction with the same
  registers and 0 in \<open>x0\<close>.
\<close>

theorem fork_returns_twice:
  fixes s :: kernel
  defines "p \<equiv> process_table s (current_process s)"
  assumes "kernel_inv s R W K T ps" "current_process s \<noteq> 0" "counts_below (2 ^ 31 - 101) s" "sint (pid_num s) < 2 ^ 31 - 1"
    "find_unused_process s = Some i" "5 \<le> length ps" "sp c = p_tf p + 288" "drop_bit 26 (esr c) = 0x15" "xr c 8 = 8"
    "0 \<le> sint (xr c 0)" "sync_handler c (mem s) = (c1, m1)"
  shows "\<exists>s'. exception_handler (sp c1) (s\<lparr>mem := m1\<rparr>) = Inr (Done (), s') \<and> p_pid (process_table s' i) = pid_num s
     \<and> (\<forall>c2. goes_on c (scast (pid_num s)) (trap_return_code (mem s') (c2\<lparr>sp := sp c1\<rparr>)))
     \<and> (\<forall>c2. goes_on c 0 (trap_return_code (mem s') (c2\<lparr>sp := p_tf (process_table s' i)\<rparr>)))"
proof -
  let ?s = "s\<lparr>mem := m1\<rparr>"
  have tf: "sp c1 = p_tf p" and inv: "kernel_inv ?s R W K T ps"
    using trap_kernel_inv [OF assms(2) live_running(1) [OF assms(2,3)] _ assms(12)] assms(8) by (simp_all add: p_def)
  have en: "entered c 3 c1 m1" using svc_entered [OF assms(12,9)] .
  note cf = call_fields [of c c1 ?s]
  have "find_unused_process ?s = Some i" "counts_below (2 ^ 31 - 101) ?s"
    using assms(4,6) by (simp_all add: find_unused_process_def counts_below_def)
  from fork_frames [OF inv _ this(2) _ this(1) assms(7), of "xr c 1"] assms(3,5)
  obtain s' where s': "set_result (p_tf p) (sys_fork (xr c 1) ?s) = Inr (Done (), s')" "p_pid (process_table s' i) = pid_num s"
    "\<forall>k<36. field (mem s') (p_tf p) k = (if k = 0 then scast (pid_num s) else field m1 (p_tf p) k)"
    "\<forall>k<36. field (mem s') (p_tf (process_table s' i)) k = (if k = 0 then 0 else field m1 (p_tf p) k)"
    by (auto simp: p_def)
  have "exception_handler (sp c1) ?s = Inr (Done (), s')"
    using cf en s'(1) assms(10,11) by (simp add: system_call_def system_calls_def Let_def tf del: rd.simps wr.simps)
  moreover have "goes_on c (scast (pid_num s)) (trap_return_code (mem s') (c2\<lparr>sp := sp c1\<rparr>))" for c2
    using s'(3) by (intro frame_goes_on(1) [OF en, where tf = "sp c1"]) (simp_all add: tf)
  moreover have "goes_on c 0 (trap_return_code (mem s') (c2\<lparr>sp := p_tf (process_table s' i)\<rparr>))" for c2
    using s'(4) by (intro frame_goes_on(1) [OF en refl]) (simp_all add: tf)
  ultimately show ?thesis using s'(2) by blast
qed

lemma fork_returns_twice_witness:
  "\<exists>s c c1 m1 s' i c2 c3. current_process s = 1 \<and> sync_handler c (mem s) = (c1, m1)
     \<and> exception_handler (sp c1) (s\<lparr>mem := m1\<rparr>) = Inr (Done (), s') \<and> p_pid (process_table s' i) = 2
     \<and> goes_on c 2 (trap_return_code (mem s') c2) \<and> goes_on c 0 (trap_return_code (mem s') c3)"
proof -
  obtain s T ps where s: "running s T ps" using sample_running by blast
  then have inv: "kernel_inv s [] [] [] T ps" and c: "current_process s = 1" by (simp_all add: running_def)
  have "find_unused_process s \<noteq> None" using free_slot_exists [OF kernel_invD(1) [OF inv]] by simp
  then obtain i where i: "find_unused_process s = Some i" by blast
  have b: "counts_below (2 ^ 31 - 101) s" "current_process s \<noteq> 0" "sint (pid_num s) < 2 ^ 31 - 1" "5 \<le> length ps"
    "pid_num s = 2"
    using s fresh_filesD(1) by (simp_all add: running_def)
  let ?c = "sample_cpu 8 (p_tf (process_table s (current_process s)) + 288)"
  obtain c1 m1 where e: "sync_handler ?c (mem s) = (c1, m1)" by (cases "sync_handler ?c (mem s)")
  have "0 \<le> sint (xr ?c 0)" by (simp add: sample_cpu_svc)
  from fork_returns_twice [OF inv b(2,1,3) i b(4) sample_cpu_svc(4,1,2) this e] b(5) c e show ?thesis by auto blast
qed

section \<open>Switching\<close>

text \<open>
  The twelve words at \<open>sp\<close> hold \<open>x19\<close> to \<open>x30\<close> after a switch.
\<close>

lemma save_callee_fields:
  "n \<le> 6 \<Longrightarrow> i < 12 \<Longrightarrow> field (save_callee n c m) (sp c) i = (if i < 2 * n then xr c (19 + i) else field m (sp c) i)"
proof (induction n)
  case (Suc n)
  have "i < 2 ^ 31" "n < 2 ^ 31" using Suc.prems by simp_all
  from field_stp [OF this] Suc show ?case
    unfolding save_callee.simps by (auto simp: less_Suc_eq add.commute)
qed simp

lemma load_callee_fields:
  "sp (load_callee n m c) = sp c"
  "19 \<le> i \<Longrightarrow> i < 19 + 2 * n \<Longrightarrow> xr (load_callee n m c) i = field m (sp c) (i - 19)"
proof (induction n)
  case (Suc n)
  { case 1 then show ?case using Suc by (simp add: ldp_def) }
  { case 2
    then have "i - 19 = 2 * n \<or> i - 19 = 2 * n + 1 \<or> i < 19 + 2 * n" by auto
    then show ?case unfolding load_callee.simps ldp_fields using 2 Suc by auto }
qed simp_all

lemma swap_spec:
  assumes "swap c m = (c1, m1)"
  shows "m1 = st64 (save_callee 6 (c\<lparr>sp := sp c - 96\<rparr>) m) (xr c 0) (sp c - 96)" "sp c1 = xr c 1 + 96"
    "i \<in> {19..<31} \<Longrightarrow> xr c1 i = field m1 (xr c 1) (i - 19)"
proof -
  let ?c = "set_x 2 (sp c - 96) (c\<lparr>sp := sp c - 96\<rparr>)"
  show m: "m1 = st64 (save_callee 6 (c\<lparr>sp := sp c - 96\<rparr>) m) (xr c 0) (sp c - 96)"
    using assms by (auto simp: swap_def Let_def)
  have c: "c1 = (load_callee 6 m1 (?c\<lparr>sp := xr c 1\<rparr>))\<lparr>sp := sp (load_callee 6 m1 (?c\<lparr>sp := xr c 1\<rparr>)) + 96\<rparr>"
    using assms m by (auto simp: swap_def Let_def)
  show "sp c1 = xr c 1 + 96" by (simp add: c load_callee_fields)
  show "i \<in> {19..<31} \<Longrightarrow> xr c1 i = field m1 (xr c 1) (i - 19)" by (simp add: c load_callee_fields)
qed

text \<open>
  Property C28: \<open>swap\<close> away and back. The context pointer of a process that is switched away from points to the
  words saved on its stack; when another process switches to that pointer and the words are still there, the
  registers that a C function keeps, the return address and the stack pointer are all as they were.
\<close>

theorem swap_round_trip:
  assumes "swap c m = (c1, m1)" "\<forall>k<8. \<forall>l<96. sp c - 96 + of_nat l \<noteq> xr c 0 + of_nat k"
    "swap c2 m2 = (c3, m3)" "xr c2 1 = ld64 m1 (xr c 0)" "\<forall>l<96. m3 (sp c - 96 + of_nat l) = m1 (sp c - 96 + of_nat l)"
  shows "ld64 m1 (xr c 0) = sp c - 96 \<and> (\<forall>i \<in> {19..<31}. xr c3 i = xr c i) \<and> sp c3 = sp c"
proof -
  let ?c = "c\<lparr>sp := sp c - 96\<rparr>"
  note m1 = swap_spec(1) [OF assms(1)] and s3 = swap_spec(2,3) [OF assms(3)]
  have p: "ld64 m1 (xr c 0) = sp c - 96" by (simp add: m1 del: rd.simps wr.simps)
  have "field m3 (sp c - 96) k = xr c (19 + k)" if "k < 12" for k
  proof -
    have "field m3 (sp c - 96) k = field (save_callee 6 ?c m) (sp c - 96) k"
    proof (rule field_cong)
      fix l assume "8 * k \<le> l" "l < 8 * k + 8"
      then have l: "l < 96" using that by simp
      then have "m1 (sp c - 96 + of_nat l) = save_callee 6 ?c m (sp c - 96 + of_nat l)"
        unfolding m1 using assms(2) by (intro wr_other) simp
      then show "m3 (sp c - 96 + of_nat l) = save_callee 6 ?c m (sp c - 96 + of_nat l)" using assms(5) l by simp
    qed
    then show ?thesis using save_callee_fields [of 6 k ?c m] that by simp
  qed
  from this [of "i - 19" for i] have "xr c3 i = xr c i" if "i \<in> {19..<31}" for i
    using s3(2) [OF that] that p assms(4) by (simp add: less_diff_conv2)
  then show ?thesis using p s3(1) assms(4) by simp
qed

lemma save_callee_other:
  assumes "\<not> in_range q 2097152 x" "sp c = q + of_nat j" "j + 16 * n \<le> 2097152"
  shows "save_callee n c m x = m x"
  using assms(3)
proof (induction n)
  case (Suc n)
  have "stp v w (sp c + of_nat (16 * n)) (save_callee n c m) x = save_callee n c m x" for v w
    using stp_other [OF assms(1), of "j + 16 * n"] Suc.prems by (simp add: assms(2) add.assoc)
  with Suc show ?case unfolding save_callee.simps by simp
qed simp

text \<open>A second stack, and the context pointers, in another page than the first stack.\<close>

definition sample_switch :: "u64 \<Rightarrow> u64 \<Rightarrow> cpu" where
  "sample_switch a next = \<lparr>xr = (\<lambda>i. of_nat i)(0 := 0x200000, 1 := next), sp = a, sp_el0 = 0, elr = 0, spsr = 0, esr = 0\<rparr>"

lemma swap_round_trip_witness:
  "\<exists>c1 m1 c3 m3. swap (sample_switch 0x10000 0x210000) (\<lambda>_. 0) = (c1, m1)
     \<and> swap (sample_switch 0x220000 (ld64 m1 0x200000)) m1 = (c3, m3) \<and> xr c3 19 = 19 \<and> xr c3 30 = 30 \<and> sp c3 = 0x10000"
proof -
  let ?c = "sample_switch 0x10000 0x210000"
  obtain c1 m1 where s: "swap ?c (\<lambda>_. 0) = (c1, m1)" by (cases "swap ?c (\<lambda>_. 0)")
  let ?c2 = "sample_switch 0x220000 (ld64 m1 0x200000)"
  obtain c3 m3 where s2: "swap ?c2 m1 = (c3, m3)" by (cases "swap ?c2 m1")
  have out: "\<not> in_range 0x200000 2097152 (0xffa0 + of_nat l)" if "l < 96" for l
    using that by (subst in_range_iff) (simp_all add: word_arith)
  have "0xffa0 + of_nat l \<noteq> (0x200000 :: u64) + of_nat k" if "k < 8" "l < 96" for k l
  proof -
    have "in_range 0x200000 2097152 (0x200000 + of_nat k)"
      using that(1) by (subst in_range_iff) (simp_all add: word_arith)
    then show ?thesis using out [OF that(2)] by metis
  qed
  then have "\<forall>k<8. \<forall>l<96. sp ?c - 96 + of_nat l \<noteq> xr ?c 0 + of_nat k" by (simp add: sample_switch_def)
  moreover have "m3 x = m1 x" if "\<not> in_range 0x200000 2097152 x" for x
    using swap_spec(1) [OF s2] save_callee_other [OF that, of "?c2\<lparr>sp := sp ?c2 - 96\<rparr>" "0x1ffa0" 6 m1]
      st64_in_page [OF that, of 0] by (simp add: sample_switch_def)
  then have "\<forall>l<96. m3 (sp ?c - 96 + of_nat l) = m1 (sp ?c - 96 + of_nat l)" using out by (simp add: sample_switch_def)
  ultimately show ?thesis
    using swap_round_trip [OF s _ s2] s s2 by (auto simp: sample_switch_def)
qed

text \<open>The words of a new process's stack, from its context pointer on.\<close>

lemma new_frame_fields:
  assumes "k < 48"
  shows "field (new_frame q r m) (q + of_nat 2096768) k = (if k = 11 then r else if k = 43 then 0x400000 + PAGE_SIZE
     else if k = 46 then 0x400000 else 0)"
proof -
  let ?b = "q + of_nat 2096768" let ?m = "memset m q 0 (ucast PAGE_SIZE)"
  have e: "new_frame q r m = st64 (st64 (st64 (st64 ?m (?b + of_nat (8 * 11)) r) (?b + of_nat (8 * 46)) 0x400000)
      (?b + of_nat (8 * 43)) (0x400000 + PAGE_SIZE)) (?b + of_nat (8 * 47)) 0"
    by (simp add: new_frame_def set_user_entry_def PAGE_SIZE_def TRAPFRAME_SIZE_def del: wr.simps)
  have "?m (?b + of_nat (8 * k) + of_nat l) = 0" if "l < 8" for l
  proof -
    have a: "?b + of_nat (8 * k) + of_nat l = q + of_nat (2096768 + 8 * k + l)" by simp
    have "2096768 + 8 * k + l < 2097152" using assms that by simp
    then have "in_range q 2097152 (?b + of_nat (8 * k) + of_nat l)"
      unfolding a by (subst in_range_add) (simp, blast)
    then show ?thesis by (simp add: memset_eq PAGE_SIZE_def)
  qed
  then have z: "field ?m ?b k = 0" unfolding field_def by (rule rd_zero)
  have k: "k < 2 ^ 32" using assms by simp
  show ?thesis
    unfolding e by (subst field_st64, use k in simp, simp)+ (use z in simp)
qed

text \<open>
  Property C27: a new process starts in its program. The first \<open>swap\<close> to a process that \<open>alloc_new_process\<close> made returns to
  \<open>trap_return\<close>, and that enters the program at 0x400000 with its stack pointer at the end of its page,
  at exception level 0 and with every general register 0.
\<close>

theorem new_process_starts_program:
  fixes s :: kernel
  assumes "heap_inv s ps" "2 \<le> length ps" "alloc_new_process s = Inr (i, s')" "swap c m = (c1, m1)"
    "xr c 1 = p_context (process_table s' i)" "same_page (mem s') m1 (p_stack (process_table s' i))"
  shows "xr c1 30 = trap_return s \<and> (\<forall>k<31. xr (trap_return_code m1 c1) k = 0)
     \<and> sp_el0 (trap_return_code m1 c1) = 0x400000 + PAGE_SIZE \<and> elr (trap_return_code m1 c1) = 0x400000
     \<and> spsr (trap_return_code m1 c1) = 0"
proof -
  obtain q g ps1 where ps: "ps = q # g # ps1" using assms(2) by (cases ps; cases "tl ps"; auto)
  obtain j where j: "find_unused_process s = Some j" using assms(3) by (auto simp: alloc_new_process_def split: option.splits)
  define b where "b = q + of_nat 2096768"
  have "i = j" "p_context (process_table s' i) = b" "p_stack (process_table s' i) = q"
    "same_page (new_frame q (trap_return s) (mem s)) (mem s') q"
    using alloc_new_process_spec [OF j assms(1) [unfolded ps]] assms(3)
    by (auto simp: Let_def update_process_def new_process_def PAGE_SIZE_def TRAPFRAME_SIZE_def b_def)
  then have x1: "xr c 1 = b" and sm: "same_page (new_frame q (trap_return s) (mem s)) m1 q"
    using assms(5,6) same_page_trans by simp_all
  have f: "field m1 b k = (if k = 11 then trap_return s else if k = 43 then 0x400000 + PAGE_SIZE
     else if k = 46 then 0x400000 else 0)" if "k < 48" for k
  proof -
    have "field m1 b k = field (new_frame q (trap_return s) (mem s)) b k"
    proof (rule field_cong)
      fix l assume "8 * k \<le> l" "l < 8 * k + 8"
      then have "2096768 + l < 2097152" using that by simp
      then have "in_range q 2097152 (q + of_nat (2096768 + l))" by (subst in_range_add) (simp, blast)
      then show "m1 (b + of_nat l) = new_frame q (trap_return s) (mem s) (b + of_nat l)"
        using sm by (simp add: same_page_def add.assoc b_def)
    qed
    from trans [OF this new_frame_fields [where q = q, OF that, folded b_def]] show ?thesis .
  qed
  have tf: "field m1 (sp c1) k = field m1 b (k + 12)" for k
    using swap_spec(2) [OF assms(4), unfolded x1] by (simp add: field_def algebra_simps)
  have "xr c1 30 = trap_return s" using swap_spec(3) [OF assms(4), of 30, unfolded x1] f [of 11] by simp
  moreover have "xr (trap_return_code m1 c1) k = 0" if "k < 31" for k
    using trap_return_loads(1) [OF refl that, of m1 c1] that
    by (simp add: load_TrapFrame_def tf f del: upt_rec_numeral)
  ultimately show ?thesis
    using trap_return_loads(3-5) [OF refl, of m1 c1] by (simp add: load_TrapFrame_def tf f)
qed

lemma new_process_starts_program_witness:
  "\<exists>(s :: kernel) i s' c1 m1. alloc_new_process s = Inr (i, s')
     \<and> swap (sample_switch 0x10000 (p_context (process_table s' i))) (mem s') = (c1, m1)
     \<and> elr (trap_return_code m1 c1) = 0x400000"
proof -
  obtain s T ps where s: "running s T ps" using sample_running by blast
  then have inv: "kernel_inv s [] [] [] T ps" and len: "2 \<le> length ps" by (simp_all add: running_def)
  have "find_unused_process s \<noteq> None" using free_slot_exists [OF kernel_invD(1) [OF inv]] by simp
  then obtain i where i: "find_unused_process s = Some i" by blast
  note h = kernel_invD(7) [OF inv]
  obtain q g ps1 where ps: "ps = q # g # ps1" using len by (cases ps; cases "tl ps"; auto)
  obtain s' where s': "alloc_new_process s = Inr (i, s')" "p_stack (process_table s' i) = q"
    using alloc_new_process_spec [OF i h [unfolded ps]] by (auto simp: Let_def update_process_def new_process_def)
  let ?c = "sample_switch 0x10000 (p_context (process_table s' i))"
  obtain c1 m1 where w: "swap ?c (mem s') = (c1, m1)" by (cases "swap ?c (mem s')")
  have "page_ok (kernel_end s) q" using h ps by (simp add: heap_inv_def)
  note q = page_ok_bounds(1,2) [OF this]
  have "m1 x = mem s' x" if "in_range q 2097152 x" for x
  proof -
    have "unat q \<le> unat x" using that q by (subst (asm) in_range_iff) simp_all
    then have x: "\<not> in_range 0 2097152 x" "\<not> in_range 0x200000 2097152 x" using q by (simp_all add: in_range_iff)
    show ?thesis
      using swap_spec(1) [OF w] save_callee_other [OF x(1), of "?c\<lparr>sp := sp ?c - 96\<rparr>" "0xffa0" 6 "mem s'"]
        st64_in_page [OF x(2), of 0] by (simp add: sample_switch_def)
  qed
  then have "same_page (mem s') m1 (p_stack (process_table s' i))" by (simp add: same_page_def s'(2))
  from new_process_starts_program [OF h len s'(1) w _ this] s'(1) w show ?thesis
    by (fastforce simp: sample_switch_def)
qed

end
