(* ===== verification/Mmu.thy ===== *)
theory Mmu
  imports Access
begin

text \<open>
  The boot page tables: \<open>setup_vm\<close> and \<open>enable_mmu\<close> of mmu/mmu.s. They make the direct map that the
  kernel runs in: the theory shows, for every virtual address, the physical address and the kind of memory
  that it has once the MMU is on.
\<close>

section \<open>The tables\<close>

text \<open>The seven tables follow each other, 4096 bytes each, from a 4096 byte boundary that the linker chooses.\<close>

definition pgd_ttbr1 :: "u64 \<Rightarrow> u64" where "pgd_ttbr1 base = base"
definition pud_ttbr1 :: "u64 \<Rightarrow> u64" where "pud_ttbr1 base = base + 1 * 4096"
definition pmd_ttbr1 :: "u64 \<Rightarrow> u64" where "pmd_ttbr1 base = base + 2 * 4096"
definition pmd2_ttbr1 :: "u64 \<Rightarrow> u64" where "pmd2_ttbr1 base = base + 3 * 4096"
definition pgd_ttbr0 :: "u64 \<Rightarrow> u64" where "pgd_ttbr0 base = base + 4 * 4096"
definition pud_ttbr0 :: "u64 \<Rightarrow> u64" where "pud_ttbr0 base = base + 5 * 4096"
definition pmd_ttbr0 :: "u64 \<Rightarrow> u64" where "pmd_ttbr0 base = base + 6 * 4096"

text \<open>The loops \<open>loop1\<close>, \<open>loop2\<close> and \<open>loop3\<close>: store the block entry \<open>x0\<close> at \<open>x1\<close>, for the next 2MB below \<open>x2\<close> again.\<close>

partial_function (option) store_blocks :: "u64 \<Rightarrow> u64 \<Rightarrow> u64 \<Rightarrow> memory \<Rightarrow> (u64 \<times> u64 \<times> memory) option" where
  "store_blocks x2 x0 x1 m =
     (let m = st64 m x1 x0; x1 = x1 + 8; x0 = x0 + PAGE_SIZE in
      if x0 < x2 then store_blocks x2 x0 x1 m else Some (x0, x1, m))"

definition setup_kvm :: "u64 \<Rightarrow> memory \<Rightarrow> memory option" where
  "setup_kvm base m =
     (let m = st64 m (pgd_ttbr1 base) (pud_ttbr1 base OR 3); m = st64 m (pud_ttbr1 base) (pmd_ttbr1 base OR 3);
        x2 = 0x34000000; x1 = pmd_ttbr1 base; x0 = push_bit 10 1 OR push_bit 2 1 OR push_bit 0 1
      in Option.bind (store_blocks x2 x0 x1 m) (\<lambda>(x0, x1, m).
      let x2 = 0x40000000; x0 = 0x3f000000; x1 = drop_bit (21 - 3) x0 + pmd_ttbr1 base;
        x0 = x0 OR 1; x0 = x0 OR push_bit 10 1
      in Option.bind (store_blocks x2 x0 x1 m) (\<lambda>(x0, x1, m).
      let m = st64 m (pud_ttbr1 base + 1 * 8) (pmd2_ttbr1 base OR 3);
        x2 = 0x41000000; x0 = 0x40000000; x1 = pmd2_ttbr1 base; x0 = x0 OR 1; x0 = x0 OR push_bit 10 1
      in Option.bind (store_blocks x2 x0 x1 m) (\<lambda>(x0, x1, m). Some m))))"

definition setup_boot_uvm :: "u64 \<Rightarrow> memory \<Rightarrow> memory" where
  "setup_boot_uvm base m =
     (let m = st64 m (pgd_ttbr0 base) (pud_ttbr0 base OR 3); m = st64 m (pud_ttbr0 base) (pmd_ttbr0 base OR 3)
      in st64 m (pmd_ttbr0 base) (push_bit 10 1 OR push_bit 2 1 OR push_bit 0 1))"

definition setup_vm :: "u64 \<Rightarrow> memory \<Rightarrow> memory option" where
  "setup_vm base m = Option.bind (setup_kvm base m) (\<lambda>m. Some (setup_boot_uvm base m))"

section \<open>Turning the MMU on\<close>

record mmu =
  ttbr0_el1 :: u64
  ttbr1_el1 :: u64
  mair_el1 :: u64
  tcr_el1 :: u64
  sctlr_el1 :: u64

definition MAIR_ATTR :: u64 where "MAIR_ATTR = push_bit 8 0x44"
definition TCR_T0SZ :: u64 where "TCR_T0SZ = 16"
definition TCR_T1SZ :: u64 where "TCR_T1SZ = push_bit 16 16"
definition TCR_TG0 :: u64 where "TCR_TG0 = push_bit 14 0"
definition TCR_TG1 :: u64 where "TCR_TG1 = push_bit 30 2"
definition TCR_VALUE :: u64 where "TCR_VALUE = TCR_T0SZ OR TCR_T1SZ OR TCR_TG0 OR TCR_TG1"

definition enable_mmu :: "u64 \<Rightarrow> mmu \<Rightarrow> mmu" where
  "enable_mmu base r = r\<lparr>ttbr1_el1 := pgd_ttbr1 base, ttbr0_el1 := pgd_ttbr0 base, mair_el1 := MAIR_ATTR,
     tcr_el1 := TCR_VALUE, sctlr_el1 := sctlr_el1 r OR 1\<rparr>"

section \<open>What the MMU does\<close>

text \<open>
  The stage 1 translation of the architecture for a 4KB granule, as far as blocks of 2MB. The low and the
  high field of \<open>tcr_el1\<close> give the sizes of the two address ranges; bit 0 of an entry says that it is valid and bit 1 that
  it is a table; bits 2 to 4 of a block select the byte of \<open>mair_el1\<close> with the kind of memory. The tables are read at
  physical addresses. With the MMU off, addresses are physical and all memory is device memory.
\<close>

definition walk :: "memory \<Rightarrow> u64 \<Rightarrow> u64 \<Rightarrow> u64 option" where
  "walk m pgd v =
     (let d0 = entry m pgd (pgd_index v) in if d0 AND 3 \<noteq> 3 then None else
      let d1 = entry m (PDE_ADDR d0) (pud_index v) in if d1 AND 3 \<noteq> 3 then None else
      let d2 = entry m (PDE_ADDR d1) (pmd_index v) in if d2 AND 3 = 1 then Some d2 else None)"

definition in_low :: "mmu \<Rightarrow> u64 \<Rightarrow> bool" where
  "in_low r v \<longleftrightarrow> unat v < 2 ^ (64 - unat (tcr_el1 r AND 0x3f))"

definition in_high :: "mmu \<Rightarrow> u64 \<Rightarrow> bool" where
  "in_high r v \<longleftrightarrow> 2 ^ 64 - 2 ^ (64 - unat (drop_bit 16 (tcr_el1 r) AND 0x3f)) \<le> unat v"

definition mmu_addr :: "mmu \<Rightarrow> memory \<Rightarrow> u64 \<Rightarrow> (u64 \<times> u8) option" where
  "mmu_addr r m v =
     (if sctlr_el1 r AND 1 = 0 then Some (v, 0)
      else case (if in_low r v then walk m (ttbr0_el1 r) v else if in_high r v then walk m (ttbr1_el1 r) v else None) of
        None \<Rightarrow> None
      | Some d \<Rightarrow> Some (PTE_ADDR d + v mod PAGE_SIZE, ucast (drop_bit (8 * unat (drop_bit 2 d AND 7)) (mair_el1 r))))"

section \<open>The seven tables as one array\<close>

lemma entry_offset: "entry m (base + of_nat (8 * j)) i = entry m base (j + i)"
  by (simp add: entry_def algebra_simps)

lemma st64_outside:
  assumes "\<not> in_range base 28672 a" "j < 3584"
  shows "st64 m (base + of_nat (8 * j)) v a = m a"
proof (rule wr_other)
  fix i :: nat assume "i < 8"
  then have "8 * j + i < 28672" using assms(2) by simp
  then have "in_range base 28672 (base + of_nat (8 * j + i))" by (subst in_range_add) (simp, blast)
  then show "a \<noteq> base + of_nat (8 * j) + of_nat i" using assms(1) by (auto simp: add.assoc)
qed

text \<open>\<open>n\<close> blocks from the entry \<open>x0\<close> on, stored from index \<open>j\<close> of the array on.\<close>

lemma store_blocks_run:
  assumes "unat x0 + n * 2097152 < 2 ^ 64" "0 < n" "j + n < 2 ^ 31"
    "\<And>k. k < n \<Longrightarrow> 0 < k \<Longrightarrow> x0 + of_nat (k * 2097152) < x2" "\<not> x0 + of_nat (n * 2097152) < x2"
  shows "\<exists>x0' x1' m'. store_blocks x2 x0 (base + of_nat (8 * j)) m = Some (x0', x1', m')
     \<and> (\<forall>i < 2 ^ 31. entry m' base i = (if j \<le> i \<and> i < j + n then x0 + of_nat ((i - j) * 2097152) else entry m base i))
     \<and> (j + n \<le> 3584 \<longrightarrow> (\<forall>a. \<not> in_range base 28672 a \<longrightarrow> m' a = m a))"
  using assms
proof (induction n arbitrary: x0 j m)
  case (Suc n)
  let ?x0 = "x0 + PAGE_SIZE" let ?m = "st64 m (base + of_nat (8 * j)) x0"
  have x1: "base + of_nat (8 * j) + 8 = base + of_nat (8 * Suc j)" by simp
  have e: "entry ?m base i = (if i = j then x0 else entry m base i)" if "i < 2 ^ 31" for i
    using entry_st64 [of i j m base x0] that Suc.prems(3) by simp
  show ?case
  proof (cases "n = 0")
    case True
    then have "\<not> ?x0 < x2" using Suc.prems(5) by (simp add: PAGE_SIZE_def)
    then have "store_blocks x2 x0 (base + of_nat (8 * j)) m = Some (?x0, base + of_nat (8 * j) + 8, ?m)"
      by (subst store_blocks.simps) (simp add: Let_def)
    then show ?thesis using e True st64_outside [of base _ j m x0] by (auto simp: le_less_Suc_eq)
  next
    case False
    have u: "unat ?x0 = unat x0 + 2097152"
      using Suc.prems(1) False by (simp add: PAGE_SIZE_def unat_add_small)
    have "?x0 < x2" using Suc.prems(4) [of 1] False by (simp add: PAGE_SIZE_def)
    then have r: "store_blocks x2 x0 (base + of_nat (8 * j)) m = store_blocks x2 ?x0 (base + of_nat (8 * Suc j)) ?m"
      by (subst store_blocks.simps) (simp only: Let_def x1 if_True)
    have s: "?x0 + of_nat (k * 2097152) = x0 + of_nat (Suc k * 2097152)" for k by (simp add: PAGE_SIZE_def algebra_simps)
    have "\<exists>x0' x1' m'. store_blocks x2 ?x0 (base + of_nat (8 * Suc j)) ?m = Some (x0', x1', m')
       \<and> (\<forall>i < 2 ^ 31. entry m' base i = (if Suc j \<le> i \<and> i < Suc j + n then ?x0 + of_nat ((i - Suc j) * 2097152) else entry ?m base i))
       \<and> (Suc j + n \<le> 3584 \<longrightarrow> (\<forall>a. \<not> in_range base 28672 a \<longrightarrow> m' a = ?m a))"
    proof (rule Suc.IH)
      show "?x0 + of_nat (k * 2097152) < x2" if "k < n" for k
        unfolding s using Suc.prems(4) [of "Suc k"] that by (simp del: of_nat_mult mult_Suc)
      show "\<not> ?x0 + of_nat (n * 2097152) < x2" unfolding s using Suc.prems(5) .
    qed (use u Suc.prems(1,3) False in simp_all)
    then obtain x0' x1' m' where m': "store_blocks x2 ?x0 (base + of_nat (8 * Suc j)) ?m = Some (x0', x1', m')"
      "\<And>i. i < 2 ^ 31 \<Longrightarrow> entry m' base i = (if Suc j \<le> i \<and> i < Suc j + n then ?x0 + of_nat ((i - Suc j) * 2097152) else entry ?m base i)"
      "Suc j + n \<le> 3584 \<longrightarrow> (\<forall>a. \<not> in_range base 28672 a \<longrightarrow> m' a = ?m a)"
      by blast
    have "entry m' base i = (if j \<le> i \<and> i < j + Suc n then x0 + of_nat ((i - j) * 2097152) else entry m base i)" if "i < 2 ^ 31" for i
    proof (cases "j < i")
      case True
      then have "?x0 + of_nat ((i - Suc j) * 2097152) = x0 + of_nat ((i - j) * 2097152)"
        unfolding s by (simp add: Suc_diff_Suc)
      then show ?thesis unfolding m'(2) [OF that] e [OF that] using True by (simp del: of_nat_mult of_nat_diff)
    next
      case False
      then show ?thesis unfolding m'(2) [OF that] e [OF that] by simp
    qed
    moreover have "m' a = m a" if "j + Suc n \<le> 3584" "\<not> in_range base 28672 a" for a
      using m'(3) st64_outside [OF that(2), of j m x0] that by simp
    ultimately show ?thesis unfolding r using m'(1) by blast
  qed
qed simp

section \<open>The tables that \<open>setup_vm\<close> leaves\<close>

text \<open>The entry at index \<open>i\<close> of the array, where the tables start out as zeros.\<close>

definition boot_entry :: "u64 \<Rightarrow> nat \<Rightarrow> u64" where
  "boot_entry base i =
     (if i = 0 then base + 4096 OR 3 else if i = 512 then base + 8192 OR 3 else if i = 513 then base + 12288 OR 3
      else if 1024 \<le> i \<and> i < 1440 then 0x405 + of_nat ((i - 1024) * 2097152)
      else if 1528 \<le> i \<and> i < 1536 then 0x3f000401 + of_nat ((i - 1528) * 2097152)
      else if 1536 \<le> i \<and> i < 1544 then 0x40000401 + of_nat ((i - 1536) * 2097152)
      else if i = 2048 then base + 20480 OR 3 else if i = 2560 then base + 24576 OR 3 else if i = 3072 then 0x405 else 0)"

lemma block_below: "(a :: u64) + of_nat (k * 2097152) < x \<longleftrightarrow> unat a + k * 2097152 < unat x"
  if "unat a + k * 2097152 < 2 ^ 64"
  using that by (simp add: word_less_nat_alt unat_add_small unat_of_nat_small del: of_nat_mult)

lemma device_index: "drop_bit (21 - 3) (0x3f000000 :: u64) = 4032"
  by (simp add: drop_bit_eq_div word_unat_eq_iff unat_div)

lemma setup_vm_entries:
  assumes "\<forall>i < 3584. entry m base i = 0"
  shows "\<exists>m'. setup_vm base m = Some m' \<and> (\<forall>i < 3584. entry m' base i = boot_entry base i)
     \<and> (\<forall>a. \<not> in_range base 28672 a \<longrightarrow> m' a = m a)"
proof -
  note e = entry_st64 [where base = base]
  define m1 where "m1 = st64 (st64 m base (base + 4096 OR 3)) (base + of_nat (8 * 512)) (base + 8192 OR 3)"
  have e1: "entry m1 base i = (if i = 0 then base + 4096 OR 3 else if i = 512 then base + 8192 OR 3 else 0)" if "i < 3584" for i
    using e [of i 0 m] e [of 0 0 m] e [of i 512 "st64 m base (base + 4096 OR 3)"] assms that by (simp add: m1_def)
  obtain a2 b2 m2 where l1: "store_blocks 0x34000000 0x405 (base + of_nat (8 * 1024)) m1 = Some (a2, b2, m2)"
    "\<forall>i < 2 ^ 31. entry m2 base i = (if 1024 \<le> i \<and> i < 1024 + 416 then 0x405 + of_nat ((i - 1024) * 2097152) else entry m1 base i)"
    "\<forall>a. \<not> in_range base 28672 a \<longrightarrow> m2 a = m1 a"
    using store_blocks_run [of "0x405" 416 1024 "0x34000000" base m1] by (auto simp: block_below simp del: of_nat_mult)
  obtain a3 b3 m3 where l2: "store_blocks 0x40000000 0x3f000401 (base + of_nat (8 * 1528)) m2 = Some (a3, b3, m3)"
    "\<forall>i < 2 ^ 31. entry m3 base i = (if 1528 \<le> i \<and> i < 1528 + 8 then 0x3f000401 + of_nat ((i - 1528) * 2097152) else entry m2 base i)"
    "\<forall>a. \<not> in_range base 28672 a \<longrightarrow> m3 a = m2 a"
    using store_blocks_run [of "0x3f000401" 8 1528 "0x40000000" base m2] by (auto simp: block_below simp del: of_nat_mult)
  define m4 where "m4 = st64 m3 (base + of_nat (8 * 513)) (base + 12288 OR 3)"
  obtain a5 b5 m5 where l3: "store_blocks 0x41000000 0x40000401 (base + of_nat (8 * 1536)) m4 = Some (a5, b5, m5)"
    "\<forall>i < 2 ^ 31. entry m5 base i = (if 1536 \<le> i \<and> i < 1536 + 8 then 0x40000401 + of_nat ((i - 1536) * 2097152) else entry m4 base i)"
    "\<forall>a. \<not> in_range base 28672 a \<longrightarrow> m5 a = m4 a"
    using store_blocks_run [of "0x40000401" 8 1536 "0x41000000" base m4] by (auto simp: block_below simp del: of_nat_mult)
  define m6 where "m6 = st64 (st64 (st64 m5 (base + of_nat (8 * 2048)) (base + 20480 OR 3)) (base + of_nat (8 * 2560)) (base + 24576 OR 3))
    (base + of_nat (8 * 3072)) 0x405"
  have "setup_vm base m = Some m6"
    unfolding setup_vm_def setup_kvm_def setup_boot_uvm_def Let_def device_index using l1(1) l2(1) l3(1)
    by (simp add: pgd_ttbr1_def pud_ttbr1_def pmd_ttbr1_def pmd2_ttbr1_def
        pgd_ttbr0_def pud_ttbr0_def pmd_ttbr0_def m1_def m4_def m6_def add.commute)
  moreover have "entry m6 base i = boot_entry base i" if "i < 3584" for i
  proof -
    have i: "i < 2 ^ 32" "i < 2 ^ 31" using that by simp_all
    have c: "3072 < (2 :: nat) ^ 32" "2560 < (2 :: nat) ^ 32" "2048 < (2 :: nat) ^ 32" "513 < (2 :: nat) ^ 32" by simp_all
    have h6: "entry m6 base i = (if i = 3072 then 0x405 else if i = 2560 then base + 24576 OR 3 else if i = 2048 then base + 20480 OR 3
        else entry m5 base i)"
      unfolding m6_def e [OF i(1) c(1)] e [OF i(1) c(2)] e [OF i(1) c(3)] ..
    have h4: "entry m4 base i = (if i = 513 then base + 12288 OR 3 else entry m3 base i)"
      unfolding m4_def e [OF i(1) c(4)] ..
    show ?thesis
      unfolding h6 l3(2) [rule_format, OF i(2)] h4 l2(2) [rule_format, OF i(2)] l1(2) [rule_format, OF i(2)] e1 [OF that]
        boot_entry_def
      by (auto simp del: of_nat_mult of_nat_diff)
  qed
  moreover have "m6 a = m a" if "\<not> in_range base 28672 a" for a
  proof -
    note o = st64_outside [OF that]
    have "m1 a = m a" using o [of 0 m "base + 4096 OR 3"] o [of 512 "st64 m base (base + 4096 OR 3)"] by (simp add: m1_def)
    moreover have "m4 a = m3 a" using o [of 513 m3] by (simp add: m4_def)
    moreover have "m6 a = m5 a" unfolding m6_def by (subst o, simp)+ (rule refl)
    ultimately show ?thesis using l1(3) l2(3) l3(3) that by simp
  qed
  ultimately show ?thesis by blast
qed

section \<open>Walking them\<close>

lemma low_bits:
  assumes "(x :: u64) mod 2 ^ n = 0" "bit x i"
  shows "n \<le> i"
proof -
  have "take_bit n x = 0" using assms(1) by (simp add: take_bit_eq_mod)
  then have "\<not> bit (take_bit n x) i" by simp
  then show ?thesis using assms(2) by (simp add: bit_take_bit_iff)
qed

lemma high_bits:
  assumes "unat (x :: u64) < 2 ^ n" "bit x i"
  shows "i < n"
proof -
  have "take_bit n x = x" using assms(1) by (simp add: word_unat_eq_iff unsigned_take_bit_eq take_bit_nat_eq_self)
  then have "bit (take_bit n x) i" using assms(2) by simp
  then show ?thesis by (simp add: bit_take_bit_iff)
qed

lemma low_masks: "(3 :: u64) = mask 2" "(7 :: u64) = mask 3" "(0x1ff :: u64) = mask 9"
  by (simp_all add: mask_eq_exp_minus_1)

lemma table_desc:
  assumes "x mod 4096 = 0" "unat x < 2 ^ 48"
  shows "PDE_ADDR (x OR 3) = x" "(x OR 3) AND 3 = 3"
proof -
  have b: "12 \<le> i" "i < 48" if "bit x i" for i using low_bits [of x 12 i] high_bits [OF assms(2) that] assms(1) that by simp_all
  show "PDE_ADDR (x OR 3) = x" unfolding low_masks
    by (rule bit_word_eqI) (use b in \<open>auto simp: PDE_ADDR_bit bit_or_iff bit_mask_iff\<close>)
  show "(x OR 3) AND 3 = 3" unfolding low_masks
    by (rule bit_word_eqI) (auto simp: bit_or_iff bit_and_iff bit_mask_iff)
qed

lemma block_desc:
  assumes "y mod 2097152 = 0" "unat y < 2 ^ 48" "a < 2097152"
  shows "PTE_ADDR (a + y) = y" "(a + y) AND 3 = a AND 3" "drop_bit 2 (a + y) AND 7 = drop_bit 2 a AND 7"
    "i < 21 \<Longrightarrow> bit (a + y) i = bit a i"
proof -
  have b: "21 \<le> i" "i < 48" if "bit y i" for i using low_bits [of y 21 i] high_bits [OF assms(2) that] assms(1) that by simp_all
  have "unat a < 2 ^ 21" using assms(3) by (simp add: word_less_nat_alt)
  then have a: "i < 21" if "bit a i" for i using high_bits that by blast
  have e: "a + y = a OR y" using b a by (intro disjunctive_add) (meson not_le)
  show "PTE_ADDR (a + y) = y" unfolding e
    by (rule bit_word_eqI) (use b a in \<open>auto simp: PTE_ADDR_bit bit_or_iff dest: leD\<close>)
  show "(a + y) AND 3 = a AND 3" unfolding e low_masks
    by (rule bit_word_eqI) (use b in \<open>force simp: bit_or_iff bit_and_iff bit_mask_iff\<close>)
  show "drop_bit 2 (a + y) AND 7 = drop_bit 2 a AND 7" unfolding e low_masks
    by (rule bit_word_eqI) (use b in \<open>force simp: bit_or_iff bit_and_iff bit_mask_iff bit_drop_bit_eq\<close>)
  show "bit (a + y) i = bit a i" if "i < 21" using b(1) [of i] that by (auto simp: e bit_or_iff)
qed

lemma index_div: "pgd_index v = unat v div 2 ^ 39 mod 512" "pud_index v = unat v div 2 ^ 30 mod 512"
  "pmd_index v = unat v div 2 ^ 21 mod 512"
proof -
  have "unat (drop_bit n v AND 0x1ff) = unat v div 2 ^ n mod 512" for n
  proof -
    have "drop_bit n v AND 0x1ff = take_bit 9 (drop_bit n v)" unfolding low_masks by (rule take_bit_eq_mask [symmetric])
    moreover have "unat (take_bit 9 (drop_bit n v)) = take_bit 9 (drop_bit n (unat v))"
      by (simp only: unsigned_take_bit_eq unat_drop_bit_eq)
    ultimately show ?thesis by (simp only:) (simp add: take_bit_nat_def drop_bit_nat_def)
  qed
  then show "pgd_index v = unat v div 2 ^ 39 mod 512" "pud_index v = unat v div 2 ^ 30 mod 512"
    "pmd_index v = unat v div 2 ^ 21 mod 512"
    by (simp_all add: pgd_index_def pud_index_def pmd_index_def)
qed

text \<open>
  \<open>place p\<close>: where the boot tables map the offset \<open>p\<close> of the kernel's half. The kinds of memory are those in
  \<open>mair_el1\<close>: 0x44 is normal memory, 0 device memory.
\<close>

definition place :: "nat \<Rightarrow> (u64 \<times> u8) option" where
  "place p = (if p < 0x34000000 then Some (of_nat p, 0x44)
     else if 0x3f000000 \<le> p \<and> p < 0x41000000 then Some (of_nat p, 0) else None)"

definition boot_place :: "u64 \<Rightarrow> (u64 \<times> u8) option" where
  "boot_place v = (if KERNEL_BASE \<le> v then place (unat (v - KERNEL_BASE)) else if v < 0x200000 then Some (v, 0x44) else None)"

definition tables_at :: "u64 \<Rightarrow> memory \<Rightarrow> bool" where
  "tables_at base m \<longleftrightarrow> base mod 4096 = 0 \<and> unat base + 7 * 4096 \<le> 2 ^ 48 \<and> (\<forall>i < 3584. entry m base i = boot_entry base i)"

lemma table_step:
  assumes "tables_at base m" "k < 7"
  shows "PDE_ADDR (base + of_nat (4096 * k) OR 3) = base + of_nat (4096 * k)" "(base + of_nat (4096 * k) OR 3) AND 3 = 3"
    "i < 512 \<Longrightarrow> entry m (base + of_nat (4096 * k)) i = boot_entry base (512 * k + i)"
proof -
  have u: "unat (base + of_nat (4096 * k)) = unat base + 4096 * k"
    using assms by (simp add: tables_at_def unat_add_small unat_of_nat_small del: of_nat_mult)
  have "unat base mod 4096 = 0" using assms(1) by (simp add: tables_at_def word_unat_eq_iff unat_mod)
  then have "(base + of_nat (4096 * k)) mod 4096 = 0" by (simp add: word_unat_eq_iff unat_mod u del: of_nat_mult)
  then show "PDE_ADDR (base + of_nat (4096 * k) OR 3) = base + of_nat (4096 * k)" "(base + of_nat (4096 * k) OR 3) AND 3 = 3"
    using table_desc [of "base + of_nat (4096 * k)"] u assms by (simp_all add: tables_at_def del: of_nat_mult)
  show "entry m (base + of_nat (4096 * k)) i = boot_entry base (512 * k + i)" if "i < 512"
    using entry_offset [of m base "512 * k" i] assms that by (simp add: tables_at_def)
qed

lemma mod_div_mult: "(x :: nat) mod (a * n) div a = x div a mod n" if "0 < a"
  using that by (simp add: mod_mult2_eq)

lemma index_block:
  defines "q v \<equiv> unat v mod 2 ^ 48 div 2 ^ 21"
  shows "pgd_index v = q v div 512 div 512" "pud_index v = q v div 512 mod 512" "pmd_index v = q v mod 512" "q v < 2 ^ 27"
proof -
  have q: "q v = unat v div 2 ^ 21 mod 2 ^ 27" using mod_div_mult [of "2 ^ 21" "unat v" "2 ^ 27"] by (simp add: q_def)
  then show "q v < 2 ^ 27" by simp
  let ?w = "unat v div 2 ^ 21"
  have i: "unat v div 2 ^ 39 = ?w div 512 div 512" "unat v div 2 ^ 30 = ?w div 512" by (simp_all add: div_mult2_eq [symmetric])
  have a: "q v mod 512 = ?w mod 512" unfolding q by (rule mod_mod_cancel) simp
  have b: "q v div 512 = ?w div 512 mod 2 ^ 18" using mod_div_mult [of 512 ?w "2 ^ 18"] unfolding q by simp
  have c: "q v div 512 mod 512 = ?w div 512 mod 512" unfolding b by (rule mod_mod_cancel) simp
  have d: "q v div 512 div 512 = ?w div 512 div 512 mod 512"
    using mod_div_mult [of 512 "?w div 512" 512] unfolding b by simp
  show "pgd_index v = q v div 512 div 512" "pud_index v = q v div 512 mod 512" "pmd_index v = q v mod 512"
    unfolding index_div i a c d by simp_all
qed

lemma block_kind:
  assumes "q < 2 ^ 27" "a = 0x405 \<or> a = 0x401"
  shows "PTE_ADDR (a + of_nat (q * 2097152)) = of_nat (q * 2097152)" "(a + of_nat (q * 2097152)) AND 3 = 1"
    "drop_bit 2 (a + of_nat (q * 2097152)) AND 7 = (if a = 0x405 then 1 else 0)"
    "\<not> bit (a + of_nat (q * 2097152)) 6"
proof -
  have u: "unat (of_nat (q * 2097152) :: u64) = q * 2097152" using assms(1) by (simp add: unat_of_nat_small del: of_nat_mult)
  have "(of_nat (q * 2097152) :: u64) mod 2097152 = 0" "unat (of_nat (q * 2097152) :: u64) < 2 ^ 48"
    using assms(1) by (simp_all add: word_unat_eq_iff unat_mod u del: of_nat_mult)
  moreover have "a < 2097152" using assms(2) by auto
  ultimately show "PTE_ADDR (a + of_nat (q * 2097152)) = of_nat (q * 2097152)" "(a + of_nat (q * 2097152)) AND 3 = 1"
    "drop_bit 2 (a + of_nat (q * 2097152)) AND 7 = (if a = 0x405 then 1 else 0)" "\<not> bit (a + of_nat (q * 2097152)) 6"
    using block_desc [of "of_nat (q * 2097152)" a] assms(2) by (auto simp del: of_nat_mult)
qed

text \<open>The entries on the way to block \<open>q\<close> of the kernel's half.\<close>

lemma boot_entries_high:
  "i < 512 \<Longrightarrow> boot_entry base i = (if i = 0 then base + 4096 OR 3 else 0)"
  "i < 512 \<Longrightarrow> boot_entry base (512 + i) = (if i = 0 then base + 8192 OR 3 else if i = 1 then base + 12288 OR 3 else 0)"
  "i < 512 \<Longrightarrow> boot_entry base (1024 + i) = (if i < 416 then 0x405 + of_nat (i * 2097152)
     else if 504 \<le> i then 0x401 + of_nat (i * 2097152) else 0)"
  "i < 512 \<Longrightarrow> boot_entry base (1536 + i) = (if i < 8 then 0x401 + of_nat ((512 + i) * 2097152) else 0)"
proof -
  have "0x401 + of_nat (i * 2097152) = (0x3f000401 :: u64) + of_nat ((i - 504) * 2097152)" if "504 \<le> i"
    using that by (simp add: of_nat_diff algebra_simps)
  then show "i < 512 \<Longrightarrow> boot_entry base (1024 + i) = (if i < 416 then 0x405 + of_nat (i * 2097152)
     else if 504 \<le> i then 0x401 + of_nat (i * 2097152) else 0)"
    by (auto simp: boot_entry_def simp del: of_nat_mult of_nat_diff)
qed (auto simp: boot_entry_def)

lemma walk_kernel:
  assumes "tables_at base m"
  defines "q v \<equiv> unat v mod 2 ^ 48 div 2 ^ 21"
  shows "walk m (pgd_ttbr1 base) v = (if q v < 416 then Some (0x405 + of_nat (q v * 2097152))
     else if 504 \<le> q v \<and> q v < 520 then Some (0x401 + of_nat (q v * 2097152)) else None)"
proof -
  let ?q = "q v"
  note s = table_step [OF assms(1)] and b = boot_entries_high [of _ base]
  have i: "pgd_index v = ?q div 512 div 512" "pud_index v = ?q div 512 mod 512" "pmd_index v = ?q mod 512" "?q < 2 ^ 27"
    using index_block [of v] by (simp_all add: q_def)
  note k = block_kind(2) [OF i(4)]
  have e0: "entry m (pgd_ttbr1 base) (pgd_index v) = (if pgd_index v = 0 then base + 4096 OR 3 else 0)"
    using s(3) [of 0] b(1) [OF index_less(1)] by (simp add: pgd_ttbr1_def)
  show ?thesis
  proof (cases "pgd_index v = 0")
    case False
    then have "512 \<le> ?q div 512" unfolding i by (simp add: div_eq_0_iff)
    then have "512 * 512 \<le> ?q" by linarith
    then show ?thesis using False by (simp add: walk_def e0)
  next
    case True
    then have "?q div 512 < 512" unfolding i by (simp add: div_eq_0_iff)
    then have p: "pud_index v = ?q div 512" unfolding i by simp
    have d0: "PDE_ADDR (base + 4096 OR 3) = base + 4096" "(base + 4096 OR 3) AND 3 = 3"
      "PDE_ADDR (base + 8192 OR 3) = base + 8192" "(base + 8192 OR 3) AND 3 = 3"
      "PDE_ADDR (base + 12288 OR 3) = base + 12288" "(base + 12288 OR 3) AND 3 = 3"
      using s(1,2) [of 1] s(1,2) [of 2] s(1,2) [of 3] by simp_all
    have e: "entry m (base + 4096) (pud_index v) = (if pud_index v = 0 then base + 8192 OR 3 else if pud_index v = 1 then base + 12288 OR 3 else 0)"
      "entry m (base + 8192) (pmd_index v) = (if pmd_index v < 416 then 0x405 + of_nat (pmd_index v * 2097152)
         else if 504 \<le> pmd_index v then 0x401 + of_nat (pmd_index v * 2097152) else 0)"
      "entry m (base + 12288) (pmd_index v) = (if pmd_index v < 8 then 0x401 + of_nat ((512 + pmd_index v) * 2097152) else 0)"
      using s(3) [of 1 "pud_index v"] s(3) [of 2 "pmd_index v"] s(3) [of 3 "pmd_index v"] b(2) [OF index_less(2) [of v]]
        b(3) [OF index_less(3) [of v]] b(4) [OF index_less(3) [of v]] by (simp_all del: of_nat_mult)
    note w = walk_def [of m "pgd_ttbr1 base" v] e0 True d0 e p
    consider "?q div 512 = 0" | "?q div 512 = 1" | "2 \<le> ?q div 512" by linarith
    then show ?thesis
    proof cases
      case 1
      then have "?q < 512" "pmd_index v = ?q" using i(3) by simp_all
      then show ?thesis using w 1 k by (simp add: Let_def del: of_nat_mult)
    next
      case 2
      then have "512 \<le> ?q" "?q < 1024" "512 + pmd_index v = ?q" using i(3) div_mult_mod_eq [of ?q 512] by linarith+
      then show ?thesis using w 2 k by (auto simp add: Let_def simp del: of_nat_mult)
    next
      case 3
      then have "1024 \<le> ?q" by linarith
      then show ?thesis using w 3 by simp
    qed
  qed
qed

lemma boot_entries_low:
  "i < 512 \<Longrightarrow> boot_entry base (2048 + i) = (if i = 0 then base + 20480 OR 3 else 0)"
  "i < 512 \<Longrightarrow> boot_entry base (2560 + i) = (if i = 0 then base + 24576 OR 3 else 0)"
  "i < 512 \<Longrightarrow> boot_entry base (3072 + i) = (if i = 0 then 0x405 else 0)"
  by (auto simp: boot_entry_def)

lemma walk_user:
  assumes "tables_at base m"
  shows "walk m (pgd_ttbr0 base) v = (if unat v mod 2 ^ 48 < 2097152 then Some 0x405 else None)"
proof -
  define q where "q = unat v mod 2 ^ 48 div 2 ^ 21"
  note s = table_step [OF assms]
  have i: "pgd_index v = q div 512 div 512" "pud_index v = q div 512 mod 512" "pmd_index v = q mod 512"
    using index_block [of v] by (simp_all add: q_def)
  have d: "PDE_ADDR (base + 20480 OR 3) = base + 20480" "(base + 20480 OR 3) AND 3 = 3"
    "PDE_ADDR (base + 24576 OR 3) = base + 24576" "(base + 24576 OR 3) AND 3 = 3"
    using s(1,2) [of 5] s(1,2) [of 6] by simp_all
  have e: "entry m (pgd_ttbr0 base) (pgd_index v) = (if pgd_index v = 0 then base + 20480 OR 3 else 0)"
    "entry m (base + 20480) (pud_index v) = (if pud_index v = 0 then base + 24576 OR 3 else 0)"
    "entry m (base + 24576) (pmd_index v) = (if pmd_index v = 0 then 0x405 else 0)"
    using s(3) [of 4 "pgd_index v"] s(3) [of 5 "pud_index v"] s(3) [of 6 "pmd_index v"] boot_entries_low(1) [OF index_less(1) [of v]]
      boot_entries_low(2) [OF index_less(2) [of v]] boot_entries_low(3) [OF index_less(3) [of v]] by (simp_all add: pgd_ttbr0_def)
  have "q = 0 \<longleftrightarrow> pgd_index v = 0 \<and> pud_index v = 0 \<and> pmd_index v = 0"
    unfolding i using div_mult_mod_eq [of q 512] div_mult_mod_eq [of "q div 512" 512] by (intro iffI) (simp, linarith)
  moreover have "q = 0 \<longleftrightarrow> unat v mod 2 ^ 48 < 2097152" by (simp add: q_def div_eq_0_iff)
  ultimately show ?thesis using d e by (auto simp: walk_def)
qed

lemma enable_mmu_ranges:
  "in_low (enable_mmu base r) v \<longleftrightarrow> unat v < 2 ^ 48" "in_high (enable_mmu base r) v \<longleftrightarrow> KERNEL_BASE \<le> v"
  "sctlr_el1 (enable_mmu base r) AND 1 \<noteq> 0"
proof -
  have t: "tcr_el1 (enable_mmu base r) = 0x80100010"
    by (simp add: enable_mmu_def TCR_VALUE_def TCR_T0SZ_def TCR_T1SZ_def TCR_TG0_def TCR_TG1_def)
  show "in_low (enable_mmu base r) v \<longleftrightarrow> unat v < 2 ^ 48" by (simp add: in_low_def t)
  have "drop_bit 16 (0x80100010 :: u64) AND 0x3f = 16" by (simp add: drop_bit_eq_div word_unat_eq_iff unat_div)
  then show "in_high (enable_mmu base r) v \<longleftrightarrow> KERNEL_BASE \<le> v"
    by (simp add: in_high_def t KERNEL_BASE_def word_le_nat_alt)
  have "bit ((sctlr_el1 r OR 1) AND 1) 0" by (simp add: bit_and_iff bit_or_iff)
  then have "(sctlr_el1 r OR 1) AND 1 \<noteq> 0" by (cases "(sctlr_el1 r OR 1) AND 1 = 0") simp_all
  then show "sctlr_el1 (enable_mmu base r) AND 1 \<noteq> 0" by (simp add: enable_mmu_def)
qed

lemma kinds: "ucast (drop_bit 8 MAIR_ATTR) = (0x44 :: u8)" "ucast MAIR_ATTR = (0 :: u8)"
  by (simp_all add: MAIR_ATTR_def)

lemma block_address:
  "of_nat (unat (v :: u64) mod 2 ^ 48 div 2 ^ 21 * 2097152) + v mod PAGE_SIZE = of_nat (unat v mod 2 ^ 48)"
proof -
  let ?p = "unat v mod 2 ^ 48"
  have "?p mod 2097152 = unat v mod 2097152" by (rule mod_mod_cancel) simp
  then have "v mod PAGE_SIZE = of_nat (?p mod 2097152)" by (simp add: word_unat_eq_iff unat_mod PAGE_SIZE_def unat_of_nat_small)
  moreover have "?p div 2 ^ 21 * 2097152 + ?p mod 2097152 = ?p" by simp
  ultimately show ?thesis by (metis of_nat_add)
qed

lemma mmu_boot_place:
  assumes "tables_at base m"
  shows "mmu_addr (enable_mmu base r) m v = boot_place v"
proof -
  let ?p = "unat v mod 2 ^ 48" let ?q = "unat v mod 2 ^ 48 div 2 ^ 21"
  note mm = mmu_addr_def [of "enable_mmu base r" m v] enable_mmu_ranges
  have regs: "ttbr0_el1 (enable_mmu base r) = pgd_ttbr0 base" "ttbr1_el1 (enable_mmu base r) = pgd_ttbr1 base"
    "mair_el1 (enable_mmu base r) = MAIR_ATTR" by (simp_all add: enable_mmu_def)
  consider "unat v < 2 ^ 48" | "2 ^ 48 \<le> unat v" "\<not> KERNEL_BASE \<le> v" | "KERNEL_BASE \<le> v" by linarith
  then show ?thesis
  proof cases
    case 1
    then have "\<not> KERNEL_BASE \<le> v" by (simp add: KERNEL_BASE_def word_le_nat_alt)
    moreover have "v < 0x200000 \<longleftrightarrow> unat v < 2097152" by (simp add: word_less_nat_alt)
    moreover have "PTE_ADDR 0x405 + v mod PAGE_SIZE = v" if "unat v < 2097152"
      using that by (simp add: PTE_ADDR_def PAGE_SIZE_def word_unat_eq_iff unat_mod)
    moreover have "drop_bit 2 (0x405 :: u64) AND 7 = 1" by (simp add: drop_bit_eq_div word_unat_eq_iff unat_div)
    ultimately show ?thesis
      using walk_user [OF assms, of v] 1 by (simp add: mm regs kinds boot_place_def)
  next
    case 2
    then have "\<not> v < 0x200000" by (simp add: word_less_nat_alt)
    then show ?thesis using 2 by (simp add: mm boot_place_def)
  next
    case 3
    then have l: "\<not> unat v < 2 ^ 48" "18446462598732840960 \<le> unat v" by (simp_all add: KERNEL_BASE_def word_le_nat_alt)
    have "unat v < 2 ^ 64" using unsigned_less [of v] by simp
    then have "?p = unat v - 18446462598732840960" using l(2) by (intro mod_nat_eqI) (auto simp: mod_eq_dvd_iff_nat)
    then have p: "unat (v - KERNEL_BASE) = ?p" using 3 by (simp add: unat_sub KERNEL_BASE_def)
    have q: "?q < 416 \<longleftrightarrow> ?p < 0x34000000" "504 \<le> ?q \<longleftrightarrow> 0x3f000000 \<le> ?p" "?q < 520 \<longleftrightarrow> ?p < 0x41000000"
      using div_less_iff_less_mult [of "2 ^ 21" ?p] less_eq_div_iff_mult_less_eq [of "2 ^ 21" 504 ?p] by simp_all
    have "?q < 2 ^ 27" using index_block(4) [of v] .
    note k = block_kind [OF this]
    show ?thesis
      using walk_kernel [OF assms, of v] l(1) 3 k block_address [of v] unfolding q
      by (simp add: mm regs kinds boot_place_def place_def p del: of_nat_mult)
  qed
qed

section \<open>The direct map\<close>

text \<open>
  Property C10: the boot page tables make the direct map. On zeroed tables \<open>setup_vm\<close> returns, and once \<open>enable_mmu\<close> has
  run, for every virtual address: the kernel's half maps the first 0x34000000 bytes of memory one to one as
  normal memory and 0x3f000000 to 0x41000000, where the devices are, as device memory; the user's half maps the first
  2MB, in which the boot code runs, to itself; every other address is unmapped.
\<close>

theorem boot_maps_memory:
  assumes "base mod 4096 = 0" "unat base + 7 * 4096 \<le> 2 ^ 48" "\<forall>i < 3584. entry m base i = 0"
  shows "\<exists>m'. setup_vm base m = Some m' \<and> (\<forall>r v. mmu_addr (enable_mmu base r) m' v = boot_place v)"
proof -
  obtain m' where m': "setup_vm base m = Some m'" "\<forall>i < 3584. entry m' base i = boot_entry base i"
    using setup_vm_entries [OF assms(3)] by blast
  then have "tables_at base m'" using assms(1,2) by (simp add: tables_at_def)
  with m'(1) mmu_boot_place show ?thesis by blast
qed

lemma boot_maps_memory_witness:
  "\<exists>m' r. setup_vm 0x90000 (\<lambda>_. 0) = Some m' \<and> mmu_addr (enable_mmu 0x90000 r) m' (KERNEL_BASE + 0x80000) = Some (0x80000, 0x44)
     \<and> mmu_addr (enable_mmu 0x90000 r) m' (KERNEL_BASE + 0x3f201000) = Some (0x3f201000, 0)
     \<and> mmu_addr (enable_mmu 0x90000 r) m' 0x400000 = None"
proof -
  have "\<forall>i < 3584. entry (\<lambda>_. 0) 0x90000 i = 0" by (simp add: entry_def rd_zero del: rd.simps)
  from boot_maps_memory [OF _ _ this] show ?thesis
    by (fastforce simp: boot_place_def place_def KERNEL_BASE_def)
qed

text \<open>In particular the whole heap is where \<open>V2P\<close> says.\<close>

lemma heap_pages_mapped:
  assumes "tables_at base m" "page_ok e p" "k < 2097152"
  shows "mmu_addr (enable_mmu base r) m (p + of_nat k) = Some (V2P p + of_nat k, 0x44)"
proof -
  note p = page_ok_bounds(1,2) [OF assms(2)]
  have u: "unat (p + of_nat k) = unat p + k" using p assms(3) by (simp add: word_arith)
  then have g: "KERNEL_BASE \<le> p + of_nat k" using p by (simp add: KERNEL_BASE_def word_le_nat_alt)
  then have d: "unat (p + of_nat k - KERNEL_BASE) = unat p + k - 18446462598732840960" by (simp add: unat_sub u KERNEL_BASE_def)
  have "of_nat (unat (p + of_nat k - KERNEL_BASE)) = p + of_nat k - KERNEL_BASE" by simp
  note a = this [unfolded d]
  have "V2P p + of_nat k = p + of_nat k - KERNEL_BASE" by (simp add: V2P_def)
  then show ?thesis
    using p assms(3) g d a by (simp add: mmu_boot_place [OF assms(1)] boot_place_def place_def)
qed

end
