(* ===== verification/Start.thy ===== *)
theory Start
  imports Mmu Fat
begin

text \<open>
  The first code that runs: boot/boot.s on the state that the firmware leaves, up to the jump to \<open>kernel_main\<close>. It
  drops to exception level 1, turns the MMU on, moves the file system to its place and clears the kernel's data.
\<close>

section \<open>The processor at boot\<close>

record core =
  mpidr_el1 :: u64
  currentel :: u64
  hcr_el2 :: u64
  spsr_el2 :: u64
  elr_el2 :: u64
  vbar_el1 :: u64
  sp_el1 :: u64
  pc :: u64
  regs :: mmu

text \<open>The addresses that the linker chooses: the tables of mmu.s and the code of boot.s as physical addresses, the others
  in the kernel's half.\<close>

record labels =
  boot_tables :: u64
  el1_entry :: u64
  bss_start :: u64
  bss_end :: u64
  vector_table_el1 :: u64
  kernel_main_label :: u64

definition FS_SIZE :: u64 where "FS_SIZE = 512 * 18432"

text \<open>\<open>eret\<close> goes to \<open>elr_el2\<close> at the exception level in bits 2 and 3 of \<open>spsr_el2\<close>.\<close>

definition eret_el2 :: "core \<Rightarrow> core" where
  "eret_el2 c = c\<lparr>pc := elr_el2 c, currentel := spsr_el2 c AND 0xc\<rparr>"

definition switch_to_el1 :: "labels \<Rightarrow> core \<Rightarrow> core" where
  "switch_to_el1 L c =
     (let c = c\<lparr>regs := (regs c)\<lparr>sctlr_el1 := 0\<rparr>\<rparr>; c = c\<lparr>hcr_el2 := push_bit 31 1\<rparr>;
        c = c\<lparr>spsr_el2 := 0x3c5\<rparr>; c = c\<lparr>elr_el2 := el1_entry L\<rparr>
      in eret_el2 c)"

text \<open>
  From \<open>el1_entry\<close> on. Memory is by physical address until the MMU is on, and then by address in the kernel's half, where
  everything that this code touches is mapped one to one.
\<close>

definition enter_el1 :: "labels \<Rightarrow> core \<Rightarrow> memory \<Rightarrow> (core \<times> memory) option" where
  "enter_el1 L c m =
     (let c = c\<lparr>sp_el1 := 0x80000\<rparr> in
      Option.bind (setup_vm (boot_tables L) m) (\<lambda>m.
      let c = c\<lparr>regs := enable_mmu (boot_tables L) (regs c)\<rparr>; m = (\<lambda>v. m (V2P v));
        m = memcpy m FS_BASE (bss_start L) (ucast FS_SIZE);
        m = memset m (bss_start L) 0 (ucast (bss_end L - bss_start L));
        c = c\<lparr>vbar_el1 := vector_table_el1 L\<rparr>; c = c\<lparr>sp_el1 := sp_el1 c + 0xffff000000000000\<rparr>;
        c = c\<lparr>pc := kernel_main_label L\<rparr>
      in Some (c, m)))"

text \<open>The cores other than the first, and a processor that is not at exception level 2, stay in the loop at \<open>end\<close>.\<close>

definition start_core :: "labels \<Rightarrow> core \<Rightarrow> memory \<Rightarrow> halt + core \<times> memory" where
  "start_core L c m =
     (if mpidr_el1 c AND 3 \<noteq> 0 then Inl Spin
      else if drop_bit 2 (currentel c) \<noteq> 2 then Inl Spin
      else case enter_el1 L (switch_to_el1 L c) m of None \<Rightarrow> Inl Spin | Some r \<Rightarrow> Inr r)"

section \<open>What kernel_main is handed\<close>

text \<open>
  The kernel image lies below the place of the file system, with the boot tables, still zero, in its code.
\<close>

definition image_placed :: "labels \<Rightarrow> memory \<Rightarrow> bool" where
  "image_placed L m \<longleftrightarrow> boot_tables L mod 4096 = 0 \<and> unat (boot_tables L) + 7 * 4096 \<le> unat (V2P (bss_start L))
     \<and> KERNEL_BASE \<le> bss_start L \<and> bss_start L \<le> bss_end L \<and> bss_end L \<le> FS_BASE \<and> bss_start L + FS_SIZE \<le> FS_BASE
     \<and> unat (bss_start L) + 9437184 \<le> 2 ^ 64
     \<and> (\<forall>i < 3584. entry m (boot_tables L) i = 0)"

lemma image_bounds:
  assumes "image_placed L m"
  shows "18446462598732840960 \<le> unat (bss_start L)" "unat (bss_start L) \<le> unat (bss_end L)"
    "unat (bss_end L) \<le> 18446462599538147328" "unat (bss_start L) + 9437184 \<le> 18446462599538147328"
    "unat (V2P (bss_start L)) = unat (bss_start L) - 18446462598732840960"
    "unat (boot_tables L) + 28672 \<le> unat (bss_start L) - 18446462598732840960" "unat FS_BASE = 18446462599538147328"
proof -
  note p = assms [unfolded image_placed_def]
  show fs: "unat FS_BASE = 18446462599538147328" by (simp add: FS_BASE_def P2V_def KERNEL_BASE_def)
  show "18446462598732840960 \<le> unat (bss_start L)" "unat (bss_start L) \<le> unat (bss_end L)"
    "unat (bss_end L) \<le> 18446462599538147328" "unat (bss_start L) + 9437184 \<le> 18446462599538147328"
    using p fs by (auto simp: KERNEL_BASE_def word_le_nat_alt FS_SIZE_def unat_add_small)
  then show vs: "unat (V2P (bss_start L)) = unat (bss_start L) - 18446462598732840960"
    by (simp add: V2P_def KERNEL_BASE_def unat_sub word_le_nat_alt)
  show "unat (boot_tables L) + 28672 \<le> unat (bss_start L) - 18446462598732840960" using p vs by simp
qed

text \<open>The memory of the kernel after the file system is moved and the data cleared.\<close>

definition cleared :: "labels \<Rightarrow> memory \<Rightarrow> memory" where
  "cleared L m = memset (memcpy (\<lambda>v. m (V2P v)) FS_BASE (bss_start L) (ucast FS_SIZE)) (bss_start L) 0
     (ucast (bss_end L - bss_start L))"

lemma cleared_at:
  assumes "image_placed L m0"
  shows "cleared L m a = (if unat (bss_start L) \<le> unat a \<and> unat a < unat (bss_end L) then 0
     else if unat FS_BASE \<le> unat a \<and> unat a < unat FS_BASE + 9437184 then m (V2P (bss_start L + (a - FS_BASE))) else m (V2P a))"
proof -
  let ?s = "unat (bss_start L)" and ?e = "unat (bss_end L)"
  note b = image_bounds [OF assms]
  have n: "unat (ucast FS_SIZE :: u32) = 9437184" by (simp add: FS_SIZE_def)
  have c: "memcpy v FS_BASE (bss_start L) (ucast FS_SIZE) = copied v FS_BASE (bss_start L) 9437184" for v
    using memcpy_forward [of FS_BASE "bss_start L" "ucast FS_SIZE" v] n b by (simp add: forward_ok_def)
  have "unat (bss_end L - bss_start L) = ?e - ?s" using assms by (simp add: image_placed_def unat_sub)
  moreover have "?e - ?s < 2 ^ 32" using b by simp
  ultimately have sz: "unat (ucast (bss_end L - bss_start L) :: u32) = ?e - ?s"
    by (simp add: unsigned_ucast_eq take_bit_nat_eq_self)
  have "in_range (bss_start L) (?e - ?s) a \<longleftrightarrow> ?s \<le> unat a \<and> unat a < ?e" using b by (subst in_range_iff) auto
  moreover have "in_range FS_BASE 9437184 a \<longleftrightarrow> unat FS_BASE \<le> unat a \<and> unat a < unat FS_BASE + 9437184"
    using b by (subst in_range_iff) simp_all
  ultimately show ?thesis by (simp add: cleared_def memset_eq sz c copied_def)
qed

lemma cleared_tables:
  assumes "image_placed L m0" "\<forall>i < 3584. entry m (boot_tables L) i = boot_entry (boot_tables L) i"
  shows "tables_at (boot_tables L) (\<lambda>a. cleared L m (P2V a))"
proof -
  let ?b = "boot_tables L"
  note b = image_bounds [OF assms(1)] and at = cleared_at [OF assms(1)]
  have low: "cleared L m (P2V (?b + of_nat j)) = m (?b + of_nat j)" if "j < 28672" for j
  proof -
    have u: "unat (?b + of_nat j) = unat ?b + j" using b that by (simp add: word_arith)
    have "unat (P2V (?b + of_nat j)) = 18446462598732840960 + (unat ?b + j)"
      using b that unat_add_small [of "?b + of_nat j" KERNEL_BASE] by (simp add: P2V_def u KERNEL_BASE_def)
    then have "unat (P2V (?b + of_nat j)) < unat (bss_start L)" "unat (P2V (?b + of_nat j)) < unat FS_BASE"
      using b that by linarith+
    then show ?thesis by (simp add: at)
  qed
  have "entry (\<lambda>a. cleared L m (P2V a)) ?b i = boot_entry ?b i" if "i < 3584" for i
  proof -
    have "cleared L m (P2V (?b + of_nat (8 * i) + of_nat k)) = m (?b + of_nat (8 * i) + of_nat k)" if "k < 8" for k
      using low [of "8 * i + k"] that \<open>i < 3584\<close> by (simp add: add.assoc)
    then have "entry (\<lambda>a. cleared L m (P2V a)) ?b i = entry m ?b i" unfolding entry_def by (rule rd_cong)
    then show ?thesis using assms(2) that by simp
  qed
  then show ?thesis using assms(1) b by (simp add: tables_at_def image_placed_def)
qed

lemma cleared_disk:
  assumes "image_placed L m0" "\<forall>a. \<not> in_range (boot_tables L) 28672 a \<longrightarrow> m a = m0 a" "i < 9437184"
  shows "cleared L m (FS_BASE + of_nat i) = m0 (V2P (bss_start L) + of_nat i)"
proof -
  let ?b = "boot_tables L"
  note b = image_bounds [OF assms(1)]
  have u: "unat (FS_BASE + of_nat i) = unat FS_BASE + i" using b assms(3) by (simp add: word_arith)
  have "unat (V2P (bss_start L) + of_nat i) = unat (V2P (bss_start L)) + i" using b assms(3) by (simp add: word_arith)
  then have g: "unat ?b + 28672 \<le> unat (V2P (bss_start L) + of_nat i)" using b by linarith
  have "unat ?b + 28672 \<le> 2 ^ 64" using b by simp
  then have "\<not> in_range ?b 28672 (V2P (bss_start L) + of_nat i)" using g by (simp add: in_range_iff)
  moreover have "V2P (bss_start L + of_nat i) = V2P (bss_start L) + of_nat i" by (simp add: V2P_def)
  ultimately show ?thesis using assms(2,3) b by (simp add: cleared_at [OF assms(1)] u)
qed

text \<open>
  Property C9: \<open>boot.s\<close> hands the kernel over as \<open>kernel_main\<close> needs it: on the first core, started at exception level 2 with the image in
  place, it jumps to \<open>kernel_main\<close> at exception level 1, with the stack below the kernel in its half, the kernel's
  vector table and the direct map on; the file system that followed the image is at \<open>FS_BASE\<close>, and the kernel's data is zero.
\<close>

theorem start_hands_over:
  assumes "image_placed L m" "mpidr_el1 c AND 3 = 0" "currentel c = 8"
  shows "\<exists>c' m'. start_core L c m = Inr (c', m') \<and> pc c' = kernel_main_label L \<and> currentel c' = 4
     \<and> sp_el1 c' = KERNEL_BASE + 0x80000 \<and> vbar_el1 c' = vector_table_el1 L
     \<and> (\<forall>v. mmu_addr (regs c') (\<lambda>a. m' (P2V a)) v = boot_place v)
     \<and> (\<forall>i < 9437184. m' (FS_BASE + of_nat i) = m (V2P (bss_start L) + of_nat i))
     \<and> (\<forall>a. bss_start L \<le> a \<and> a < bss_end L \<longrightarrow> m' a = 0)"
proof -
  let ?b = "boot_tables L"
  obtain m1 where m1: "setup_vm ?b m = Some m1" "\<forall>i < 3584. entry m1 ?b i = boot_entry ?b i"
    "\<forall>a. \<not> in_range ?b 28672 a \<longrightarrow> m1 a = m a"
    using setup_vm_entries [of m ?b] assms(1) by (auto simp: image_placed_def)
  define c' where "c' = (switch_to_el1 L c)\<lparr>sp_el1 := 0x80000 + 0xffff000000000000,
    regs := enable_mmu ?b (regs (switch_to_el1 L c)), vbar_el1 := vector_table_el1 L, pc := kernel_main_label L\<rparr>"
  have "drop_bit 2 (8 :: u64) = 2" by (simp add: drop_bit_eq_div word_unat_eq_iff unat_div)
  then have "start_core L c m = Inr (c', cleared L m1)"
    using assms(2,3) m1(1) by (simp add: start_core_def enter_el1_def Let_def c'_def cleared_def)
  moreover have "mmu_addr (enable_mmu ?b r) (\<lambda>a. cleared L m1 (P2V a)) a = boot_place a" for r a
    by (rule mmu_boot_place [OF cleared_tables [OF assms(1) m1(2)]])
  moreover have "cleared L m1 (FS_BASE + of_nat i) = m (V2P (bss_start L) + of_nat i)" if "i < 9437184" for i
    by (rule cleared_disk [OF assms(1) m1(3) that])
  moreover have "cleared L m1 a = 0" if "bss_start L \<le> a" "a < bss_end L" for a
    using that by (simp add: cleared_at [OF assms(1)] word_le_nat_alt word_less_nat_alt)
  moreover have "currentel c' = 4" by (simp add: c'_def switch_to_el1_def eret_el2_def Let_def)
  ultimately show ?thesis by (simp add: c'_def KERNEL_BASE_def)
qed

text \<open>An image of zeros with its tables at 0x90000 and its data from 0xA0000 to 0xB0000.\<close>

definition sample_labels :: labels where
  "sample_labels = \<lparr>boot_tables = 0x90000, el1_entry = 0x80040, bss_start = KERNEL_BASE + 0xA0000, bss_end = KERNEL_BASE + 0xB0000,
     vector_table_el1 = KERNEL_BASE + 0x81000, kernel_main_label = KERNEL_BASE + 0x82000\<rparr>"

definition sample_core :: core where
  "sample_core = \<lparr>mpidr_el1 = 0x80000000, currentel = 8, hcr_el2 = 0, spsr_el2 = 0, elr_el2 = 0, vbar_el1 = 0, sp_el1 = 0, pc = 0x80000,
     regs = \<lparr>ttbr0_el1 = 0, ttbr1_el1 = 0, mair_el1 = 0, tcr_el1 = 0, sctlr_el1 = 0\<rparr>\<rparr>"

lemma start_hands_over_witness:
  "\<exists>c' m'. start_core sample_labels sample_core (\<lambda>_. 0) = Inr (c', m') \<and> pc c' = KERNEL_BASE + 0x82000
     \<and> currentel c' = 4 \<and> mmu_addr (regs c') (\<lambda>a. m' (P2V a)) (KERNEL_BASE + 0x82000) = Some (0x82000, 0x44)"
proof -
  have "\<forall>i < 3584. entry (\<lambda>_. 0) 0x90000 i = 0" by (simp add: entry_def rd_zero del: rd.simps)
  then have i: "image_placed sample_labels (\<lambda>_. 0)"
    by (simp add: image_placed_def sample_labels_def V2P_def KERNEL_BASE_def FS_BASE_def P2V_def FS_SIZE_def)
  have c: "mpidr_el1 sample_core AND 3 = 0" "currentel sample_core = 8" by (simp_all add: sample_core_def)
  have "boot_place (KERNEL_BASE + 0x82000) = Some (0x82000, 0x44)" by (simp add: boot_place_def place_def KERNEL_BASE_def)
  then show ?thesis using start_hands_over [OF i c] by (fastforce simp: sample_labels_def)
qed

end
