(* ===== verification/Translation.thy ===== *)
theory Translation
  imports Lifecycle Mmu
begin

text \<open>
  The tables that the kernel builds, as the MMU reads them. The walk of the architecture through the tables of an
  address space gives what the kernel's own walk in utils/memory.c gives, and a program that runs reaches the
  page of its process and nothing else, the memory of the kernel included.
\<close>

section \<open>The walk through an address space\<close>

text \<open>Memory by physical address.\<close>

definition physical :: "memory \<Rightarrow> memory" where
  "physical m p = m (P2V p)"

lemma rd_physical: "rd n (physical m) a = rd n m (P2V a)"
proof (induction n arbitrary: a)
  case (Suc n)
  have "P2V (a + 1) = P2V a + 1" by (simp add: P2V_def)
  then show ?case using Suc [of "a + 1"] by (simp add: physical_def)
qed simp

lemma entry_physical: "entry (physical m) (V2P p) i = entry m p i"
  by (simp add: entry_def rd_physical P2V_def V2P_def del: rd.simps)

lemma bit_01:
  fixes d :: u64
  shows "d AND 3 = 3 \<longleftrightarrow> bit d 0 \<and> bit d 1" "d AND 3 = 1 \<longleftrightarrow> bit d 0 \<and> \<not> bit d 1"
proof -
  have m: "(3 :: u64) = mask 2" "(1 :: u64) = mask 1" by (simp_all add: mask_eq_exp_minus_1)
  have b: "bit (d AND 3) n \<longleftrightarrow> bit d n \<and> n < 2" for n unfolding m by (simp add: bit_and_iff bit_mask_iff) (auto dest: bit_imp_le_length)
  have b3: "bit (3 :: u64) n \<longleftrightarrow> n < 2" for n unfolding m(1) by (auto simp: bit_mask_iff)
  have b1: "bit (1 :: u64) n \<longleftrightarrow> n < 1" for n by (simp add: bit_1_iff)
  show "d AND 3 = 3 \<longleftrightarrow> bit d 0 \<and> bit d 1"
  proof
    assume "d AND 3 = 3"
    then have "bit d n \<and> n < 2 \<longleftrightarrow> n < 2" for n using b [of n] b3 [of n] by simp
    from this [of 0] this [of 1] show "bit d 0 \<and> bit d 1" by simp
  qed (intro bit_word_eqI, unfold b b3, auto simp: less_2_cases_iff)
  show "d AND 3 = 1 \<longleftrightarrow> bit d 0 \<and> \<not> bit d 1"
  proof
    assume "d AND 3 = 1"
    then have "bit d n \<and> n < 2 \<longleftrightarrow> n < 1" for n using b [of n] b1 [of n] by simp
    from this [of 0] this [of 1] show "bit d 0 \<and> \<not> bit d 1" by simp
  qed (intro bit_word_eqI, unfold b b1, auto simp: less_2_cases_iff)
qed

lemma walk_tables:
  assumes "tables m e T" "T Pgd = Some pgd"
  shows "walk (physical m) (V2P pgd) v = (if bit (leaf m T v) 0 \<and> \<not> bit (leaf m T v) 1 then Some (leaf m T v) else None)"
proof -
  let ?i = "pgd_index v" let ?j = "pud_index v"
  have valid: "d AND ENTRY_V = 0 \<longleftrightarrow> \<not> bit d 0" for d :: u64 by (simp add: ENTRY_V_def and_one_eq odd_iff_mod_2_eq_one bit_0)
  have p0: "points_to m pgd ?i (T (Pud ?i))" using tablesD(3) [OF assms(1,2), of ?i] by simp
  show ?thesis
  proof (cases "T (Pud ?i)")
    case None
    then have "T (Pmd ?i ?j) = None" using tablesD(4) [OF assms(1), of "Pmd ?i ?j"] by (cases "T (Pmd ?i ?j)") auto
    then show ?thesis using p0 None by (simp add: walk_def entry_physical points_to_def valid bit_01 leaf_def)
  next
    case (Some p)
    then have d0: "PDE_ADDR (entry m pgd ?i) = V2P p" "entry m pgd ?i AND 3 = 3"
      using p0 by (auto simp: points_to_def valid bit_01)
    have p1: "points_to m p ?j (T (Pmd ?i ?j))" using tablesD(3) [OF assms(1) Some, of ?j] by simp
    show ?thesis
    proof (cases "T (Pmd ?i ?j)")
      case None
      then show ?thesis using p1 d0 by (simp add: walk_def entry_physical points_to_def valid bit_01 leaf_def)
    next
      case r: (Some r)
      then have "PDE_ADDR (entry m p ?j) = V2P r" "entry m p ?j AND 3 = 3"
        using p1 by (auto simp: points_to_def valid bit_01)
      then show ?thesis using r d0 by (simp add: walk_def entry_physical leaf_def bit_01 Let_def)
    qed
  qed
qed

section \<open>What a program reaches\<close>

text \<open>
  The physical address that a program reaches at \<open>v\<close>: at exception level 0 a block has to have bit 6, which the kernel
  names \<open>USER\<close>.
\<close>

definition program_addr :: "mmu \<Rightarrow> memory \<Rightarrow> u64 \<Rightarrow> u64 option" where
  "program_addr r m v =
     (case (if in_low r v then walk m (ttbr0_el1 r) v else if in_high r v then walk m (ttbr1_el1 r) v else None) of
        None \<Rightarrow> None
      | Some d \<Rightarrow> if bit d 6 then Some (PTE_ADDR d + v mod PAGE_SIZE) else None)"

text \<open>The registers after boot, once \<open>switch_vm\<close> has set the user register.\<close>

definition running_mmu :: "u64 \<Rightarrow> mmu \<Rightarrow> 'a machine_scheme \<Rightarrow> mmu" where
  "running_mmu base r s = (enable_mmu base r)\<lparr>ttbr0_el1 := ttbr0 s\<rparr>"

lemma running_mmu_simps:
  "in_low (running_mmu base r s) v \<longleftrightarrow> unat v < 2 ^ 48" "in_high (running_mmu base r s) v \<longleftrightarrow> KERNEL_BASE \<le> v"
  "ttbr0_el1 (running_mmu base r s) = ttbr0 s" "ttbr1_el1 (running_mmu base r s) = pgd_ttbr1 base"
proof -
  have "in_low (running_mmu base r s) v = in_low (enable_mmu base r) v" "in_high (running_mmu base r s) v = in_high (enable_mmu base r) v"
    by (simp_all add: running_mmu_def in_low_def in_high_def)
  then show "in_low (running_mmu base r s) v \<longleftrightarrow> unat v < 2 ^ 48" "in_high (running_mmu base r s) v \<longleftrightarrow> KERNEL_BASE \<le> v"
    by (simp_all add: enable_mmu_ranges)
qed (simp_all add: running_mmu_def enable_mmu_def)

lemma slot_of_page: "unat v < 2 ^ 48 \<Longrightarrow> same_slot 0x400000 v \<longleftrightarrow> 0x400000 \<le> v \<and> v < 0x600000"
proof -
  assume v: "unat v < 2 ^ 48"
  let ?q = "unat v div 2 ^ 21"
  have i: "pgd_index v = ?q div 512 div 512" "pud_index v = ?q div 512 mod 512" "pmd_index v = ?q mod 512"
    using index_block [of v] v by simp_all
  have p: "pgd_index 0x400000 = 0" "pud_index 0x400000 = 0" "pmd_index 0x400000 = 2" by (simp_all add: index_div)
  have "same_slot 0x400000 v \<longleftrightarrow> ?q = 2"
    unfolding same_slot_def p i using div_mult_mod_eq [of ?q 512] div_mult_mod_eq [of "?q div 512" 512]
    by (intro iffI) (linarith, simp)
  also have "\<dots> \<longleftrightarrow> 2 * 2 ^ 21 \<le> unat v \<and> unat v < 3 * 2 ^ 21"
    using div_mult_mod_eq [of "unat v" "2 ^ 21"] mod_less_divisor [of "2 ^ 21" "unat v"] by (intro iffI) auto
  finally show ?thesis by (simp add: word_le_nat_alt word_less_nat_alt)
qed

lemma user_block_bits: "page_ok e p \<Longrightarrow> \<not> bit (V2P p OR user_attributes OR BLOCK_ENTRY) 1"
  "bit (V2P p OR user_attributes OR BLOCK_ENTRY) 6"
  using V2P_bits(1) [of e p 1] by (auto simp: bit_or_iff user_attributes_def entry_defs bit_push_bit_iff)

lemma space_walk:
  assumes "addr_space m e pgd T" "unat v < 2 ^ 48"
  shows "walk (physical m) (V2P pgd) v = (if 0x400000 \<le> v \<and> v < 0x600000
     then Some (V2P (user_page m T) OR user_attributes OR BLOCK_ENTRY) else None)"
proof -
  let ?d = "V2P (user_page m T) OR user_attributes OR BLOCK_ENTRY"
  have sp: "tables m e T" "T Pgd = Some pgd" "\<forall>v. bit (leaf m T v) 0 \<longrightarrow> same_slot 0x400000 v" "leaf m T 0x400000 = ?d" "page_ok e (user_page m T)"
    using assms(1) by (auto simp: addr_space_def user_block_def)
  have "leaf m T v = ?d" if "same_slot 0x400000 v"
  proof -
    have "leaf m T v = leaf m T 0x400000" using that by (auto simp: leaf_def same_slot_def split: option.split)
    then show ?thesis using sp(4) by simp
  qed
  moreover have "bit ?d 0" by (rule user_block_valid)
  moreover have "\<not> bit ?d 1" by (rule user_block_bits(1) [OF sp(5)])
  ultimately show ?thesis
    using walk_tables [OF sp(1,2), of v] sp(3) slot_of_page [OF assms(2)] by (cases "same_slot 0x400000 v") auto
qed

text \<open>
  Property C3: a program reaches its own page and nothing else. While a process runs, the MMU, with the tables that the
  kernel built for the process and the boot tables in place, gives the program at exception level 0 the addresses 0x400000
  to 0x600000, which are the page of the process, and no other address: not the
  kernel's half, not the tables, not a page of another process.
\<close>

theorem program_reaches_own_page:
  fixes s :: kernel
  defines "c \<equiv> current_process s"
  assumes "kernel_inv s R W K T ps" "c \<noteq> 0" "tables_at base (physical (mem s))"
  shows "program_addr (running_mmu base r s) (physical (mem s)) v
     = (if 0x400000 \<le> v \<and> v < 0x600000 then Some (V2P (user_page (mem s) (T c)) + (v - 0x400000)) else None)"
proof -
  have "c \<in> live s" using live_queues [OF kernel_invD(1) [OF assms(2)]] assms(3) by (simp add: c_def)
  from kernel_invD(8) [OF assms(2) this]
  have sp: "addr_space (mem s) (kernel_end s) (p_page_map (process_table s c)) (T c)" by (simp add: process_ok_def)
  then have u: "page_ok (kernel_end s) (user_page (mem s) (T c))" by (simp add: addr_space_def)
  have tt: "ttbr0 s = V2P (p_page_map (process_table s c))" using kernel_invD(6) [OF assms(2)] by (simp add: c_def)
  show ?thesis
  proof (cases "unat v < 2 ^ 48")
    case True
    have "v mod PAGE_SIZE = v - 0x400000" if "0x400000 \<le> v" "v < 0x600000"
    proof -
      have "4194304 \<le> unat v" "unat v < 6291456" using that by (simp_all add: word_le_nat_alt word_less_nat_alt)
      then have "unat v mod 2097152 = unat v - 4194304" by (simp add: mod_if)
      then show ?thesis using that by (simp add: word_unat_eq_iff unat_mod PAGE_SIZE_def unat_sub)
    qed
    then show ?thesis
      using space_walk [OF sp True] True user_block_bits(2) [of "user_page (mem s) (T c)"]
        PTE_ADDR_block [OF u user_attributes_ok]
      by (simp add: program_addr_def running_mmu_simps tt)
  next
    case False
    then have v: "\<not> v < 0x600000" by (simp add: word_less_nat_alt)
    show ?thesis
      using walk_kernel [OF assms(4), of v] block_kind(4) [OF index_block(4) [of v]] False v
      by (simp add: program_addr_def running_mmu_simps del: of_nat_mult)
  qed
qed

text \<open>A running process, with the boot tables written to 0x90000 in the kernel image.\<close>

lemma boot_tables_written:
  assumes "base mod 4096 = 0" "unat base + 7 * 4096 \<le> 2 ^ 47"
  shows "\<exists>m'. tables_at base (physical m') \<and> (\<forall>x. \<not> in_range (P2V base) 28672 x \<longrightarrow> m' x = m x)"
proof -
  let ?m0 = "\<lambda>a. if in_range base 28672 a then 0 else physical m a"
  have "entry ?m0 base i = 0" if "i < 3584" for i
    unfolding entry_def
  proof (rule rd_zero)
    fix k :: nat assume "k < 8"
    then have "8 * i + k < 28672" using that by simp
    then have "in_range base 28672 (base + of_nat (8 * i + k))" by (subst in_range_add) (simp, blast)
    then show "?m0 (base + of_nat (8 * i) + of_nat k) = 0" by (simp add: add.assoc)
  qed
  then obtain m1 where m1: "\<forall>i < 3584. entry m1 base i = boot_entry base i" "\<forall>a. \<not> in_range base 28672 a \<longrightarrow> m1 a = ?m0 a"
    using setup_vm_entries [of ?m0 base] by blast
  have "physical (\<lambda>v. m1 (V2P v)) = m1" by (rule ext) (simp add: physical_def)
  moreover have "tables_at base m1" using m1(1) assms by (simp add: tables_at_def)
  moreover have "m1 (V2P x) = m x" if "\<not> in_range (P2V base) 28672 x" for x
  proof -
    have "V2P x - base = x - P2V base" by (simp add: V2P_def P2V_def)
    then have "\<not> in_range base 28672 (V2P x)" using that by (simp add: in_range_def)
    then show ?thesis using m1(2) by (simp add: physical_def)
  qed
  ultimately show ?thesis by (intro exI [of _ "\<lambda>v. m1 (V2P v)"]) simp
qed

lemma program_reaches_own_page_witness:
  "\<exists>(s :: kernel) r u. current_process s = 1 \<and> program_addr (running_mmu 0x90000 r s) (physical (mem s)) 0x400010 = Some (V2P u + 0x10)
     \<and> program_addr (running_mmu 0x90000 r s) (physical (mem s)) (KERNEL_BASE + 0x80000) = None"
proof -
  obtain s T ps where s: "running s T ps" using sample_running by blast
  then have inv: "kernel_inv s [] [] [] T ps" and c: "current_process s = 1" and ke: "kernel_end s = 0xffff000000200000"
    by (simp_all add: running_def)
  obtain m where m: "tables_at 0x90000 (physical m)" "\<And>x. \<not> in_range (P2V 0x90000) 28672 x \<Longrightarrow> m x = mem s x"
    using boot_tables_written [of "0x90000" "mem s"] by auto
  have r: "in_range (P2V 0x90000) 28672 x \<longleftrightarrow> 18446462598733430784 \<le> unat x \<and> unat x < 18446462598733459456" for x
    by (subst in_range_iff) (simp_all add: P2V_def KERNEL_BASE_def)
  have "keeps_pages {0} s (s\<lparr>mem := m\<rparr>)"
    unfolding keeps_pages_def image_eq_def same_page_def
  proof (intro conjI allI impI)
    fix x assume "FS_BASE \<le> x"
    then show "mem (s\<lparr>mem := m\<rparr>) x = mem s x" using m(2) r by (simp add: word_le_nat_alt)
  next
    fix q x assume "page_ok (kernel_end s) q \<and> q \<notin> {0}" "in_range q 2097152 x"
    then have q: "page_ok (kernel_end s) q" "0xffff000000200000 \<le> q" using page_ok_bounds(5) ke by auto
    have "unat q \<le> unat x" using \<open>in_range q 2097152 x\<close> page_ok_bounds(2) [OF q(1)] by (subst (asm) in_range_iff) simp_all
    then show "mem (s\<lparr>mem := m\<rparr>) x = mem s x" using m(2) r q(2) by (simp add: word_le_nat_alt)
  qed simp
  moreover have "0 \<notin> set ps" using kernel_invD(7) [OF inv] page_ok_bounds(4) by (auto simp: heap_inv_def)
  moreover have "\<forall>i \<in> live s. 0 \<notin> ran (T i)"
    using kernel_invD(8) [OF inv] space_pages_ok page_ok_bounds(4) unfolding process_ok_def space_pages_def by blast
  ultimately have inv': "kernel_inv (s\<lparr>mem := m\<rparr>) [] [] [] T ps" by (rule kernel_inv_page_write(1) [OF inv])
  have "current_process (s\<lparr>mem := m\<rparr>) \<noteq> 0" using c by simp
  note p = program_reaches_own_page [OF inv' this, simplified, OF m(1)]
  show ?thesis
    using c p [of undefined "0x400010"] p [of undefined "KERNEL_BASE + 0x80000"]
    by (intro exI [of _ "s\<lparr>mem := m\<rparr>"] exI [of _ undefined] exI [of _ "user_page m (T 1)"]) (simp add: KERNEL_BASE_def)
qed

end
