(* ===== verification/Spec2Isabelle.thy ===== *)
theory Spec2Isabelle
  imports Reachable User Traps Start Translation
begin

text \<open>
  armOs_64: a small operating system for the Raspberry Pi 3 (AArch64), and the programs that it ships with.

  \<^bold>\<open>The program.\<close> boot/boot.s drops to exception level 1, builds and enables the boot page tables of mmu/mmu.s, moves
  the file system behind the kernel image to its place and calls \<open>kernel_main\<close> (kernel/kernel.c). That sets
  up the serial console, the page allocator, the file system, the interrupt controller and the timer, and makes two
  processes: the idle process, which is the boot code itself, and process 1, loaded from INIT.BIN. From then on
  everything is an exception: the assembly of vector_t/vector_table.s saves the registers in a trap frame on the stack of the process,
  \<open>exception_handler\<close> looks at its number, and a system call, the timer or the keyboard is served by the other parts. The
  scheduler (process/process.c) switches stacks and page tables; processes wait in three queues (utils/list.c). A process
  owns a stack page, three page tables and one 2MB page at 0x400000 (utils/memory.c). Files are read from a FAT16 volume in memory (fs/fs.c).
  The first program starts the shell (user/console), which runs others by \<open>fork\<close>, \<open>exec\<close> and \<open>wait\<close>.

  \<^bold>\<open>Theories, each importing those above it that it uses.\<close>

  \<^item> \<open>Prelude\<close>: C integers as words, outcomes of kernel functions, byte memory with loads and stores of any width.
  \<^item> \<open>MemOps\<close>: \<open>memset\<close>, \<open>memcmp\<close>, \<open>memcpy\<close> of utils/utils.s, register by register.
  \<^item> \<open>Heap\<close>: utils/memory.c, the allocator; the free list is threaded through the free pages. Locale \<open>page_allocator\<close>.
  \<^item> \<open>Paging\<close>: utils/memory.c, the page tables; they are a tree in memory, described by a map from positions to pages.
  \<^item> \<open>Access\<close>: what the kernel reads and writes, the direct map and user addresses through the translation register, and devices.
  \<^item> \<open>Queues\<close>: utils/list.c and the process structure. Locale \<open>fifo_queues\<close>.
  \<^item> \<open>Console\<close>: uart/uart.c, utils/print.c and the \<open>printf\<close> of user/lib/print.c, against a reference renderer.
  \<^item> \<open>Fat\<close>, \<open>FatRead\<close>, \<open>Fs\<close>, \<open>OpenFiles\<close>, \<open>Mount\<close>: fs/fs.c, from the layout of the volume to \<open>open_file\<close>, \<open>read_file\<close> and \<open>init_fs\<close>.
  \<^item> \<open>Uvm\<close>, \<open>Spaces\<close>: \<open>setup_uvm\<close> and \<open>copy_uvm\<close> of utils/memory.c and the memory of a process.
  \<^item> \<open>Proc\<close>, \<open>Sched\<close>, \<open>Rounds\<close>: process/process.c and what its operations do to the three queues.
  \<^item> \<open>Processes\<close>, \<open>Fork\<close>, \<open>Exec\<close>, \<open>Lifecycle\<close>: the kernel invariant, kept by \<open>fork\<close>, \<open>exec\<close>, \<open>exit\<close> and \<open>wait\<close>.
  \<^item> \<open>Devices\<close>: irq/irq.c, timer/generic_timer.c and .s, keyboard/keyboard.c. Locale \<open>bounded_queue\<close>.
  \<^item> \<open>Syscalls\<close>: syscall/syscall.c and vector_t/exception_handler.c.
  \<^item> \<open>Boot\<close>: kernel/kernel.c and utils/assert.c.
  \<^item> \<open>Safety\<close>, \<open>Reachable\<close>: the kernel as a state machine, what holds in every state it reaches, and isolation.
  \<^item> \<open>Traps\<close>: vector_t/vector_table.s, the registers on entry, on return and in \<open>swap\<close>.
  \<^item> \<open>Mmu\<close>, \<open>Start\<close>: mmu/mmu.s and boot/boot.s.
  \<^item> \<open>Translation\<close>: the kernel's tables as the hardware walks them.
  \<^item> \<open>User\<close>: user/console, user/ls, user/test, user/mainp.c, user/lib and user/startup.s.

  \<^bold>\<open>State.\<close> The record \<open>kernel\<close> extends \<open>files\<close>, \<open>machine\<close> and \<open>heap\<close>: memory as bytes, the list head \<open>free_memory\<close>, the
  end of the kernel image, the translation register, the tables of files and processes, the three
  queues, the key buffer and the clock. The fields are the global variables of the C files. Free pages, page tables, stacks, trap frames,
  user pages and the volume are bytes of the memory; the structures of the process table, the file control blocks
  and the file descriptors are records. A device register is read from an arbitrary input
  stream, one for each register, and all writes to registers are kept in order.

  \<^bold>\<open>Control.\<close> A function returns a value and the new state, or the reason why it never returns: a failed
  assertion, a loop without end, a page fault in the kernel, or undefined behaviour of C (a null pointer, an index out of bounds, a division by zero),
  where the model stops. Loops that C does not bound are partial functions into an option, \<open>None\<close> for a loop that never ends;
  no fuel is used anywhere, and that they end is proved under what they need (a list without cycles, a chain of
  clusters that ends, a UART that becomes ready, a return key). A context switch stops a kernel function in the middle: what is
  left of it is a value of type \<open>cont\<close> in \<open>conts\<close>, by process, and \<open>resume\<close> goes on with it. The idle process is the boot code.

  \<^bold>\<open>What is shown.\<close> The invariants come in layers: \<open>heap_inv\<close> (the free list), \<open>tables\<close> and \<open>addr_space\<close> (page tables),
  \<open>queue_repr\<close> and \<open>sched_inv\<close> (queues and states of processes), \<open>files_ok\<close> (open files are counted), \<open>kernel_inv\<close> (all of them, with
  every page owned once) and \<open>good\<close> (with the continuations, the key buffer and the number of pages). Every operation keeps its layer, and
  says what else it leaves alone (\<open>keeps_pages\<close>, \<open>sched_step\<close>, \<open>io_step\<close>, \<open>others_kept\<close>). On top of them:

  \<^item> From power-on, \<open>boot.s\<close> reaches \<open>kernel_main\<close> with the direct map on, and \<open>kernel_main\<close> returns on every machine
    with enough memory and INIT.BIN, with everything that it sends to the devices listed.
  \<^item> After it, in every state that programs and devices lead to, \<open>kernel_inv\<close> holds and no page is lost; what a process does
    leaves the memory of the others as it was; and the hardware, with the tables the kernel built, lets a program reach its own page only.
  \<^item> \<open>fork\<close>, \<open>exec\<close>, \<open>exit\<close>, \<open>wait\<close>, \<open>sleep\<close>, \<open>yield\<close> and the interrupt handlers are described on every branch; a trap and its return
    restore the registers, \<open>fork\<close> returns twice, a new process starts in its program, nobody starves.
  \<^item> The allocator refines a stack, the queues and the key buffer refine lists, \<open>printk\<close> equals a renderer without buffers, the line
    editor of the shell equals one on lists, and the file calls return what the volume holds.
  \<^item> Where the code does not do what it means to, that is a theorem as well: the backward copy of \<open>memmove\<close>, the file descriptors that are
    never freed, the size check of \<open>read_file\<close> that wraps, two readers of one key.

  \<^bold>\<open>What is assumed.\<close> \<open>powered_on\<close> is the state that the loader and the cleared data of the kernel give: memory for at least seven pages
  of heap, a signed volume with an INIT.BIN that fits its page, a UART that becomes ready again. \<open>call_ok\<close> is what the system calls do not check:
  fewer than \<open>2 ^ 31\<close> opens of a file and process ids (\<open>within_limits\<close>), and buffers of \<open>read_file\<close> and \<open>read_root_directory\<close> that
  are not kernel addresses (\<open>buffers_ok\<close>). A program changes its own page only, as the translation of its addresses shows, and the
  processor saves its registers on its own stack page. A file's clusters form a chain in the volume that is long enough for its size (\<open>file_chain\<close>).

  \<^bold>\<open>Bounds.\<close> Ten processes, 100 open files for each, 2MB pages up to \<open>HEAP_MEMORY_END\<close>, 500 keys, 1024 bytes for \<open>printk\<close>, 100 for the line of the shell:
  all are those of the code and are written out in the definitions. Integers have the width of the C type and wrap.

  \<^bold>\<open>Not modelled.\<close> The bytes of the two file tables and of the process table, which are records here. Caches, barriers and the
  interrupt mask: the kernel runs with interrupts off and is entered at instruction boundaries of a program or of the idle loop. The floating point
  registers, which the kernel does not save. \<open>delay\<close>, which only takes time, and \<open>sync_error_test\<close>, which is never called. \<open>sleepu\<close>, \<open>get_file_size\<close> and \<open>read_file\<close>
  of user/lib, which no program calls. The table of branches at the start of vector_table.s, the Makefiles and the linker scripts;
  the addresses that the linker chooses are parameters.
\<close>

end
